(* ===== verification/Prelude.thy ===== *)
theory Prelude
  imports Main "HOL-Library.Word"
begin

text \<open>
  What every component of the development shares: the outcome of a JavaScript function
  (a value or the error it throws), the loops of the source as folds that stop at the first
  throw, and the arithmetic of JavaScript numbers.

  \<^item> A function that may throw returns \<^verbatim>\<open>'a js\<close>, a sum of \<^verbatim>\<open>js_error\<close> and the value;
    \<^verbatim>\<open>bindE\<close> sequences two of them, \<^verbatim>\<open>foldE\<close> is a \<^verbatim>\<open>for\<close> loop over a list of loop
    values, \<^verbatim>\<open>assertE\<close> is the library's \<^verbatim>\<open>assert\<close>.
  \<^item> Integer-valued numbers are \<^typ>\<open>int\<close>. The bitwise operators coerce to 32 bits as
    ECMAScript does (\<^verbatim>\<open>ToInt32\<close>, \<^verbatim>\<open>ToUint32\<close>, shift counts modulo 32), so a value that
    does not fit is truncated in the model exactly where it is in the code.
\<close>

unbundle bit_operations_syntax

named_theorems js_simps \<open>rewrites from JavaScript operators to plain integer arithmetic\<close>

section \<open>Outcomes and loops\<close>

datatype js_error =
    RangeError string
  | AssertionError
  | TypeError
  | URIError
  | ReferenceError
  | SyntaxError
  | ErrorMsg "16 word list" \<comment> \<open>\<^verbatim>\<open>new Error(message)\<close>, the message in UTF-16 code units\<close>
  | Undefined \<comment> \<open>an out-of-range element reached arithmetic: outside the modelled fragment\<close>

type_synonym 'a js = "js_error + 'a"

fun bindE :: "'a js \<Rightarrow> ('a \<Rightarrow> 'b js) \<Rightarrow> 'b js" where
  "bindE (Inl e) f = Inl e"
| "bindE (Inr x) f = f x"

definition assertE :: "bool \<Rightarrow> unit js" where
  "assertE c = (if c then Inr () else Inl AssertionError)"

fun foldE :: "('a \<Rightarrow> 's \<Rightarrow> 's js) \<Rightarrow> 'a list \<Rightarrow> 's \<Rightarrow> 's js" where
  "foldE f [] s = Inr s"
| "foldE f (x # xs) s = bindE (f x s) (foldE f xs)"

lemma bindE_cong [fundef_cong]:
  "m = m' \<Longrightarrow> (\<And>x. m' = Inr x \<Longrightarrow> f x = g x) \<Longrightarrow> bindE m f = bindE m' g"
  by (cases m') auto

lemma bindE_Inr_iff: "bindE m f = Inr y \<longleftrightarrow> (\<exists>x. m = Inr x \<and> f x = Inr y)"
  by (cases m) auto

lemma bindE_Inl_iff: "bindE m f = Inl e \<longleftrightarrow> m = Inl e \<or> (\<exists>x. m = Inr x \<and> f x = Inl e)"
  by (cases m) auto

lemma bindE_assoc: "bindE (bindE m f) g = bindE m (\<lambda>x. bindE (f x) g)"
  by (cases m) auto

lemma assertE_simps [simp]:
  "assertE True = Inr ()"
  "assertE False = Inl AssertionError"
  "assertE c = Inr u \<longleftrightarrow> c"
  by (auto simp: assertE_def)

lemma foldE_append: "foldE f (xs @ ys) s = bindE (foldE f xs s) (foldE f ys)"
  by (induction xs arbitrary: s) (auto simp: bindE_assoc intro!: bindE_cong)

lemma foldE_nest: "foldE (\<lambda>a. foldE f (g a)) xs s = foldE f (concat (map g xs)) s"
  by (induction xs arbitrary: s) (auto simp: foldE_append intro!: bindE_cong)

lemma foldE_map: "foldE f (map g xs) = foldE (\<lambda>a. f (g a)) xs"
proof
  show "foldE f (map g xs) s = foldE (\<lambda>a. f (g a)) xs s" for s
    by (induction xs arbitrary: s) (auto intro!: bindE_cong)
qed

lemma foldE_pure: "foldE (\<lambda>x s. Inr (g x s)) xs s = Inr (fold g xs s)"
  by (induction xs arbitrary: s) auto

lemma foldE_cong [fundef_cong]:
  "xs = ys \<Longrightarrow> s = t \<Longrightarrow> (\<And>x s. x \<in> set ys \<Longrightarrow> f x s = g x s) \<Longrightarrow> foldE f xs s = foldE g ys t"
  by (induction xs arbitrary: ys s t) (auto intro!: bindE_cong)

text \<open>The Hoare rule of a loop over indices: an invariant indexed by the next loop value.\<close>

lemma foldE_upt_invariant:
  assumes "P m s" "m \<le> n"
    and "\<And>i s. m \<le> i \<Longrightarrow> i < n \<Longrightarrow> P i s \<Longrightarrow> \<exists>s'. f i s = Inr s' \<and> P (Suc i) s'"
  shows "\<exists>s'. foldE f [m..<n] s = Inr s' \<and> P n s'"
  using assms
proof (induction "n - m" arbitrary: m s)
  case 0
  then show ?case by simp
next
  case (Suc k)
  then have "m < n" by simp
  then obtain s' where s': "f m s = Inr s'" "P (Suc m) s'"
    using Suc.prems by blast
  have "\<exists>s''. foldE f [Suc m..<n] s' = Inr s'' \<and> P n s''"
    using Suc.hyps Suc.prems s' \<open>m < n\<close> by (intro Suc.hyps(1)) auto
  then show ?case using s' \<open>m < n\<close> by (simp add: upt_conv_Cons)
qed

lemma foldE_invariant:
  assumes "P s" "\<And>x s. x \<in> set xs \<Longrightarrow> P s \<Longrightarrow> \<exists>s'. f x s = Inr s' \<and> P s'"
  shows "\<exists>s'. foldE f xs s = Inr s' \<and> P s'"
  using assms
proof (induction xs arbitrary: s)
  case Nil
  then show ?case by simp
next
  case (Cons x xs)
  then obtain s' where "f x s = Inr s'" "P s'" by (metis list.set_intros(1))
  with Cons show ?case by (metis bindE.simps(2) foldE.simps(2) list.set_intros(2))
qed

lemma fold_enumerate_invariant:
  assumes "P 0 s" "\<And>i s. i < length xs \<Longrightarrow> P i s \<Longrightarrow> P (Suc i) (f (i, xs ! i) s)"
  shows "P (length xs) (fold f (List.enumerate 0 xs) s)"
  using assms
proof (induction xs arbitrary: s rule: rev_induct)
  case Nil
  then show ?case by simp
next
  case (snoc x xs)
  have "P (length xs) (fold f (List.enumerate 0 xs) s)"
  proof (intro snoc.IH)
    show "P 0 s" by (rule snoc.prems(1))
    show "P (Suc i) (f (i, xs ! i) s)" if "i < length xs" "P i s" for i s
      using snoc.prems(2)[of i s] that by (simp add: nth_append)
  qed
  then show ?case
    using snoc.prems(2)[of "length xs"] by (simp add: enumerate_append_eq)
qed

lemma foldE_enumerate_invariant:
  assumes "P 0 s" "\<And>i s. i < length xs \<Longrightarrow> P i s \<Longrightarrow> \<exists>s'. f (i, xs ! i) s = Inr s' \<and> P (Suc i) s'"
  shows "\<exists>s'. foldE f (List.enumerate 0 xs) s = Inr s' \<and> P (length xs) s'"
proof -
  have "\<exists>s'. foldE (\<lambda>i. f (i, xs ! i)) [0..<length xs] s = Inr s' \<and> P (length xs) s'"
    by (rule foldE_upt_invariant) (use assms in auto)
  moreover have "foldE (\<lambda>i. f (i, xs ! i)) js s = foldE f (map (\<lambda>i. (i, xs ! i)) js) s" for js s
    by (induction js arbitrary: s) (auto intro!: bindE_cong)
  moreover have "map (\<lambda>i. (i, xs ! i)) [0..<length xs] = List.enumerate 0 xs"
    by (rule nth_equalityI) (auto simp: nth_enumerate_eq)
  ultimately show ?thesis by simp
qed

lemma map_nth_upt: "length xs = n \<Longrightarrow> map ((!) xs) [0..<n] = xs"
  using map_nth[of xs] by simp

lemma concat_chunks:
  "length xs = k * m \<Longrightarrow> concat (map (\<lambda>i. take k (drop (k * i) xs)) [0..<m]) = xs"
proof (induction m arbitrary: xs)
  case 0
  then show ?case by simp
next
  case (Suc m)
  have "concat (map (\<lambda>i. take k (drop (k * i) (take (k * m) xs))) [0..<m]) = take (k * m) xs"
    using Suc.prems by (intro Suc.IH) simp
  moreover have "take k (drop (k * i) (take (k * m) xs)) = take k (drop (k * i) xs)" if "i < m" for i
  proof -
    have "k * Suc i \<le> k * m" using that by (intro mult_le_mono2) simp
    then show ?thesis by (simp add: drop_take min_def)
  qed
  ultimately have "concat (map (\<lambda>i. take k (drop (k * i) xs)) [0..<m]) = take (k * m) xs"
    by (metis (mono_tags, lifting) atLeastLessThan_iff map_cong set_upt)
  then show ?case using Suc.prems
    by (simp add: append_take_drop_id)
qed

section \<open>JavaScript numbers\<close>

definition to_int32 :: "int \<Rightarrow> int" where
  "to_int32 x = signed_take_bit 31 x"

definition to_uint32 :: "int \<Rightarrow> int" where
  "to_uint32 x = take_bit 32 x"

definition js_shl :: "int \<Rightarrow> int \<Rightarrow> int" where
  "js_shl x n = to_int32 (push_bit (nat (n mod 32)) (to_int32 x))"

definition js_ushr :: "int \<Rightarrow> int \<Rightarrow> int" where
  "js_ushr x n = drop_bit (nat (n mod 32)) (to_uint32 x)"

definition js_and :: "int \<Rightarrow> int \<Rightarrow> int" where
  "js_and x y = to_int32 x AND to_int32 y"

definition js_or :: "int \<Rightarrow> int \<Rightarrow> int" where
  "js_or x y = to_int32 x OR to_int32 y"

definition js_xor :: "int \<Rightarrow> int \<Rightarrow> int" where
  "js_xor x y = to_int32 x XOR to_int32 y"

lemma to_int32_id: "0 \<le> x \<Longrightarrow> x < 2 ^ 31 \<Longrightarrow> to_int32 x = x"
  by (simp add: to_int32_def signed_take_bit_int_eq_self)

lemma to_uint32_id: "0 \<le> x \<Longrightarrow> x < 2 ^ 32 \<Longrightarrow> to_uint32 x = x"
  by (simp add: to_uint32_def take_bit_int_eq_self)

lemma js_ushr_nonneg:
  "0 \<le> x \<Longrightarrow> x < 2 ^ 32 \<Longrightarrow> 0 \<le> n \<Longrightarrow> n < 32 \<Longrightarrow> js_ushr x n = x div 2 ^ nat n"
  by (simp add: js_ushr_def to_uint32_id drop_bit_eq_div)

lemma js_shl_nonneg:
  assumes "0 \<le> x" "0 \<le> n" "n < 32" "x * 2 ^ nat n < 2 ^ 31"
  shows "js_shl x n = x * 2 ^ nat n"
proof -
  have "x \<le> x * 2 ^ nat n" using assms(1) by (simp add: mult_le_cancel_left1)
  then show ?thesis using assms
    by (simp add: js_shl_def to_int32_id push_bit_eq_mult)
qed

lemma js_bitwise_nonneg:
  assumes "0 \<le> x" "x < 2 ^ 31" "0 \<le> y" "y < 2 ^ 31"
  shows "js_and x y = x AND y" "js_or x y = x OR y" "js_xor x y = x XOR y"
  using assms by (simp_all add: js_and_def js_or_def js_xor_def to_int32_id)

lemma int_and_7: "(x :: int) AND 7 = x mod 8"
proof -
  have "x AND 7 = x AND mask 3" by (simp add: mask_eq_exp_minus_1)
  then show ?thesis by (simp add: take_bit_eq_mod flip: take_bit_eq_mask)
qed

lemma js_and_7: "0 \<le> x \<Longrightarrow> x < 2 ^ 31 \<Longrightarrow> js_and x 7 = x mod 8"
  by (simp add: js_bitwise_nonneg int_and_7)

lemma js_and_1: "0 \<le> x \<Longrightarrow> x < 2 ^ 31 \<Longrightarrow> js_and x 1 = x mod 2"
  by (simp add: js_bitwise_nonneg and_one_eq)

lemma div_pow2_le: "0 \<le> v \<Longrightarrow> v div 2 ^ i \<le> (v :: int)"
  using zdiv_mono2[of v 1 "2 ^ i"] by simp

lemma js_ushr_bounds: "0 \<le> js_ushr x n" "js_ushr x n < 2 ^ 32"
proof -
  show "0 \<le> js_ushr x n" by (simp add: js_ushr_def to_uint32_def)
  have "js_ushr x n \<le> to_uint32 x"
    by (simp add: js_ushr_def drop_bit_eq_div to_uint32_def div_pow2_le)
  also have "\<dots> < 2 ^ 32" unfolding to_uint32_def by (rule take_bit_int_less_exp)
  finally show "js_ushr x n < 2 ^ 32" .
qed

lemma to_int32_to_uint32 [simp]: "to_int32 (to_uint32 x) = to_int32 x"
  by (simp add: to_int32_def to_uint32_def signed_take_bit_take_bit)

lemma to_uint32_to_uint32 [simp]: "to_uint32 (to_uint32 x) = to_uint32 x"
  by (simp add: to_uint32_def)

lemma js_coerce [simp]:
  "js_ushr (to_uint32 x) n = js_ushr x n" "js_shl (to_uint32 x) n = js_shl x n"
  "js_xor a (to_uint32 x) = js_xor a x" "js_xor (to_uint32 x) a = js_xor x a"
  by (simp_all add: js_ushr_def js_shl_def js_xor_def)

end
