(* ===== verification/Bits.thy ===== *)
theory Bits
  imports Prelude
begin

text \<open>
  Bit buffers of \<^verbatim>\<open>frontend/js/qrcodegen.js\<close>: \<^verbatim>\<open>appendBits\<close> and \<^verbatim>\<open>getBit\<close>, and the packing of a
  bit buffer into bytes at the end of \<^verbatim>\<open>QrCode.encodeSegments\<close> (\<^verbatim>\<open>packBits\<close>). A buffer is the
  source's array of numbers 0 and 1. The specification side is \<^verbatim>\<open>bits_of\<close> (the \<open>n\<close> low bits
  of a number, highest first) and \<^verbatim>\<open>bits_val\<close> (the number a bit string denotes); the lemmas
  show that the loops compute them and that packing is undone by writing the bytes out again.
\<close>

type_synonym bits = "int list"

definition is_bits :: "bits \<Rightarrow> bool" where
  "is_bits bs \<longleftrightarrow> (\<forall>b \<in> set bs. b = 0 \<or> b = 1)"

section \<open>The code\<close>

definition appendBits :: "int \<Rightarrow> int \<Rightarrow> bits \<Rightarrow> bits js" where
  "appendBits val len bb =
     (if len < 0 \<or> len > 31 \<or> js_ushr val len \<noteq> 0
      then Inl (RangeError ''Value out of range'')
      else Inr (fold (\<lambda>i bb. bb @ [js_and (js_ushr val (int i)) 1]) (rev [0..<nat len]) bb))"

definition getBit :: "int \<Rightarrow> int \<Rightarrow> bool" where
  "getBit x i \<longleftrightarrow> js_and (js_ushr x i) 1 \<noteq> 0"

text \<open>
  The packing loop: push zero bytes until there is one for every eight bits, then
  \<^verbatim>\<open>bb.forEach((b, i) => dataCodewords[i >>> 3] |= b << (7 - (i & 7)))\<close>.
\<close>

function push_zeros :: "nat \<Rightarrow> int list \<Rightarrow> int list" where
  "push_zeros n dc = (if length dc * 8 < n then push_zeros n (dc @ [0]) else dc)"
  by pat_completeness auto
termination
  by (relation "measure (\<lambda>(n, dc). n - length dc * 8)") auto

declare push_zeros.simps [simp del]

definition pack_step :: "nat \<times> int \<Rightarrow> int list \<Rightarrow> int list" where
  "pack_step ib dc =
     (let (i, b) = ib; k = nat (js_ushr (int i) 3)
      in dc[k := js_or (dc ! k) (js_shl b (7 - js_and (int i) 7))])"

definition packBits :: "bits \<Rightarrow> int list" where
  "packBits bb = fold pack_step (List.enumerate 0 bb) (push_zeros (length bb) [])"

section \<open>Specification\<close>

definition bits_of :: "nat \<Rightarrow> int \<Rightarrow> bits" where
  "bits_of n v = map (\<lambda>i. of_bool (bit v i)) (rev [0..<n])"

definition bits_val :: "bits \<Rightarrow> int" where
  "bits_val bs = fold (\<lambda>b v. 2 * v + b) bs 0"

definition bytes_bits :: "int list \<Rightarrow> bits" where
  "bytes_bits ws = concat (map (bits_of 8) ws)"

lemma length_bits_of [simp]: "length (bits_of n v) = n"
  by (simp add: bits_of_def)

lemma is_bits_bits_of [simp]: "is_bits (bits_of n v)"
  by (auto simp: is_bits_def bits_of_def)

lemma is_bits_simps [simp]:
  "is_bits []" "is_bits (b # bs) \<longleftrightarrow> (b = 0 \<or> b = 1) \<and> is_bits bs"
  "is_bits (bs @ cs) \<longleftrightarrow> is_bits bs \<and> is_bits cs"
  by (auto simp: is_bits_def)

lemma bits_of_0 [simp]: "bits_of 0 v = []"
  by (simp add: bits_of_def)

lemma bits_of_Suc: "bits_of (Suc n) v = of_bool (bit v n) # bits_of n v"
  by (simp add: bits_of_def)

lemma bits_val_Nil [simp]: "bits_val [] = 0"
  by (simp add: bits_val_def)

lemma fold_bits_val: "fold (\<lambda>b v. 2 * v + b) bs a = a * 2 ^ length bs + bits_val bs"
proof (induction bs rule: rev_induct)
  case Nil
  then show ?case by simp
next
  case (snoc b bs)
  then show ?case by (simp add: bits_val_def algebra_simps)
qed

lemma bits_val_Cons: "bits_val (b # bs) = b * 2 ^ length bs + bits_val bs"
  by (simp add: bits_val_def fold_bits_val[of _ b, unfolded bits_val_def])

lemma bits_val_append: "bits_val (bs @ cs) = bits_val bs * 2 ^ length cs + bits_val cs"
  by (simp add: bits_val_def fold_bits_val[of _ "fold (\<lambda>b v. 2 * v + b) bs 0", unfolded bits_val_def])

lemma bits_val_bits_of: "bits_val (bits_of n v) = take_bit n v"
  by (induction n) (simp_all add: bits_of_Suc bits_val_Cons take_bit_Suc_from_most)

lemma bits_val_bits_of_id: "0 \<le> v \<Longrightarrow> v < 2 ^ n \<Longrightarrow> bits_val (bits_of n v) = v"
  by (simp add: bits_val_bits_of take_bit_int_eq_self)

lemma bits_val_bounds: "is_bits bs \<Longrightarrow> 0 \<le> bits_val bs \<and> bits_val bs < 2 ^ length bs"
  by (induction bs) (auto simp: bits_val_Cons)

lemma bits_of_take_bit: "n \<le> m \<Longrightarrow> bits_of n (take_bit m v) = bits_of n v"
  by (auto simp: bits_of_def bit_take_bit_iff)

lemma bit_add_high:
  fixes a b :: int
  assumes "0 \<le> a" "a < 2 ^ n"
  shows "bit (b * 2 ^ n + a) i = (if i < n then bit a i else bit b (i - n))"
proof -
  have "b * 2 ^ n + a = concat_bit n a b"
    using assms by (simp add: concat_bit_eq take_bit_int_eq_self push_bit_eq_mult)
  then show ?thesis by (auto simp: bit_concat_bit_iff)
qed

lemma bits_of_high_low:
  assumes "0 \<le> a" "a < 2 ^ n"
  shows "bits_of n (b * 2 ^ n + a) = bits_of n a"
  unfolding bits_of_def by (rule map_cong) (auto simp: bit_add_high[OF assms])

lemma bits_of_bits_val: "is_bits bs \<Longrightarrow> bits_of (length bs) (bits_val bs) = bs"
proof (induction bs)
  case Nil
  then show ?case by simp
next
  case (Cons b bs)
  then have bnd: "0 \<le> bits_val bs" "bits_val bs < 2 ^ length bs"
    using bits_val_bounds by auto
  have "of_bool (bit (bits_val (b # bs)) (length bs)) = b"
    using Cons.prems bit_add_high[OF bnd, of b "length bs"] by (auto simp: bits_val_Cons)
  moreover have "bits_of (length bs) (bits_val (b # bs)) = bs"
    using Cons bits_of_high_low[OF bnd, of b] by (simp add: bits_val_Cons)
  ultimately show ?case by (simp add: bits_of_Suc)
qed

lemma bits_val_inj:
  "is_bits bs \<Longrightarrow> is_bits cs \<Longrightarrow> length bs = length cs \<Longrightarrow> bits_val bs = bits_val cs \<Longrightarrow> bs = cs"
  by (metis bits_of_bits_val)

section \<open>The loops compute the specification\<close>

lemma js_low_bit: "0 \<le> v \<Longrightarrow> v < 2 ^ 31 \<Longrightarrow> i < 32 \<Longrightarrow> js_and (js_ushr v (int i)) 1 = of_bool (bit v i)"
proof -
  assume v: "0 \<le> v" "v < 2 ^ 31" and i: "i < 32"
  have "v div 2 ^ i < 2 ^ 31" using v div_pow2_le[of v i] by linarith
  then show ?thesis using v i
    by (simp add: js_ushr_nonneg js_and_1 pos_imp_zdiv_nonneg_iff mod_2_eq_odd bit_iff_odd)
qed

lemma fold_snoc_map: "fold (\<lambda>i bb. bb @ [f i]) xs bb = bb @ map f xs"
  by (induction xs arbitrary: bb) auto

lemma appendBits_ok:
  assumes "0 \<le> val" "val < 2 ^ len" "len \<le> 31"
  shows "appendBits val (int len) bb = Inr (bb @ bits_of len val)"
proof -
  have "(2::int) ^ len \<le> 2 ^ 31" using assms(3) by (intro power_increasing) auto
  then have v: "val < 2 ^ 31" using assms(2) by linarith
  have "js_ushr val (int len) = 0"
    using assms v by (simp add: js_ushr_nonneg)
  moreover have "map (\<lambda>i. js_and (js_ushr val (int i)) 1) (rev [0..<len]) = bits_of len val"
    unfolding bits_of_def using assms v by (intro map_cong refl js_low_bit) auto
  ultimately show ?thesis using assms(3)
    by (simp add: appendBits_def fold_snoc_map)
qed

lemma appendBits_error:
  assumes "0 \<le> val" "val < 2 ^ 32"
  shows "appendBits val len bb = Inl (RangeError ''Value out of range'')
           \<longleftrightarrow> len < 0 \<or> 31 < len \<or> 2 ^ nat len \<le> val"
proof -
  have "js_ushr val len \<noteq> 0 \<longleftrightarrow> 2 ^ nat len \<le> val" if "0 \<le> len" "len \<le> 31"
    using assms that by (simp add: js_ushr_nonneg zdiv_eq_0_iff not_less)
  then show ?thesis
    by (cases "len < 0 \<or> 31 < len") (auto simp: appendBits_def)
qed

lemma getBit_bit: "0 \<le> x \<Longrightarrow> x < 2 ^ 31 \<Longrightarrow> i < 32 \<Longrightarrow> getBit x (int i) \<longleftrightarrow> bit x i"
  by (simp add: getBit_def js_low_bit)

lemma push_zeros_eq:
  "length dc \<le> m \<Longrightarrow> push_zeros (m * 8) dc = dc @ replicate (m - length dc) 0"
proof (induction "m - length dc" arbitrary: dc)
  case 0
  then show ?case by (subst push_zeros.simps) simp
next
  case (Suc j)
  then have "push_zeros (m * 8) (dc @ [0]) = (dc @ [0]) @ replicate (m - length (dc @ [0])) 0"
    by (intro Suc.hyps(1)) auto
  with Suc.hyps(2) show ?case
    by (subst push_zeros.simps) (auto simp: Suc_diff_Suc simp flip: replicate_Suc)
qed

definition pack_inv :: "nat \<Rightarrow> bits \<Rightarrow> nat \<Rightarrow> int list \<Rightarrow> bool" where
  "pack_inv m bb i dc \<longleftrightarrow> length dc = m \<and>
     (\<forall>k < m. 0 \<le> dc ! k \<and> dc ! k < 256 \<and>
        (\<forall>n < 8. bit (dc ! k) n \<longleftrightarrow> 8 * k + 7 - n < i \<and> bb ! (8 * k + 7 - n) = 1))"

lemma pack_step_inv:
  assumes "is_bits bb" "length bb = m * 8" "i < length bb" "length bb < 2 ^ 31" "pack_inv m bb i dc"
  shows "pack_inv m bb (Suc i) (pack_step (i, bb ! i) dc)"
proof -
  let ?k = "i div 8" and ?b = "bb ! i"
  have k: "?k < m" using assms(2,3) by auto
  have b: "?b = 0 \<or> ?b = 1" using assms(1,3) by (auto simp: is_bits_def)
  have idx: "nat (js_ushr (int i) 3) = ?k"
    using assms(3,4) by (simp add: js_ushr_nonneg nat_div_distrib)
  have "js_and (int i) 7 = int (i mod 8)"
    using assms(3,4) by (simp add: js_and_7 zmod_int)
  then have e: "7 - js_and (int i) 7 = int (7 - i mod 8)" by (simp add: of_nat_diff)
  have "(2::int) ^ (7 - i mod 8) \<le> 2 ^ 7" by (rule power_increasing) auto
  then have bb: "0 \<le> ?b * 2 ^ (7 - i mod 8)" "?b * 2 ^ (7 - i mod 8) < 2 ^ 8"
    using b by auto
  have "js_shl ?b (int (7 - i mod 8)) = ?b * 2 ^ nat (int (7 - i mod 8))"
    using b bb by (intro js_shl_nonneg) (auto simp del: of_nat_diff)
  then have sl: "js_shl ?b (7 - js_and (int i) 7) = ?b * 2 ^ (7 - i mod 8)"
    unfolding e nat_int .
  have dk: "0 \<le> dc ! ?k" "dc ! ?k < 2 ^ 8" using assms(5) k by (auto simp: pack_inv_def)
  let ?new = "dc ! ?k OR ?b * 2 ^ (7 - i mod 8)"
  have step: "pack_step (i, ?b) dc = dc[?k := ?new]"
    using bb dk by (simp add: pack_step_def idx sl js_bitwise_nonneg Let_def)
  have new: "0 \<le> ?new" using bb dk by simp
  have new2: "?new < 2 ^ 8" by (rule OR_upper [OF dk bb(2)])
  have bitnew: "bit ?new n \<longleftrightarrow> 8 * ?k + 7 - n < Suc i \<and> bb ! (8 * ?k + 7 - n) = 1" if "n < 8" for n
  proof -
    have "bit (?b * 2 ^ (7 - i mod 8)) n \<longleftrightarrow> ?b = 1 \<and> n = 7 - i mod 8"
      using b by (auto simp: push_bit_eq_mult [symmetric] bit_simps)
    moreover have "8 * ?k + 7 - n = i \<longleftrightarrow> n = 7 - i mod 8"
    proof -
      define q r where "q = i div 8" and "r = i mod 8"
      have "i = 8 * q + r" "r < 8" by (simp_all add: q_def r_def)
      then show ?thesis using that unfolding q_def [symmetric] r_def [symmetric] by arith
    qed
    ultimately show ?thesis
      using assms(5) k that by (auto simp: pack_inv_def bit_or_iff less_Suc_eq)
  qed
  have other: "8 * k + 7 - n < Suc i \<longleftrightarrow> 8 * k + 7 - n < i" if "k \<noteq> ?k" "n < 8" for k n
  proof -
    have "(8 * k + 7 - n) div 8 = k" using that(2) by (simp add: div_nat_eqI)
    then have "8 * k + 7 - n \<noteq> i" using that(1) by auto
    then show ?thesis by linarith
  qed
  show ?thesis
    unfolding pack_inv_def
  proof (intro conjI allI impI)
    show "length (pack_step (i, ?b) dc) = m"
      using assms(5) by (simp add: step pack_inv_def)
    fix k assume "k < m"
    show "0 \<le> pack_step (i, ?b) dc ! k" "pack_step (i, ?b) dc ! k < 256"
      using assms(5) \<open>k < m\<close> new new2 by (cases "k = ?k"; simp add: step pack_inv_def)+
    fix n :: nat assume "n < 8"
    show "bit (pack_step (i, ?b) dc ! k) n \<longleftrightarrow> 8 * k + 7 - n < Suc i \<and> bb ! (8 * k + 7 - n) = 1"
    proof (cases "k = ?k")
      case True
      then show ?thesis using bitnew [OF \<open>n < 8\<close>] assms(5) \<open>k < m\<close> by (simp add: step pack_inv_def)
    next
      case False
      then show ?thesis
        using assms(5) \<open>k < m\<close> \<open>n < 8\<close> other [OF False \<open>n < 8\<close>] by (simp add: step pack_inv_def)
    qed
  qed
qed

lemma pack_inv_final:
  assumes "is_bits bb" "length bb = m * 8" "pack_inv m bb (length bb) dc" "k < m"
  shows "bits_of 8 (dc ! k) = take 8 (drop (8 * k) bb)"
proof (rule nth_equalityI)
  have "8 * k + 8 \<le> length bb" using assms(2,4) by simp
  then show len: "length (bits_of 8 (dc ! k)) = length (take 8 (drop (8 * k) bb))" by simp
  fix j assume "j < length (bits_of 8 (dc ! k))"
  then have j: "j < 8" by simp
  have "bits_of 8 (dc ! k) ! j = of_bool (bit (dc ! k) (7 - j))"
    using j by (simp add: bits_of_def rev_nth)
  also have "\<dots> = of_bool (bb ! (8 * k + j) = 1)"
    using assms(2-4) j by (simp add: pack_inv_def)
  also have "\<dots> = bb ! (8 * k + j)"
    using assms(1,2,4) j by (auto simp: is_bits_def)
  finally show "bits_of 8 (dc ! k) ! j = take 8 (drop (8 * k) bb) ! j"
    using j \<open>8 * k + 8 \<le> length bb\<close> by simp
qed

lemma packBits_inv:
  assumes "is_bits bb" "length bb = m * 8" "length bb < 2 ^ 31"
  shows "pack_inv m bb (length bb) (packBits bb)"
  unfolding packBits_def
proof (rule fold_enumerate_invariant [where P = "pack_inv m bb"])
  show "pack_inv m bb 0 (push_zeros (length bb) [])"
    using push_zeros_eq[of "[]" m] assms(2) by (simp add: pack_inv_def)
qed (use assms pack_step_inv in blast)

text \<open>Writing the packed bytes out again, highest bit first, gives the buffer back.\<close>

lemma bytes_bits_packBits:
  assumes "is_bits bb" "length bb = m * 8" "length bb < 2 ^ 31"
  shows "bytes_bits (packBits bb) = bb" "length (packBits bb) = m"
    "\<And>b. b \<in> set (packBits bb) \<Longrightarrow> 0 \<le> b \<and> b < 256"
proof -
  note inv = packBits_inv [OF assms]
  show len: "length (packBits bb) = m" using inv by (simp add: pack_inv_def)
  show "0 \<le> b \<and> b < 256" if "b \<in> set (packBits bb)" for b
    using that inv by (auto simp: in_set_conv_nth pack_inv_def)
  have "bytes_bits (packBits bb) = concat (map (\<lambda>k. bits_of 8 (packBits bb ! k)) [0..<m])"
    unfolding bytes_bits_def by (subst (1) map_nth_upt [OF len, symmetric]) (simp add: comp_def)
  also have "\<dots> = concat (map (\<lambda>k. take 8 (drop (8 * k) bb)) [0..<m])"
    using pack_inv_final [OF assms(1,2) inv] by (intro arg_cong [where f = concat] map_cong) auto
  also have "\<dots> = bb" using assms(2) by (intro concat_chunks) simp
  finally show "bytes_bits (packBits bb) = bb" .
qed

section \<open>Properties\<close>

text \<open>
  \<^verbatim>\<open>appendBits\<close> accepts a value below \<open>2 ^ 32\<close> exactly when the length is between 0 and 31 and the
  value fits it, and then the bits it appends denote the value; otherwise it throws and appends nothing.
\<close>
theorem appendBits_contract:
  assumes "0 \<le> val" "val < 2 ^ 32"
  shows "case appendBits val len bb of
      Inl e \<Rightarrow> e = RangeError ''Value out of range'' \<and> \<not> (0 \<le> len \<and> len \<le> 31 \<and> val < 2 ^ nat len)
    | Inr bb' \<Rightarrow> 0 \<le> len \<and> len \<le> 31 \<and> val < 2 ^ nat len \<and> take (length bb) bb' = bb \<and>
        length bb' = length bb + nat len \<and> is_bits (drop (length bb) bb') \<and>
        bits_val (drop (length bb) bb') = val"
proof (cases "0 \<le> len \<and> len \<le> 31 \<and> val < 2 ^ nat len")
  case True
  then have "appendBits val len bb = Inr (bb @ bits_of (nat len) val)"
    using appendBits_ok[OF assms(1), of "nat len" bb] by (simp add: nat_le_iff)
  then show ?thesis using True assms(1) by (simp add: bits_val_bits_of_id)
next
  case False
  then have "appendBits val len bb = Inl (RangeError ''Value out of range'')"
    using appendBits_error[OF assms, of len bb] by linarith
  then show ?thesis using False by simp
qed

theorem appendBits_contract_witness:
  "appendBits 5 3 [1] = Inr [1, 1, 0, 1] \<and> bits_val (drop 1 [1, 1, 0, 1]) = 5"
proof -
  have "appendBits 5 3 [1] = Inr [1, 1, 0, 1]" by code_simp
  then show ?thesis using appendBits_contract[of 5 3 "[1]"] by simp
qed

text \<open>
  Packing a bit buffer of whole bytes loses nothing: writing the packed bytes out again, highest
  bit first, gives the buffer back, and every packed element is a byte.
\<close>
theorem packBits_roundtrip:
  assumes "is_bits bb" "length bb mod 8 = 0" "length bb < 2 ^ 31"
  shows "bytes_bits (packBits bb) = bb \<and> length (packBits bb) * 8 = length bb \<and>
    (\<forall>b \<in> set (packBits bb). 0 \<le> b \<and> b < 256)"
proof -
  obtain m where m: "length bb = m * 8" using assms(2) by (metis mod_0_imp_dvd dvdE mult.commute)
  show ?thesis using bytes_bits_packBits[OF assms(1) m assms(3)] m by auto
qed

theorem packBits_roundtrip_witness:
  "packBits [1, 0, 0, 0, 0, 0, 0, 1] = [129] \<and> bytes_bits (packBits [1, 0, 0, 0, 0, 0, 0, 1]) = [1, 0, 0, 0, 0, 0, 0, 1]"
proof -
  have "packBits [1, 0, 0, 0, 0, 0, 0, 1] = [129]" by code_simp
  then show ?thesis using packBits_roundtrip[of "[1, 0, 0, 0, 0, 0, 0, 1]"] by simp
qed

end
