(* ===== verification/QrTables.thy ===== *)
theory QrTables
  imports Prelude
begin

text \<open>
  Constants and size arithmetic of \<^verbatim>\<open>frontend/js/qrcodegen.js\<close>: the enumerations \<^verbatim>\<open>QrCode.Ecc\<close> and
  \<^verbatim>\<open>QrSegment.Mode\<close>, the error correction tables, \<^verbatim>\<open>getNumRawDataModules\<close>,
  \<^verbatim>\<open>getNumDataCodewords\<close> and \<^verbatim>\<open>getAlignmentPatternPositions\<close>. The lemmas give the facts about the
  tables that the encoder relies on, for every version from 1 to 40 and every level: the block
  layout always divides the codewords as \<^verbatim>\<open>addEccAndInterleave\<close> assumes, and capacity grows with
  the version and shrinks with the level.
\<close>

section \<open>Enumerations\<close>

datatype ecc = LOW | MEDIUM | QUARTILE | HIGH

fun ordinal :: "ecc \<Rightarrow> nat" where
  "ordinal LOW = 0" | "ordinal MEDIUM = 1" | "ordinal QUARTILE = 2" | "ordinal HIGH = 3"

fun formatBits :: "ecc \<Rightarrow> int" where
  "formatBits LOW = 1" | "formatBits MEDIUM = 0" | "formatBits QUARTILE = 3" | "formatBits HIGH = 2"

datatype mode = NUMERIC | ALPHANUMERIC | BYTE | KANJI | ECI

fun modeBits :: "mode \<Rightarrow> int" where
  "modeBits NUMERIC = 0x1" | "modeBits ALPHANUMERIC = 0x2" | "modeBits BYTE = 0x4"
| "modeBits KANJI = 0x8" | "modeBits ECI = 0x7"

fun numBitsCharCount :: "mode \<Rightarrow> int list" where
  "numBitsCharCount NUMERIC = [10, 12, 14]"
| "numBitsCharCount ALPHANUMERIC = [9, 11, 13]"
| "numBitsCharCount BYTE = [8, 16, 16]"
| "numBitsCharCount KANJI = [8, 10, 12]"
| "numBitsCharCount ECI = [0, 0, 0]"

definition numCharCountBits :: "mode \<Rightarrow> int \<Rightarrow> int" where
  "numCharCountBits m ver = numBitsCharCount m ! nat ((ver + 7) div 17)"

text \<open>Levels are ordered by the share of damage they survive, which is their ordinal.\<close>

instantiation ecc :: linorder
begin

definition less_eq_ecc :: "ecc \<Rightarrow> ecc \<Rightarrow> bool" where
  "less_eq_ecc a b \<longleftrightarrow> ordinal a \<le> ordinal b"

definition less_ecc :: "ecc \<Rightarrow> ecc \<Rightarrow> bool" where
  "less_ecc a b \<longleftrightarrow> ordinal a < ordinal b"

instance
proof
  fix x y :: ecc
  show "x \<le> y \<Longrightarrow> y \<le> x \<Longrightarrow> x = y"
    by (cases x; cases y) (auto simp: less_eq_ecc_def)
qed (auto simp: less_eq_ecc_def less_ecc_def)

end

section \<open>Tables\<close>

definition MIN_VERSION :: int where "MIN_VERSION = 1"
definition MAX_VERSION :: int where "MAX_VERSION = 40"

definition ECC_CODEWORDS_PER_BLOCK :: "int list list" where
  "ECC_CODEWORDS_PER_BLOCK = [
    [-1, 7, 10, 15, 20, 26, 18, 20, 24, 30, 18, 20, 24, 26, 30, 22, 24, 28, 30, 28,
     28, 28, 28, 30, 30, 26, 28, 30, 30, 30, 30, 30, 30, 30, 30, 30, 30, 30, 30, 30, 30],
    [-1, 10, 16, 26, 18, 24, 16, 18, 22, 22, 26, 30, 22, 22, 24, 24, 28, 28, 26, 26,
     26, 26, 28, 28, 28, 28, 28, 28, 28, 28, 28, 28, 28, 28, 28, 28, 28, 28, 28, 28, 28],
    [-1, 13, 22, 18, 26, 18, 24, 18, 22, 20, 24, 28, 26, 24, 20, 30, 24, 28, 28, 26,
     30, 28, 30, 30, 30, 30, 28, 30, 30, 30, 30, 30, 30, 30, 30, 30, 30, 30, 30, 30, 30],
    [-1, 17, 28, 22, 16, 22, 28, 26, 26, 24, 28, 24, 28, 22, 24, 24, 30, 28, 28, 26,
     28, 30, 24, 30, 30, 30, 30, 30, 30, 30, 30, 30, 30, 30, 30, 30, 30, 30, 30, 30, 30]]"

definition NUM_ERROR_CORRECTION_BLOCKS :: "int list list" where
  "NUM_ERROR_CORRECTION_BLOCKS = [
    [-1, 1, 1, 1, 1, 1, 2, 2, 2, 2, 4, 4, 4, 4, 4, 6, 6, 6, 6, 7,
     8, 8, 9, 9, 10, 12, 12, 12, 13, 14, 15, 16, 17, 18, 19, 19, 20, 21, 22, 24, 25],
    [-1, 1, 1, 1, 2, 2, 4, 4, 4, 5, 5, 5, 8, 9, 9, 10, 10, 11, 13, 14,
     16, 17, 17, 18, 20, 21, 23, 25, 26, 28, 29, 31, 33, 35, 37, 38, 40, 43, 45, 47, 49],
    [-1, 1, 1, 2, 2, 4, 4, 6, 6, 8, 8, 8, 10, 12, 16, 12, 17, 16, 18, 21,
     20, 23, 23, 25, 27, 29, 34, 34, 35, 38, 40, 43, 45, 48, 51, 53, 56, 59, 62, 65, 68],
    [-1, 1, 1, 2, 4, 4, 4, 5, 6, 8, 8, 11, 11, 16, 16, 18, 16, 19, 21, 25,
     25, 25, 34, 30, 32, 35, 37, 40, 42, 45, 48, 51, 54, 57, 60, 63, 66, 70, 74, 77, 81]]"

section \<open>Sizes\<close>

definition getNumRawDataModules :: "int \<Rightarrow> int js" where
  "getNumRawDataModules ver =
     (if ver < MIN_VERSION \<or> ver > MAX_VERSION
      then Inl (RangeError ''Version number out of range'')
      else let result = (16 * ver + 128) * ver + 64;
               result = (if ver \<ge> 2
                         then let numAlign = ver div 7 + 2;
                                  result = result - ((25 * numAlign - 10) * numAlign - 55)
                              in if ver \<ge> 7 then result - 36 else result
                         else result)
           in bindE (assertE (208 \<le> result \<and> result \<le> 29648)) (\<lambda>_. Inr result))"

definition getNumDataCodewords :: "int \<Rightarrow> ecc \<Rightarrow> int js" where
  "getNumDataCodewords ver ecl =
     bindE (getNumRawDataModules ver)
       (\<lambda>raw. Inr (raw div 8 - ECC_CODEWORDS_PER_BLOCK ! ordinal ecl ! nat ver
                               * NUM_ERROR_CORRECTION_BLOCKS ! ordinal ecl ! nat ver))"

text \<open>
  \<^verbatim>\<open>getAlignmentPatternPositions\<close> of a symbol of the given version and size. \<^verbatim>\<open>Math.ceil(a / b)\<close> is
  the integer ceiling: the operands are below \<open>2 ^ 10\<close>, far from where a double rounds a quotient
  across an integer. The loop prepends positions after the first element until there are enough.
\<close>

definition ceil_div :: "int \<Rightarrow> int \<Rightarrow> int" where
  "ceil_div a b = - ((- a) div b)"

function splice_positions :: "int \<Rightarrow> int \<Rightarrow> int \<Rightarrow> int list \<Rightarrow> int list" where
  "splice_positions numAlign step pos result =
     (if int (length result) < numAlign
      then splice_positions numAlign step (pos - step) (take 1 result @ [pos] @ drop 1 result)
      else result)"
  by pat_completeness auto
termination
  by (relation "measure (\<lambda>(n, _, _, r). nat n - length r)") auto

declare splice_positions.simps [simp del]

definition getAlignmentPatternPositions :: "int \<Rightarrow> int \<Rightarrow> int list" where
  "getAlignmentPatternPositions version sz =
     (if version = 1 then []
      else let numAlign = version div 7 + 2;
               step = (if version = 32 then 26
                       else ceil_div (version * 4 + 4) (numAlign * 2 - 2) * 2)
           in splice_positions numAlign step (sz - 7) [6])"

section \<open>Facts about the tables\<close>

definition versions :: "int list" where "versions = map int [1..<41]"

definition levels :: "ecc list" where "levels = [LOW, MEDIUM, QUARTILE, HIGH]"

lemma in_versions: "ver \<in> set versions \<longleftrightarrow> 1 \<le> ver \<and> ver \<le> 40"
  by (auto simp: versions_def image_iff intro!: bexI[of _ "nat ver"])

lemma in_levels [simp]: "ecl \<in> set levels"
  by (cases ecl) (simp_all add: levels_def)

text \<open>The plain number of raw data modules, of error correction codewords and blocks.\<close>

definition raw_modules :: "int \<Rightarrow> int" where
  "raw_modules ver =
     (16 * ver + 128) * ver + 64
     - (if ver \<ge> 2 then (25 * (ver div 7 + 2) - 10) * (ver div 7 + 2) - 55 else 0)
     - (if ver \<ge> 7 then 36 else 0)"

definition ecc_len :: "int \<Rightarrow> ecc \<Rightarrow> int" where
  "ecc_len ver ecl = ECC_CODEWORDS_PER_BLOCK ! ordinal ecl ! nat ver"

definition num_blocks :: "int \<Rightarrow> ecc \<Rightarrow> int" where
  "num_blocks ver ecl = NUM_ERROR_CORRECTION_BLOCKS ! ordinal ecl ! nat ver"

definition data_codewords :: "int \<Rightarrow> ecc \<Rightarrow> int" where
  "data_codewords ver ecl = raw_modules ver div 8 - ecc_len ver ecl * num_blocks ver ecl"

lemma raw_modules_bounds_all: "list_all (\<lambda>v. 208 \<le> raw_modules v \<and> raw_modules v \<le> 29648) versions"
  by code_simp

lemma raw_modules_bounds:
  "1 \<le> ver \<Longrightarrow> ver \<le> 40 \<Longrightarrow> 208 \<le> raw_modules ver"
  "1 \<le> ver \<Longrightarrow> ver \<le> 40 \<Longrightarrow> raw_modules ver \<le> 29648"
  using raw_modules_bounds_all by (auto simp: list_all_iff in_versions)

lemma getNumRawDataModules_eq:
  "getNumRawDataModules ver =
     (if 1 \<le> ver \<and> ver \<le> 40 then Inr (raw_modules ver)
      else Inl (RangeError ''Version number out of range''))"
  using raw_modules_bounds[of ver]
  by (auto simp: getNumRawDataModules_def MIN_VERSION_def MAX_VERSION_def Let_def
        raw_modules_def algebra_simps)

lemma getNumDataCodewords_eq:
  "getNumDataCodewords ver ecl =
     (if 1 \<le> ver \<and> ver \<le> 40 then Inr (data_codewords ver ecl)
      else Inl (RangeError ''Version number out of range''))"
  by (simp add: getNumDataCodewords_def getNumRawDataModules_eq data_codewords_def
        ecc_len_def num_blocks_def)

definition layout_ok :: "int \<Rightarrow> ecc \<Rightarrow> bool" where
  "layout_ok ver ecl \<longleftrightarrow>
     7 \<le> ecc_len ver ecl \<and> ecc_len ver ecl \<le> 30 \<and>
     1 \<le> num_blocks ver ecl \<and> num_blocks ver ecl \<le> 81 \<and>
     ecc_len ver ecl + 2 \<le> raw_modules ver div 8 div num_blocks ver ecl \<and>
     raw_modules ver div 8 div num_blocks ver ecl \<le> 254 \<and>
     9 \<le> data_codewords ver ecl"

lemma layout_ok_all: "list_all (\<lambda>v. list_all (layout_ok v) levels) versions"
  by code_simp

lemma layout: "1 \<le> ver \<Longrightarrow> ver \<le> 40 \<Longrightarrow> layout_ok ver ecl"
  using layout_ok_all by (auto simp: list_all_iff in_versions)

text \<open>Capacity grows with the version and shrinks as the error correction level rises.\<close>

definition capacity_steps :: "int \<Rightarrow> bool" where
  "capacity_steps ver \<longleftrightarrow>
     data_codewords ver HIGH < data_codewords ver QUARTILE \<and>
     data_codewords ver QUARTILE < data_codewords ver MEDIUM \<and>
     data_codewords ver MEDIUM < data_codewords ver LOW \<and>
     (ver < 40 \<longrightarrow> list_all (\<lambda>l. data_codewords ver l < data_codewords (ver + 1) l) levels)"

lemma capacity_steps_all: "list_all capacity_steps versions"
  by code_simp

lemma capacity_steps: "1 \<le> ver \<Longrightarrow> ver \<le> 40 \<Longrightarrow> capacity_steps ver"
  using capacity_steps_all by (auto simp: list_all_iff in_versions)

lemma data_codewords_level:
  assumes "1 \<le> ver" "ver \<le> 40" "a < b"
  shows "data_codewords ver b < data_codewords ver a"
  using capacity_steps[OF assms(1,2)] assms(3)
  by (cases a; cases b) (auto simp: capacity_steps_def less_ecc_def)

lemma data_codewords_version:
  assumes "1 \<le> ver" "ver < 40"
  shows "data_codewords ver ecl < data_codewords (ver + 1) ecl"
  using capacity_steps[of ver] assms by (auto simp: capacity_steps_def list_all_iff)

lemma data_codewords_mono:
  assumes "1 \<le> v" "v \<le> w" "w \<le> 40"
  shows "data_codewords v ecl \<le> data_codewords w ecl"
  using assms(2,3)
proof (induction "nat (w - v)" arbitrary: w)
  case 0
  then show ?case by simp
next
  case (Suc n)
  then have "data_codewords v ecl \<le> data_codewords (w - 1) ecl" by (intro Suc.hyps(1)) auto
  also have "\<dots> < data_codewords w ecl"
    using data_codewords_version[of "w - 1" ecl] Suc.hyps(2) Suc.prems assms(1) by simp
  finally show ?case by simp
qed

lemma data_codewords_bounds:
  assumes "1 \<le> ver" "ver \<le> 40"
  shows "9 \<le> data_codewords ver ecl" "data_codewords ver ecl \<le> 2956"
proof -
  show "9 \<le> data_codewords ver ecl" using layout[OF assms, of ecl] by (simp add: layout_ok_def)
  have "data_codewords 40 LOW \<le> 2956" by code_simp
  moreover have "data_codewords ver ecl \<le> data_codewords ver LOW"
    using data_codewords_level[OF assms, of LOW ecl] by (cases ecl) (auto simp: less_ecc_def)
  ultimately show "data_codewords ver ecl \<le> 2956"
    using data_codewords_mono[OF assms(1,2), of LOW] by simp
qed

text \<open>The alignment pattern positions of every version.\<close>

fun gaps_within :: "int \<Rightarrow> int \<Rightarrow> int list \<Rightarrow> bool" where
  "gaps_within lo hi (a # b # xs) \<longleftrightarrow> lo \<le> b - a \<and> b - a \<le> hi \<and> gaps_within lo hi (b # xs)"
| "gaps_within lo hi _ \<longleftrightarrow> True"

definition alignment_ok :: "int \<Rightarrow> bool" where
  "alignment_ok ver \<longleftrightarrow>
     (let ps = getAlignmentPatternPositions ver (4 * ver + 17)
      in int (length ps) = ver div 7 + 2 \<and> hd ps = 6 \<and> last ps = 4 * ver + 10 \<and>
         list_all even ps \<and> gaps_within 12 28 ps)"

lemma alignment_ok_all: "list_all alignment_ok (tl versions)"
  by code_simp

lemma gaps_sorted: "gaps_within lo hi xs \<Longrightarrow> 0 < lo \<Longrightarrow> sorted_wrt (<) xs"
proof (induction lo hi xs rule: gaps_within.induct)
  case (1 lo hi a b xs)
  then have "sorted_wrt (<) (b # xs)" "lo \<le> b - a" by auto
  moreover from this have "a < b" using "1.prems"(2) by linarith
  ultimately show ?case by auto
qed auto

lemma sorted_ends: "sorted_wrt (<) (xs :: int list) \<Longrightarrow> x \<in> set xs \<Longrightarrow> hd xs \<le> x \<and> x \<le> last xs"
proof (induction xs)
  case (Cons a xs)
  show ?case
  proof (cases "xs = []")
    case True
    then show ?thesis using Cons.prems by simp
  next
    case False
    then have "a < last xs" using Cons.prems(1) by simp
    moreover have "x = a \<or> x \<le> last xs \<and> a < x" using Cons by auto
    ultimately show ?thesis using False by auto
  qed
qed simp

section \<open>Properties\<close>

text \<open>
  The alignment positions of every version from 2 to 40 are an ascending list of
  \<^verbatim>\<open>floor(version / 7) + 2\<close> even numbers from 6 to 7 before the far edge, with neighbours between
  12 and 28 modules apart, so the 5 by 5 patterns drawn at them never touch; version 1 has none.
\<close>
theorem alignment_positions_spread:
  assumes "1 \<le> ver" "ver \<le> 40"
  shows "let ps = getAlignmentPatternPositions ver (4 * ver + 17)
    in if ver = 1 then ps = []
       else int (length ps) = ver div 7 + 2 \<and> sorted_wrt (<) ps \<and> gaps_within 12 28 ps \<and>
            hd ps = 6 \<and> last ps = 4 * ver + 10 \<and> (\<forall>p \<in> set ps. even p \<and> 6 \<le> p \<and> p < 177)"
proof (cases "ver = 1")
  case True
  then show ?thesis by (simp add: getAlignmentPatternPositions_def)
next
  case False
  let ?ps = "getAlignmentPatternPositions ver (4 * ver + 17)"
  have "ver \<in> set (tl versions)" using assms False in_versions[of ver]
    by (auto simp: versions_def upt_conv_Cons)
  then have ok: "alignment_ok ver" using alignment_ok_all by (auto simp: list_all_iff)
  then have gaps: "gaps_within 12 28 ?ps" by (simp add: alignment_ok_def Let_def)
  note sorted = gaps_sorted[OF gaps]
  show ?thesis
    using False ok sorted sorted_ends[OF sorted] assms(2)
    by (fastforce simp: alignment_ok_def Let_def list_all_iff)
qed

theorem alignment_positions_spread_witness:
  "getAlignmentPatternPositions 7 45 = [6, 22, 38] \<and> sorted_wrt (<) [6, 22, 38 :: int]"
proof -
  have "getAlignmentPatternPositions 7 45 = [6, 22, 38]" by code_simp
  then show ?thesis using alignment_positions_spread[of 7] by simp
qed

text \<open>
  The capacity \<^verbatim>\<open>getNumDataCodewords\<close> reports is strictly larger for a higher version at the same
  level and strictly smaller for a higher level at the same version, and always between 9 and 2956.
\<close>
theorem capacity_monotone:
  assumes "getNumDataCodewords v a = Inr m" "getNumDataCodewords w b = Inr n" "v \<le> w" "b \<le> a" "(v, a) \<noteq> (w, b)"
  shows "m < n \<and> 9 \<le> m \<and> n \<le> 2956"
proof -
  have v: "1 \<le> v" "v \<le> 40" "m = data_codewords v a" and w: "1 \<le> w" "w \<le> 40" "n = data_codewords w b"
    using assms(1,2) by (auto simp: getNumDataCodewords_eq split: if_splits)
  have "m \<le> data_codewords v b"
    using data_codewords_level[OF v(1,2), of b a] v(3) assms(4) by (cases "b = a") (auto simp: order_le_less)
  moreover have "data_codewords v b \<le> n" using data_codewords_mono[OF v(1) assms(3) w(2), of b] w(3) by simp
  moreover have "m < data_codewords v b" if "b \<noteq> a"
    using data_codewords_level[OF v(1,2), of b a] v(3) assms(4) that by auto
  moreover have "data_codewords v b < n" if "v \<noteq> w"
    using data_codewords_version[of v b] data_codewords_mono[of "v + 1" w b] v w assms(3) that by force
  ultimately have "m < n" using assms(5) by force
  then show ?thesis using data_codewords_bounds[OF v(1,2), of a] data_codewords_bounds[OF w(1,2), of b] v w by simp
qed

theorem capacity_monotone_witness:
  "getNumDataCodewords 1 HIGH = Inr 9 \<and> getNumDataCodewords 2 LOW = Inr 34 \<and> (9 :: int) < 34"
proof -
  have c: "getNumDataCodewords 1 HIGH = Inr 9" "getNumDataCodewords 2 LOW = Inr 34" by code_simp+
  then show ?thesis using capacity_monotone[OF c] by (simp add: less_eq_ecc_def)
qed

end
