(* ===== verification/JsString.thy ===== *)
theory JsString
  imports Prelude
begin

text \<open>
  JavaScript strings as lists of 16-bit code units, and the string operations the frontend uses:
  \<^verbatim>\<open>trim\<close>, \<^verbatim>\<open>indexOf\<close> of one character, \<^verbatim>\<open>substr\<close>, \<^verbatim>\<open>parseInt\<close> in radix 10 and 16, and
  \<^verbatim>\<open>encodeURI\<close>. Literals of the source are written with \<^verbatim>\<open>lit\<close>.
\<close>

type_synonym jstr = "16 word list"

definition unit_of :: "char \<Rightarrow> 16 word" where
  "unit_of c = of_char c"

definition lit :: "string \<Rightarrow> jstr" where
  "lit s = map unit_of s"

lemma lit_simps [simp]: "lit [] = []" "lit (c # s) = unit_of c # lit s" "length (lit s) = length s"
  by (simp_all add: lit_def)

section \<open>Character classes\<close>

definition is_digit :: "16 word \<Rightarrow> bool" where
  "is_digit c \<longleftrightarrow> 48 \<le> c \<and> c \<le> 57"

definition is_upper :: "16 word \<Rightarrow> bool" where
  "is_upper c \<longleftrightarrow> 65 \<le> c \<and> c \<le> 90"

definition is_lower :: "16 word \<Rightarrow> bool" where
  "is_lower c \<longleftrightarrow> 97 \<le> c \<and> c \<le> 122"

text \<open>White space and line terminators of ECMAScript, which \<^verbatim>\<open>trim\<close> removes at both ends.\<close>

definition is_space :: "16 word \<Rightarrow> bool" where
  "is_space c \<longleftrightarrow> (9 \<le> c \<and> c \<le> 13) \<or> c = 32 \<or> c = 160 \<or> c = 0x1680 \<or> (0x2000 \<le> c \<and> c \<le> 0x200A)
     \<or> c = 0x2028 \<or> c = 0x2029 \<or> c = 0x202F \<or> c = 0x205F \<or> c = 0x3000 \<or> c = 0xFEFF"

definition trim :: "jstr \<Rightarrow> jstr" where
  "trim s = rev (dropWhile is_space (rev (dropWhile is_space s)))"

lemma trim_idem [simp]: "trim (trim s) = trim s"
proof -
  have "trim s = [] \<or> \<not> is_space (hd (trim s)) \<and> \<not> is_space (last (trim s))"
  proof (cases "trim s = []")
    case False
    let ?d = "dropWhile is_space s"
    have ne: "dropWhile is_space (rev ?d) \<noteq> []" using False by (simp add: trim_def)
    have last: "\<not> is_space (last (trim s))"
      using hd_dropWhile[OF ne] by (simp add: trim_def last_rev)
    obtain ws where ws: "?d = trim s @ ws"
      using takeWhile_dropWhile_id[of is_space "rev ?d"]
      by (metis rev_append rev_rev_ident trim_def)
    have "?d \<noteq> []" using ws False by simp
    then have "\<not> is_space (hd ?d)" by (rule hd_dropWhile)
    then show ?thesis using ws False last by simp
  qed simp
  then show ?thesis
    by (metis trim_def dropWhile_eq_self_iff hd_rev rev_is_Nil_conv rev_rev_ident)
qed

lemma length_trim_le: "length (trim s) \<le> length s"
  using length_dropWhile_le[of is_space "rev (dropWhile is_space s)"] length_dropWhile_le[of is_space s]
  by (simp add: trim_def)

section \<open>Searching and numbers\<close>

fun indexOf :: "jstr \<Rightarrow> 16 word \<Rightarrow> int" where
  "indexOf [] c = -1"
| "indexOf (x # xs) c = (if x = c then 0 else let i = indexOf xs c in if i = -1 then -1 else i + 1)"

definition substr :: "jstr \<Rightarrow> nat \<Rightarrow> nat \<Rightarrow> jstr" where
  "substr s i n = take n (drop i s)"

definition digit_val :: "16 word \<Rightarrow> int" where
  "digit_val c = uint c - 48"

definition hex_val :: "16 word \<Rightarrow> int option" where
  "hex_val c =
     (if is_digit c then Some (uint c - 48)
      else if 65 \<le> c \<and> c \<le> 70 then Some (uint c - 55)
      else if 97 \<le> c \<and> c \<le> 102 then Some (uint c - 87)
      else None)"

text \<open>\<^verbatim>\<open>parseInt(s, 10)\<close> where the caller has checked that all characters are digits.\<close>

definition parseInt10 :: "jstr \<Rightarrow> int" where
  "parseInt10 s = fold (\<lambda>c v. 10 * v + digit_val c) s 0"

text \<open>
  \<^verbatim>\<open>parseInt(s, 16)\<close> of at most two characters: the longest prefix of hexadecimal digits counts,
  and without a digit the result is \<^verbatim>\<open>NaN\<close>.
\<close>

fun parseInt16 :: "jstr \<Rightarrow> int option" where
  "parseInt16 (a # b # _) =
     (case hex_val a of None \<Rightarrow> None
      | Some x \<Rightarrow> (case hex_val b of None \<Rightarrow> Some x | Some y \<Rightarrow> Some (16 * x + y)))"
| "parseInt16 [a] = hex_val a"
| "parseInt16 [] = None"

lemma digit_val_bounds: "is_digit c \<Longrightarrow> 0 \<le> digit_val c \<and> digit_val c \<le> 9"
  by (simp add: is_digit_def digit_val_def word_le_def)

definition digit_char :: "int \<Rightarrow> 16 word" where
  "digit_char v = word_of_int (v + 48)"

lemma digit_char_val [simp]: "digit_char (digit_val c) = c"
  by (simp add: digit_char_def digit_val_def)

lemma indexOf_bounds: "c \<in> set xs \<Longrightarrow> 0 \<le> indexOf xs c \<and> indexOf xs c < int (length xs)"
  by (induction xs) (auto simp: Let_def)

lemma indexOf_missing: "c \<notin> set xs \<Longrightarrow> indexOf xs c = -1"
  by (induction xs) (auto simp: Let_def)

lemma nth_indexOf: "c \<in> set xs \<Longrightarrow> xs ! nat (indexOf xs c) = c"
proof (induction xs)
  case (Cons x xs)
  show ?case
  proof (cases "x = c")
    case False
    then have c: "c \<in> set xs" using Cons.prems by simp
    then have "0 \<le> indexOf xs c" using indexOf_bounds by blast
    then have "nat (indexOf xs c + 1) = Suc (nat (indexOf xs c))" "indexOf xs c \<noteq> -1" by simp_all
    then show ?thesis using False c Cons.IH by (simp add: Let_def)
  qed simp
qed simp

section \<open>\<^verbatim>\<open>encodeURI\<close>\<close>

text \<open>
  The standard's algorithm: the unreserved characters and those of the URI syntax stay, every
  other code point becomes the percent escapes of its UTF-8 bytes, and a lone surrogate throws.
\<close>

definition uri_marks :: jstr where
  "uri_marks = lit '';/?:@&=+$,-_.!~*()#'' @ [39]"

definition uri_unescaped :: "16 word \<Rightarrow> bool" where
  "uri_unescaped c \<longleftrightarrow> is_digit c \<or> is_upper c \<or> is_lower c \<or> c \<in> set uri_marks"

definition is_high :: "16 word \<Rightarrow> bool" where "is_high c \<longleftrightarrow> 0xD800 \<le> c \<and> c \<le> 0xDBFF"
definition is_low :: "16 word \<Rightarrow> bool" where "is_low c \<longleftrightarrow> 0xDC00 \<le> c \<and> c \<le> 0xDFFF"

definition code_point :: "16 word \<Rightarrow> 16 word \<Rightarrow> int" where
  "code_point h l = (uint h - 0xD800) * 0x400 + (uint l - 0xDC00) + 0x10000"

definition utf8 :: "int \<Rightarrow> int list" where
  "utf8 cp =
     (if cp < 0x80 then [cp]
      else if cp < 0x800 then [0xC0 + cp div 0x40, 0x80 + cp mod 0x40]
      else if cp < 0x10000 then [0xE0 + cp div 0x1000, 0x80 + cp div 0x40 mod 0x40, 0x80 + cp mod 0x40]
      else [0xF0 + cp div 0x40000, 0x80 + cp div 0x1000 mod 0x40, 0x80 + cp div 0x40 mod 0x40,
            0x80 + cp mod 0x40])"

definition hex_digit :: "int \<Rightarrow> 16 word" where
  "hex_digit v = word_of_int (if v < 10 then v + 48 else v + 55)"

definition escape :: "int list \<Rightarrow> jstr" where
  "escape bs = concat (map (\<lambda>b. [37, hex_digit (b div 16), hex_digit (b mod 16)]) bs)"

fun encodeURI :: "jstr \<Rightarrow> jstr js" where
  "encodeURI [] = Inr []"
| "encodeURI (c # cs) =
     (if uri_unescaped c then bindE (encodeURI cs) (\<lambda>r. Inr (c # r))
      else if is_low c then Inl URIError
      else if \<not> is_high c then bindE (encodeURI cs) (\<lambda>r. Inr (escape (utf8 (uint c)) @ r))
      else case cs of
             [] \<Rightarrow> Inl URIError
           | d # ds \<Rightarrow> if is_low d
                      then bindE (encodeURI ds) (\<lambda>r. Inr (escape (utf8 (code_point c d)) @ r))
                      else Inl URIError)"

text \<open>The code points of a string; \<^verbatim>\<open>None\<close> if a surrogate is unpaired.\<close>

fun code_points :: "jstr \<Rightarrow> int list option" where
  "code_points [] = Some []"
| "code_points (c # cs) =
     (if is_low c then None
      else if \<not> is_high c then map_option ((#) (uint c)) (code_points cs)
      else case cs of
             [] \<Rightarrow> None
           | d # ds \<Rightarrow> if is_low d then map_option ((#) (code_point c d)) (code_points ds) else None)"

lemma hex_digit_val: "0 \<le> v \<Longrightarrow> v < 16 \<Longrightarrow> hex_val (hex_digit v) = Some v"
proof -
  assume v: "0 \<le> v" "v < 16"
  have "v \<in> set (map int [0..<16])" using v by (auto simp: image_iff intro!: bexI[of _ "nat v"])
  moreover have "list_all (\<lambda>v. hex_val (hex_digit v) = Some v) (map int [0..<16])" by code_simp
  ultimately show ?thesis by (simp only: list_all_iff)
qed

lemma parseInt16_byte:
  "0 \<le> b \<Longrightarrow> b < 256 \<Longrightarrow> parseInt16 [hex_digit (b div 16), hex_digit (b mod 16)] = Some b"
  by (simp add: hex_digit_val)

lemma utf8_bytes: "0 \<le> cp \<Longrightarrow> cp < 0x110000 \<Longrightarrow> b \<in> set (utf8 cp) \<Longrightarrow> 0 \<le> b \<and> b < 256"
  by (auto simp: utf8_def split: if_splits)

lemma code_point_bounds: "is_high h \<Longrightarrow> is_low l \<Longrightarrow> 0x10000 \<le> code_point h l \<and> code_point h l < 0x110000"
  by (simp add: is_high_def is_low_def code_point_def word_le_def)

lemma uint_16: "uint (c :: 16 word) < 65536"
  using uint_lt2p[of c] by simp

lemma code_points_bounds: "code_points s = Some cps \<Longrightarrow> cp \<in> set cps \<Longrightarrow> 0 \<le> cp \<and> cp < 0x110000"
proof (induction s arbitrary: cps rule: code_points.induct)
  case (2 c cs)
  have u: "0 \<le> uint c" "uint c < 0x110000" using uint_16[of c] by auto
  show ?case
  proof (cases "is_high c")
    case True
    then obtain d ds cps' where "cs = d # ds" "is_low d" "code_points ds = Some cps'"
      "cps = code_point c d # cps'"
      using "2.prems" by (auto split: if_splits list.splits)
    then show ?thesis
      using "2.IH"(2) "2.prems" True code_point_bounds[OF True, of d] by (auto split: if_splits)
  next
    case False
    then show ?thesis using 2 u by (auto split: if_splits)
  qed
qed simp

end
