(* ===== verification/Segments.thy ===== *)
theory Segments
  imports Bits QrTables JsString
begin

text \<open>
  \<^verbatim>\<open>qrcodegen.QrSegment\<close> of \<^verbatim>\<open>frontend/js/qrcodegen.js\<close>: the factory functions that turn digits,
  alphanumeric text, bytes and text into segments, \<^verbatim>\<open>getTotalBits\<close> and \<^verbatim>\<open>toUtf8ByteArray\<close>.

  A reader's side is defined for each of the three text modes (\<^verbatim>\<open>numeric_decode\<close>,
  \<^verbatim>\<open>alnum_decode\<close>, \<^verbatim>\<open>byte_decode\<close>); the locale \<^verbatim>\<open>segment_codec\<close> states what the encoder and the
  decoder of a mode owe each other, and each mode is an interpretation.
\<close>

section \<open>The code\<close>

record segment =
  seg_mode :: mode
  numChars :: int
  bitData :: bits

definition new_QrSegment :: "mode \<Rightarrow> int \<Rightarrow> bits \<Rightarrow> segment js" where
  "new_QrSegment m n bb =
     (if n < 0 then Inl (RangeError ''Invalid argument'')
      else Inr \<lparr>seg_mode = m, numChars = n, bitData = bb\<rparr>)"

definition getData :: "segment \<Rightarrow> bits" where
  "getData seg = bitData seg"

definition NUMERIC_REGEX :: "jstr \<Rightarrow> bool" where
  "NUMERIC_REGEX text \<longleftrightarrow> list_all is_digit text"

definition isNumeric :: "jstr \<Rightarrow> bool" where
  "isNumeric text \<longleftrightarrow> NUMERIC_REGEX text"

definition ALPHANUMERIC_REGEX :: "jstr \<Rightarrow> bool" where
  "ALPHANUMERIC_REGEX text \<longleftrightarrow>
     list_all (\<lambda>c. is_upper c \<or> is_digit c \<or> c \<in> set (lit '' $%*+./:-'')) text"

definition isAlphanumeric :: "jstr \<Rightarrow> bool" where
  "isAlphanumeric text \<longleftrightarrow> ALPHANUMERIC_REGEX text"

lemma isNumeric_iff: "isNumeric text \<longleftrightarrow> list_all is_digit text"
  by (simp add: isNumeric_def NUMERIC_REGEX_def)

lemma isAlphanumeric_iff:
  "isAlphanumeric text \<longleftrightarrow> list_all (\<lambda>c. is_upper c \<or> is_digit c \<or> c \<in> set (lit '' $%*+./:-'')) text"
  by (simp add: isAlphanumeric_def ALPHANUMERIC_REGEX_def)

definition ALPHANUMERIC_CHARSET :: jstr where
  "ALPHANUMERIC_CHARSET = lit ''0123456789ABCDEFGHIJKLMNOPQRSTUVWXYZ $%*+-./:''"

definition makeBytes :: "int list \<Rightarrow> segment js" where
  "makeBytes data =
     bindE (foldE (\<lambda>b bb. appendBits b 8 bb) data [])
       (\<lambda>bb. new_QrSegment BYTE (int (length data)) bb)"

function numeric_loop :: "jstr \<Rightarrow> nat \<Rightarrow> bits \<Rightarrow> bits js" where
  "numeric_loop digits i bb =
     (if i < length digits
      then let n = min (length digits - i) 3
           in bindE (appendBits (parseInt10 (substr digits i n)) (int (n * 3 + 1)) bb)
                (numeric_loop digits (i + n))
      else Inr bb)"
  by pat_completeness auto
termination
  by (relation "measure (\<lambda>(ds, i, _). length ds - i)") auto

declare numeric_loop.simps [simp del]

definition makeNumeric :: "jstr \<Rightarrow> segment js" where
  "makeNumeric digits =
     (if \<not> isNumeric digits then Inl (RangeError ''String contains non-numeric characters'')
      else bindE (numeric_loop digits 0 []) (\<lambda>bb. new_QrSegment NUMERIC (int (length digits)) bb))"

text \<open>The loop returns its counter too: the code reads it after the loop for the last character.\<close>

function alnum_loop :: "jstr \<Rightarrow> nat \<Rightarrow> bits \<Rightarrow> (nat \<times> bits) js" where
  "alnum_loop text i bb =
     (if i + 2 \<le> length text
      then let temp = indexOf ALPHANUMERIC_CHARSET (text ! i) * 45;
               temp = temp + indexOf ALPHANUMERIC_CHARSET (text ! (i + 1))
           in bindE (appendBits temp 11 bb) (alnum_loop text (i + 2))
      else Inr (i, bb))"
  by pat_completeness auto
termination
  by (relation "measure (\<lambda>(t, i, _). length t - i)") auto

declare alnum_loop.simps [simp del]

definition makeAlphanumeric :: "jstr \<Rightarrow> segment js" where
  "makeAlphanumeric text =
     (if \<not> isAlphanumeric text
      then Inl (RangeError ''String contains unencodable characters in alphanumeric mode'')
      else bindE (alnum_loop text 0 []) (\<lambda>(i, bb).
           bindE (if i < length text
                  then appendBits (indexOf ALPHANUMERIC_CHARSET (text ! i)) 6 bb
                  else Inr bb) (\<lambda>bb.
           new_QrSegment ALPHANUMERIC (int (length text)) bb)))"

text \<open>The decoding loop over the escaped string; \<^verbatim>\<open>%\<close> is code unit 37.\<close>

fun utf8_loop :: "jstr \<Rightarrow> int list js" where
  "utf8_loop [] = Inr []"
| "utf8_loop (c # cs) =
     (if c \<noteq> 37 then bindE (utf8_loop cs) (\<lambda>r. Inr (uint c # r))
      else case parseInt16 (substr cs 0 2) of
             None \<Rightarrow> Inl Undefined
           | Some v \<Rightarrow> bindE (utf8_loop (drop 2 cs)) (\<lambda>r. Inr (v # r)))"

definition toUtf8ByteArray :: "jstr \<Rightarrow> int list js" where
  "toUtf8ByteArray str = bindE (encodeURI str) utf8_loop"

definition makeSegments :: "jstr \<Rightarrow> segment list js" where
  "makeSegments text =
     (if text = [] then Inr []
      else if isNumeric text then bindE (makeNumeric text) (\<lambda>s. Inr [s])
      else if isAlphanumeric text then bindE (makeAlphanumeric text) (\<lambda>s. Inr [s])
      else bindE (toUtf8ByteArray text) (\<lambda>bs. bindE (makeBytes bs) (\<lambda>s. Inr [s])))"

definition makeEci :: "int \<Rightarrow> segment js" where
  "makeEci assignVal =
     bindE (if assignVal < 0 then Inl (RangeError ''ECI assignment value out of range'')
            else if assignVal < js_shl 1 7 then appendBits assignVal 8 []
            else if assignVal < js_shl 1 14
            then bindE (appendBits 2 2 []) (appendBits assignVal 14)
            else if assignVal < 1000000
            then bindE (appendBits 6 3 []) (appendBits assignVal 21)
            else Inl (RangeError ''ECI assignment value out of range''))
       (\<lambda>bb. new_QrSegment ECI 0 bb)"

text \<open>\<^verbatim>\<open>None\<close> stands for the result \<^verbatim>\<open>Infinity\<close>.\<close>

fun total_loop :: "segment list \<Rightarrow> int \<Rightarrow> int \<Rightarrow> int option" where
  "total_loop [] version result = Some result"
| "total_loop (seg # segs) version result =
     (let ccbits = numCharCountBits (seg_mode seg) version
      in if numChars seg \<ge> js_shl 1 ccbits then None
         else total_loop segs version (result + (4 + ccbits + int (length (bitData seg)))))"

definition getTotalBits :: "segment list \<Rightarrow> int \<Rightarrow> int option" where
  "getTotalBits segs version = total_loop segs version 0"

section \<open>Numeric mode\<close>

fun numeric_bits :: "jstr \<Rightarrow> bits" where
  "numeric_bits (a # b # c # cs) =
     bits_of 10 (100 * digit_val a + 10 * digit_val b + digit_val c) @ numeric_bits cs"
| "numeric_bits [a, b] = bits_of 7 (10 * digit_val a + digit_val b)"
| "numeric_bits [a] = bits_of 4 (digit_val a)"
| "numeric_bits [] = []"

lemma is_bits_numeric_bits [simp]: "is_bits (numeric_bits ds)"
  by (induction ds rule: numeric_bits.induct) auto

lemma appendBits_numeral:
  assumes "0 \<le> val" "val < 2 ^ n" "n \<le> 31" "len = int n"
  shows "appendBits val len bb = Inr (bb @ bits_of n val)"
  using appendBits_ok[OF assms(1-3)] assms(4) by simp

lemma numeric_chunk:
  assumes "list_all is_digit ds" "ds \<noteq> []" "n = min (length ds) 3"
  shows "appendBits (parseInt10 (take n ds)) (int (n * 3 + 1)) bb
           = Inr (bb @ bits_of (n * 3 + 1) (parseInt10 (take n ds)))"
    and "numeric_bits ds = bits_of (n * 3 + 1) (parseInt10 (take n ds)) @ numeric_bits (drop n ds)"
proof -
  have dig: "0 \<le> digit_val c \<and> digit_val c \<le> 9" if "c \<in> set ds" for c
    using assms(1) that digit_val_bounds by (auto simp: list_all_iff)
  have "0 \<le> parseInt10 (take n ds) \<and> parseInt10 (take n ds) < 2 ^ (n * 3 + 1) \<and> n * 3 + 1 \<le> 31 \<and>
     numeric_bits ds = bits_of (n * 3 + 1) (parseInt10 (take n ds)) @ numeric_bits (drop n ds)"
  proof (cases ds rule: numeric_bits.cases)
    case (1 a b c cs)
    then show ?thesis using dig[of a] dig[of b] dig[of c] assms(3)
      by (simp add: parseInt10_def algebra_simps)
  next
    case (2 a b)
    then show ?thesis using dig[of a] dig[of b] assms(3) by (simp add: parseInt10_def)
  next
    case (3 a)
    then show ?thesis using dig[of a] assms(3) by (simp add: parseInt10_def)
  qed (use assms in simp)
  then show "numeric_bits ds = bits_of (n * 3 + 1) (parseInt10 (take n ds)) @ numeric_bits (drop n ds)"
    and "appendBits (parseInt10 (take n ds)) (int (n * 3 + 1)) bb
           = Inr (bb @ bits_of (n * 3 + 1) (parseInt10 (take n ds)))"
    by (auto intro!: appendBits_numeral)
qed

lemma numeric_loop_bits:
  "isNumeric digits \<Longrightarrow> numeric_loop digits i bb = Inr (bb @ numeric_bits (drop i digits))"
proof (induction digits i bb rule: numeric_loop.induct)
  case (1 digits i bb)
  show ?case
  proof (cases "i < length digits")
    case True
    let ?n = "min (length digits - i) 3" and ?ds = "drop i digits"
    have ds: "list_all is_digit ?ds" "?ds \<noteq> []" "?n = min (length ?ds) 3"
      using "1.prems" True by (auto simp: isNumeric_iff list_all_iff dest: in_set_dropD)
    have IH: "numeric_loop digits (i + ?n) bb' = Inr (bb' @ numeric_bits (drop ?n ?ds))"
      if "appendBits (parseInt10 (substr digits i ?n)) (int (?n * 3 + 1)) bb = Inr bb'" for bb'
      using "1.IH"[OF True refl that "1.prems"] by (simp add: add.commute)
    show ?thesis
      using numeric_chunk(1)[OF ds, of bb] numeric_chunk(2)[OF ds] IH True
      by (subst numeric_loop.simps) (simp add: Let_def substr_def)
  next
    case False
    then show ?thesis by (subst numeric_loop.simps) simp
  qed
qed

text \<open>A reader of numeric mode: three digits from ten bits, two from seven, one from four.\<close>

definition read_num :: "nat \<Rightarrow> bits \<Rightarrow> (int \<times> bits) option" where
  "read_num n bs = (if length bs < n then None else Some (bits_val (take n bs), drop n bs))"

fun numeric_decode :: "nat \<Rightarrow> bits \<Rightarrow> (jstr \<times> bits) option" where
  "numeric_decode (Suc (Suc (Suc n))) bs =
     (case read_num 10 bs of None \<Rightarrow> None
      | Some (v, bs) \<Rightarrow> (case numeric_decode n bs of None \<Rightarrow> None
         | Some (ds, rest) \<Rightarrow>
             Some (digit_char (v div 100) # digit_char (v div 10 mod 10) # digit_char (v mod 10) # ds, rest)))"
| "numeric_decode (Suc (Suc 0)) bs =
     (case read_num 7 bs of None \<Rightarrow> None
      | Some (v, bs) \<Rightarrow> Some ([digit_char (v div 10), digit_char (v mod 10)], bs))"
| "numeric_decode (Suc 0) bs =
     (case read_num 4 bs of None \<Rightarrow> None | Some (v, bs) \<Rightarrow> Some ([digit_char v], bs))"
| "numeric_decode 0 bs = Some ([], bs)"

lemma read_num_bits_of: "0 \<le> v \<Longrightarrow> v < 2 ^ n \<Longrightarrow> read_num n (bits_of n v @ rest) = Some (v, rest)"
  by (simp add: read_num_def bits_val_bits_of_id)

lemma quotient_unique: "0 \<le> r \<Longrightarrow> r < b \<Longrightarrow> (b * q + r) div b = (q :: int) \<and> (b * q + r) mod b = r"
  by simp

lemma three_digits:
  assumes "0 \<le> x" "x \<le> (9 :: int)" "0 \<le> y" "y \<le> 9" "0 \<le> z" "z \<le> 9"
  shows "(100 * x + 10 * y + z) div 100 = x \<and> (100 * x + 10 * y + z) div 10 mod 10 = y
    \<and> (100 * x + 10 * y + z) mod 10 = z"
proof -
  have e1: "100 * x + 10 * y + z = 100 * x + (10 * y + z)" and e2: "100 * x + 10 * y + z = 10 * (10 * x + y) + z"
    by simp_all
  have q1: "(100 * x + (10 * y + z)) div 100 = x"
    by (rule quotient_unique [THEN conjunct1]) (use assms in auto)
  have q2: "(10 * (10 * x + y) + z) div 10 = 10 * x + y \<and> (10 * (10 * x + y) + z) mod 10 = z"
    by (rule quotient_unique) (use assms in auto)
  have q3: "(10 * x + y) mod 10 = y"
    by (rule quotient_unique [THEN conjunct2]) (use assms in auto)
  show ?thesis
    using q1 q2 q3 unfolding e1 [symmetric] e2 [symmetric] by simp
qed

lemma numeric_decode_bits:
  "isNumeric ds \<Longrightarrow> numeric_decode (length ds) (numeric_bits ds @ rest) = Some (ds, rest)"
proof (induction ds rule: numeric_bits.induct)
  case (1 a b c cs)
  then have d: "0 \<le> digit_val a" "digit_val a \<le> 9" "0 \<le> digit_val b" "digit_val b \<le> 9"
    "0 \<le> digit_val c" "digit_val c \<le> 9"
    using digit_val_bounds by (auto simp: isNumeric_iff)
  let ?v = "100 * digit_val a + 10 * digit_val b + digit_val c"
  have v: "?v div 100 = digit_val a" "?v div 10 mod 10 = digit_val b" "?v mod 10 = digit_val c"
    "0 \<le> ?v" "?v < 2 ^ 10"
    using three_digits[OF d] d by auto
  have "numeric_decode (length cs) (numeric_bits cs @ rest) = Some (cs, rest)"
    using 1 by (simp add: isNumeric_iff)
  moreover have "read_num 10 (bits_of 10 ?v @ numeric_bits cs @ rest) = Some (?v, numeric_bits cs @ rest)"
    by (rule read_num_bits_of [OF v(4,5)])
  ultimately show ?case by (simp add: v(1-3))
next
  case (2 a b)
  then have d: "0 \<le> digit_val a" "digit_val a \<le> 9" "0 \<le> digit_val b" "digit_val b \<le> 9"
    using digit_val_bounds by (auto simp: isNumeric_iff)
  let ?v = "10 * digit_val a + digit_val b"
  have v: "?v div 10 = digit_val a" "?v mod 10 = digit_val b" "0 \<le> ?v" "?v < 2 ^ 7"
    using d quotient_unique[of "digit_val b" 10 "digit_val a"] by auto
  then show ?case by (simp add: read_num_bits_of numeral_2_eq_2)
next
  case (3 a)
  then show ?case using digit_val_bounds[of a] by (simp add: isNumeric_iff read_num_bits_of)
qed simp

section \<open>Alphanumeric mode\<close>

abbreviation alnum_index :: "16 word \<Rightarrow> int" where
  "alnum_index \<equiv> indexOf ALPHANUMERIC_CHARSET"

fun alnum_bits :: "jstr \<Rightarrow> bits" where
  "alnum_bits (a # b # cs) = bits_of 11 (alnum_index a * 45 + alnum_index b) @ alnum_bits cs"
| "alnum_bits [a] = bits_of 6 (alnum_index a)"
| "alnum_bits [] = []"

definition alnum_char :: "int \<Rightarrow> 16 word" where
  "alnum_char v = ALPHANUMERIC_CHARSET ! nat v"

fun alnum_decode :: "nat \<Rightarrow> bits \<Rightarrow> (jstr \<times> bits) option" where
  "alnum_decode (Suc (Suc n)) bs =
     (case read_num 11 bs of None \<Rightarrow> None
      | Some (v, bs) \<Rightarrow> (case alnum_decode n bs of None \<Rightarrow> None
         | Some (cs, rest) \<Rightarrow> Some (alnum_char (v div 45) # alnum_char (v mod 45) # cs, rest)))"
| "alnum_decode (Suc 0) bs =
     (case read_num 6 bs of None \<Rightarrow> None | Some (v, bs) \<Rightarrow> Some ([alnum_char v], bs))"
| "alnum_decode 0 bs = Some ([], bs)"

lemma length_CHARSET: "length ALPHANUMERIC_CHARSET = 45"
  by (simp add: ALPHANUMERIC_CHARSET_def)

lemma word_range_list:
  fixes c :: "16 word"
  assumes "word_of_nat a \<le> c" "c \<le> word_of_nat b" "a < 65536" "b < 65536"
  shows "c \<in> set (map word_of_nat [a..<Suc b])"
proof -
  have "a \<le> unat c" "unat c \<le> b"
    using assms by (simp_all add: word_le_nat_alt unat_of_nat)
  then have "unat c \<in> set [a..<Suc b]" by (simp add: less_Suc_eq_le del: upt_Suc)
  moreover have "c = word_of_nat (unat c)" by simp
  ultimately show ?thesis unfolding set_map by (rule rev_image_eqI)
qed

text \<open>The regular expression accepts exactly the characters of the charset string.\<close>

lemma alnum_class_charset:
  "is_upper c \<or> is_digit c \<or> c \<in> set (lit '' $%*+./:-'') \<longleftrightarrow> c \<in> set ALPHANUMERIC_CHARSET"
proof
  assume "is_upper c \<or> is_digit c \<or> c \<in> set (lit '' $%*+./:-'')"
  then have "c \<in> set (map word_of_nat [65..<Suc 90]) \<or> c \<in> set (map word_of_nat [48..<Suc 57])
      \<or> c \<in> set (lit '' $%*+./:-'')"
    using word_range_list[of 65 c 90] word_range_list[of 48 c 57]
    by (auto simp: is_upper_def is_digit_def simp del: upt_Suc)
  moreover have "list_all (\<lambda>c. c \<in> set ALPHANUMERIC_CHARSET)
      (map word_of_nat [65..<Suc 90] @ map word_of_nat [48..<Suc 57] @ lit '' $%*+./:-'')"
    by code_simp
  ultimately show "c \<in> set ALPHANUMERIC_CHARSET" unfolding list_all_iff set_append by blast
next
  assume c: "c \<in> set ALPHANUMERIC_CHARSET"
  have "list_all (\<lambda>c. is_upper c \<or> is_digit c \<or> c \<in> set (lit '' $%*+./:-'')) ALPHANUMERIC_CHARSET"
    by code_simp
  then show "is_upper c \<or> is_digit c \<or> c \<in> set (lit '' $%*+./:-'')"
    using c unfolding list_all_iff by blast
qed

lemma isAlphanumeric_charset: "isAlphanumeric text \<longleftrightarrow> list_all (\<lambda>c. c \<in> set ALPHANUMERIC_CHARSET) text"
  by (simp only: isAlphanumeric_iff alnum_class_charset)

lemma alnum_index_bounds: "c \<in> set ALPHANUMERIC_CHARSET \<Longrightarrow> 0 \<le> alnum_index c \<and> alnum_index c \<le> 44"
  using indexOf_bounds[of c ALPHANUMERIC_CHARSET] by (simp add: length_CHARSET)

lemma alnum_char_index: "c \<in> set ALPHANUMERIC_CHARSET \<Longrightarrow> alnum_char (alnum_index c) = c"
  by (simp add: alnum_char_def nth_indexOf)

lemma is_bits_alnum_bits [simp]: "is_bits (alnum_bits ds)"
  by (induction ds rule: alnum_bits.induct) auto

lemma alnum_loop_bits:
  assumes "isAlphanumeric str" "i \<le> length str"
  shows "bindE (alnum_loop str i bb) (\<lambda>(i, bb).
           if i < length str then appendBits (alnum_index (str ! i)) 6 bb else Inr bb)
         = Inr (bb @ alnum_bits (drop i str))"
  using assms
proof (induction str i bb rule: alnum_loop.induct)
  case (1 str i bb)
  have ix: "0 \<le> alnum_index (str ! j) \<and> alnum_index (str ! j) \<le> 44" if "j < length str" for j
    using "1.prems"(1) that alnum_index_bounds
    by (simp add: isAlphanumeric_charset list_all_length)
  show ?case
  proof (cases "i + 2 \<le> length str")
    case True
    let ?v = "alnum_index (str ! i) * 45 + alnum_index (str ! (i + 1))"
    have app: "appendBits ?v 11 bb = Inr (bb @ bits_of 11 ?v)"
      using ix[of i] ix[of "i + 1"] True by (intro appendBits_numeral) auto
    have "drop i str = str ! i # str ! (i + 1) # drop (i + 2) str"
      using True by (simp add: Cons_nth_drop_Suc)
    then show ?thesis
      using "1.IH"[OF True refl refl app "1.prems"(1)] True
      by (subst alnum_loop.simps) (simp add: Let_def app [simplified])
  next
    case False
    then consider "i = length str" | "i + 1 = length str" using "1.prems"(2) by linarith
    then show ?thesis
    proof cases
      case 1
      then show ?thesis by (subst alnum_loop.simps) simp
    next
      case 2
      then have "drop i str = [str ! i]"
        by (metis Cons_nth_drop_Suc Suc_eq_plus1 drop_eq_Nil lessI order_refl)
      moreover have "appendBits (alnum_index (str ! i)) 6 bb = Inr (bb @ bits_of 6 (alnum_index (str ! i)))"
        using ix[of i] 2 by (intro appendBits_numeral) auto
      ultimately show ?thesis using 2 by (subst alnum_loop.simps) simp
    qed
  qed
qed

lemma alnum_decode_bits:
  "isAlphanumeric cs \<Longrightarrow> alnum_decode (length cs) (alnum_bits cs @ rest) = Some (cs, rest)"
proof (induction cs rule: alnum_bits.induct)
  case (1 a b cs)
  then have c: "a \<in> set ALPHANUMERIC_CHARSET" "b \<in> set ALPHANUMERIC_CHARSET" "isAlphanumeric cs"
    by (auto simp: isAlphanumeric_charset)
  let ?v = "alnum_index a * 45 + alnum_index b"
  have v: "0 \<le> ?v" "?v < 2 ^ 11" "?v div 45 = alnum_index a" "?v mod 45 = alnum_index b"
    using alnum_index_bounds[OF c(1)] alnum_index_bounds[OF c(2)]
      quotient_unique[of "alnum_index b" 45 "alnum_index a"] by (auto simp: mult.commute)
  have "alnum_decode (length cs) (alnum_bits cs @ rest) = Some (cs, rest)" using 1 c(3) by simp
  then show ?case using read_num_bits_of[OF v(1,2)] alnum_char_index[OF c(1)] alnum_char_index[OF c(2)] v(3,4)
    by (simp del: mod_mult_self3 mod_mult_self4)
next
  case (2 a)
  then have c: "a \<in> set ALPHANUMERIC_CHARSET" by (simp add: isAlphanumeric_charset)
  then show ?case using alnum_index_bounds[OF c] by (simp add: read_num_bits_of alnum_char_index)
qed simp

section \<open>Byte mode\<close>

fun byte_decode :: "nat \<Rightarrow> bits \<Rightarrow> (int list \<times> bits) option" where
  "byte_decode (Suc n) bs =
     (case read_num 8 bs of None \<Rightarrow> None
      | Some (v, bs) \<Rightarrow> (case byte_decode n bs of None \<Rightarrow> None
         | Some (ws, rest) \<Rightarrow> Some (v # ws, rest)))"
| "byte_decode 0 bs = Some ([], bs)"

definition byte_valid :: "int \<Rightarrow> bool" where
  "byte_valid b \<longleftrightarrow> 0 \<le> b \<and> b < 256"

lemma bytes_bits_simps [simp]: "bytes_bits [] = []" "bytes_bits (w # ws) = bits_of 8 w @ bytes_bits ws"
  by (simp_all add: bytes_bits_def)

lemma is_bits_bytes_bits [simp]: "is_bits (bytes_bits ws)"
  by (induction ws) auto

lemma byte_decode_bits:
  "list_all byte_valid ws \<Longrightarrow> byte_decode (length ws) (bytes_bits ws @ rest) = Some (ws, rest)"
  by (induction ws) (auto simp: byte_valid_def read_num_bits_of)

lemma byte_loop_bits:
  "list_all byte_valid ws \<Longrightarrow> foldE (\<lambda>b bb. appendBits b 8 bb) ws bb = Inr (bb @ bytes_bits ws)"
  by (induction ws arbitrary: bb) (auto simp: byte_valid_def appendBits_numeral[where n = 8])

section \<open>The contract between the writer and the reader of a mode\<close>

locale segment_codec =
  fixes enc :: "'a list \<Rightarrow> bits"
    and dec :: "nat \<Rightarrow> bits \<Rightarrow> ('a list \<times> bits) option"
    and valid :: "'a list \<Rightarrow> bool"
  assumes dec_enc: "valid xs \<Longrightarrow> dec (length xs) (enc xs @ rest) = Some (xs, rest)"
    and enc_bits: "is_bits (enc xs)"
begin

text \<open>
  The encoding of a known number of characters is self-delimiting, so what follows a segment in
  the bit stream can always be told apart from it.
\<close>

lemma prefix_free:
  assumes "valid xs" "valid ys" "length xs = length ys" "enc xs @ r = enc ys @ s"
  shows "xs = ys \<and> r = s"
proof -
  have "Some (xs, r) = dec (length xs) (enc xs @ r)" by (rule dec_enc [OF assms(1), symmetric])
  also have "\<dots> = Some (ys, s)" unfolding assms(3,4) by (rule dec_enc [OF assms(2)])
  finally show ?thesis by simp
qed

lemma enc_inj: "valid xs \<Longrightarrow> valid ys \<Longrightarrow> length xs = length ys \<Longrightarrow> enc xs = enc ys \<Longrightarrow> xs = ys"
  by (rule prefix_free [of xs ys "[]" "[]", THEN conjunct1]) simp_all

end

interpretation num: segment_codec numeric_bits numeric_decode isNumeric
  by unfold_locales (simp_all add: numeric_decode_bits)

interpretation alnum: segment_codec alnum_bits alnum_decode isAlphanumeric
  by unfold_locales (simp_all add: alnum_decode_bits)

interpretation byt: segment_codec bytes_bits byte_decode "list_all byte_valid"
  by unfold_locales (simp_all add: byte_decode_bits)

section \<open>UTF-8\<close>

text \<open>The reader's side: bytes to code points, and code points to the code units of a string.\<close>

fun utf8_decode :: "int list \<Rightarrow> int list option" where
  "utf8_decode [] = Some []"
| "utf8_decode (b # bs) =
     (if b < 0x80 then map_option ((#) b) (utf8_decode bs)
      else if b < 0xE0
      then (case bs of c # r \<Rightarrow> map_option ((#) ((b - 0xC0) * 0x40 + (c - 0x80))) (utf8_decode r)
            | _ \<Rightarrow> None)
      else if b < 0xF0
      then (case bs of c # d # r \<Rightarrow>
              map_option ((#) ((b - 0xE0) * 0x1000 + (c - 0x80) * 0x40 + (d - 0x80))) (utf8_decode r)
            | _ \<Rightarrow> None)
      else (case bs of c # d # e # r \<Rightarrow>
              map_option ((#) ((b - 0xF0) * 0x40000 + (c - 0x80) * 0x1000 + (d - 0x80) * 0x40 + (e - 0x80)))
                (utf8_decode r)
            | _ \<Rightarrow> None))"

definition units_of :: "int \<Rightarrow> jstr" where
  "units_of cp =
     (if cp < 0x10000 then [word_of_int cp]
      else [word_of_int (0xD800 + (cp - 0x10000) div 0x400), word_of_int (0xDC00 + (cp - 0x10000) mod 0x400)])"

definition text_of_utf8 :: "int list \<Rightarrow> jstr option" where
  "text_of_utf8 bs = map_option (\<lambda>cps. concat (map units_of cps)) (utf8_decode bs)"

lemma shift_parts:
  fixes cp :: int
  shows "cp div 0x40 * 0x40 + cp mod 0x40 = cp"
    "cp div 0x1000 * 0x1000 + cp div 0x40 mod 0x40 * 0x40 + cp mod 0x40 = cp"
    "cp div 0x40000 * 0x40000 + cp div 0x1000 mod 0x40 * 0x1000 + cp div 0x40 mod 0x40 * 0x40 + cp mod 0x40 = cp"
proof -
  have e1: "cp div 0x40 * 0x40 + cp mod 0x40 = cp" for cp :: int by simp
  have d: "cp div 0x40 div 0x40 = cp div 0x1000" "cp div 0x1000 div 0x40 = cp div 0x40000"
    by (simp_all flip: zdiv_zmult2_eq)
  have e2: "cp div 0x1000 * 0x40 + cp div 0x40 mod 0x40 = cp div 0x40"
    using e1[of "cp div 0x40"] d(1) by simp
  have e3: "cp div 0x40000 * 0x40 + cp div 0x1000 mod 0x40 = cp div 0x1000"
    using e1[of "cp div 0x1000"] d(2) by simp
  show "cp div 0x40 * 0x40 + cp mod 0x40 = cp" by (rule e1)
  show "cp div 0x1000 * 0x1000 + cp div 0x40 mod 0x40 * 0x40 + cp mod 0x40 = cp"
    using e1[of cp] e2 by linarith
  show "cp div 0x40000 * 0x40000 + cp div 0x1000 mod 0x40 * 0x1000 + cp div 0x40 mod 0x40 * 0x40 + cp mod 0x40 = cp"
    using e1[of cp] e2 e3 by linarith
qed

lemma utf8_decode_utf8:
  assumes "0 \<le> cp" "cp < 0x110000"
  shows "utf8_decode (utf8 cp @ bs) = map_option ((#) cp) (utf8_decode bs)"
proof -
  consider "cp < 0x80" | "0x80 \<le> cp" "cp < 0x800" | "0x800 \<le> cp" "cp < 0x10000" | "0x10000 \<le> cp"
    by linarith
  then show ?thesis
  proof cases
    case 2
    then have "0 \<le> cp div 0x40" "cp div 0x40 < 0x20" by simp_all
    then show ?thesis using 2 shift_parts(1)[of cp] by (simp add: utf8_def)
  next
    case 3
    then have "0 \<le> cp div 0x1000" "cp div 0x1000 < 0x10" by simp_all
    then show ?thesis using 3 shift_parts(2)[of cp] by (simp add: utf8_def)
  next
    case 4
    define a b c d where "a = cp div 0x40000" and "b = cp div 0x1000 mod 0x40"
      and "c = cp div 0x40 mod 0x40" and "d = cp mod 0x40"
    have u: "utf8 cp = [0xF0 + a, 0x80 + b, 0x80 + c, 0x80 + d]"
      using 4 by (simp add: utf8_def a_def b_def c_def d_def)
    have "0 \<le> a" using assms(1) by (simp add: a_def)
    moreover have "cp = a * 0x40000 + b * 0x1000 + c * 0x40 + d"
      unfolding a_def b_def c_def d_def using shift_parts(3)[of cp] by simp
    ultimately show ?thesis unfolding u by (simp add: add.assoc)
  qed (use assms in \<open>simp add: utf8_def\<close>)
qed

lemma utf8_decode_concat:
  "(\<forall>cp \<in> set cps. 0 \<le> cp \<and> cp < 0x110000) \<Longrightarrow> utf8_decode (concat (map utf8 cps)) = Some cps"
  by (induction cps) (auto simp: utf8_decode_utf8)

lemma units_of_unit: "\<not> is_high c \<Longrightarrow> \<not> is_low c \<Longrightarrow> units_of (uint c) = [c]"
  using uint_16[of c] by (simp add: units_of_def)

lemma units_of_code_point: "is_high h \<Longrightarrow> is_low l \<Longrightarrow> units_of (code_point h l) = [h, l]"
proof -
  assume h: "is_high h" and l: "is_low l"
  have hb: "0xD800 \<le> uint h" "uint h \<le> 0xDBFF" and lb: "0xDC00 \<le> uint l" "uint l \<le> 0xDFFF"
    using h l by (simp_all add: is_high_def is_low_def word_le_def)
  have e: "code_point h l - 0x10000 = 0x400 * (uint h - 0xD800) + (uint l - 0xDC00)"
    by (simp add: code_point_def)
  have "(code_point h l - 0x10000) div 0x400 = uint h - 0xD800"
    "(code_point h l - 0x10000) mod 0x400 = uint l - 0xDC00"
    unfolding e using quotient_unique[of "uint l - 0xDC00" "0x400" "uint h - 0xD800"] lb by auto
  moreover have "\<not> code_point h l < 0x10000" using code_point_bounds[OF h l] by simp
  ultimately show ?thesis by (simp add: units_of_def)
qed

lemma units_of_code_points: "code_points s = Some cps \<Longrightarrow> concat (map units_of cps) = s"
proof (induction s arbitrary: cps rule: code_points.induct)
  case (2 c cs)
  show ?case
  proof (cases "is_high c")
    case True
    then obtain d ds cps' where "cs = d # ds" "is_low d" "code_points ds = Some cps'"
      "cps = code_point c d # cps'" "\<not> is_low c"
      using "2.prems" by (auto split: if_splits list.splits)
    then show ?thesis using "2.IH"(2) True by (simp add: units_of_code_point)
  next
    case False
    then show ?thesis using 2 by (auto simp: units_of_unit split: if_splits)
  qed
qed simp

lemma uri_unescaped_ascii: "uri_unescaped c \<Longrightarrow> c \<noteq> 37 \<and> uint c < 0x80"
proof -
  assume "uri_unescaped c"
  then have "c \<in> set (map word_of_nat [48..<Suc 57] @ map word_of_nat [65..<Suc 90]
      @ map word_of_nat [97..<Suc 122] @ uri_marks)"
    using word_range_list[of 48 c 57] word_range_list[of 65 c 90] word_range_list[of 97 c 122]
    by (auto simp: uri_unescaped_def is_digit_def is_upper_def is_lower_def simp del: upt_Suc)
  moreover have "list_all (\<lambda>c. c \<noteq> 37 \<and> uint c < 0x80) (map word_of_nat [48..<Suc 57]
      @ map word_of_nat [65..<Suc 90] @ map word_of_nat [97..<Suc 122] @ uri_marks)"
    by code_simp
  ultimately show ?thesis unfolding list_all_iff by blast
qed

lemma ascii_not_surrogate: "uint c < 0x80 \<Longrightarrow> \<not> is_high c \<and> \<not> is_low c"
  by (simp add: is_high_def is_low_def word_le_def)

lemma utf8_loop_escape:
  "(\<forall>b \<in> set bs. 0 \<le> b \<and> b < 256) \<Longrightarrow>
     utf8_loop (escape bs @ r) = bindE (utf8_loop r) (\<lambda>ws. Inr (bs @ ws))"
proof (induction bs)
  case Nil
  then show ?case by (cases "utf8_loop r") (simp_all add: escape_def)
next
  case (Cons b bs)
  have "escape (b # bs) @ r = 37 # hex_digit (b div 16) # hex_digit (b mod 16) # (escape bs @ r)"
    by (simp add: escape_def)
  moreover have "parseInt16 [hex_digit (b div 16), hex_digit (b mod 16)] = Some b"
    using Cons.prems by (intro parseInt16_byte) auto
  ultimately show ?case using Cons
    by (simp add: substr_def bindE_assoc del: parseInt16.simps)
qed

lemma toUtf8_escape:
  assumes "0 \<le> cp" "cp < 0x110000"
  shows "utf8_loop (escape (utf8 cp) @ r) = bindE (utf8_loop r) (\<lambda>ws. Inr (utf8 cp @ ws))"
  using utf8_bytes[OF assms] by (intro utf8_loop_escape) blast

lemma toUtf8ByteArray_Cons:
  "uri_unescaped c \<Longrightarrow> toUtf8ByteArray (c # cs) = bindE (toUtf8ByteArray cs) (\<lambda>ws. Inr (utf8 (uint c) @ ws))"
  "\<not> uri_unescaped c \<Longrightarrow> \<not> is_low c \<Longrightarrow> \<not> is_high c \<Longrightarrow>
     toUtf8ByteArray (c # cs) = bindE (toUtf8ByteArray cs) (\<lambda>ws. Inr (utf8 (uint c) @ ws))"
  "\<not> uri_unescaped c \<Longrightarrow> \<not> is_low c \<Longrightarrow> is_high c \<Longrightarrow> is_low d \<Longrightarrow>
     toUtf8ByteArray (c # d # ds) = bindE (toUtf8ByteArray ds) (\<lambda>ws. Inr (utf8 (code_point c d) @ ws))"
proof -
  have "utf8 (uint c) = [uint c]" "c \<noteq> 37" if "uri_unescaped c"
    using uri_unescaped_ascii[OF that] by (simp_all add: utf8_def)
  then show "uri_unescaped c \<Longrightarrow>
      toUtf8ByteArray (c # cs) = bindE (toUtf8ByteArray cs) (\<lambda>ws. Inr (utf8 (uint c) @ ws))"
    by (simp add: toUtf8ByteArray_def bindE_assoc)
qed (use uint_16[of c] code_point_bounds[of c d] in
      \<open>simp_all add: toUtf8ByteArray_def bindE_assoc toUtf8_escape\<close>)

lemma toUtf8ByteArray_code_points:
  "toUtf8ByteArray s = (case code_points s of None \<Rightarrow> Inl URIError | Some cps \<Rightarrow> Inr (concat (map utf8 cps)))"
proof (induction s rule: encodeURI.induct)
  case 1
  then show ?case by (simp add: toUtf8ByteArray_def)
next
  case (2 c cs)
  consider "uri_unescaped c" "\<not> is_low c" "\<not> is_high c" | "\<not> uri_unescaped c" "is_low c"
    | "\<not> uri_unescaped c" "\<not> is_low c" "\<not> is_high c" | "\<not> uri_unescaped c" "\<not> is_low c" "is_high c"
    using uri_unescaped_ascii[of c] ascii_not_surrogate[of c] by blast
  then show ?case
  proof cases
    case 1
    then show ?thesis
      using "2.IH"(1) by (auto simp: toUtf8ByteArray_Cons(1) split: option.splits)
  next
    case 2
    then show ?thesis by (simp add: toUtf8ByteArray_def)
  next
    case 3
    then show ?thesis
      using "2.IH"(2) by (auto simp: toUtf8ByteArray_Cons(2) split: option.splits)
  next
    case 4
    show ?thesis
    proof (cases "\<exists>d ds. cs = d # ds \<and> is_low d")
      case True
      then obtain d ds where d: "cs = d # ds" "is_low d" by blast
      then show ?thesis
        using 4 "2.IH"(3) by (auto simp: toUtf8ByteArray_Cons(3) split: option.splits)
    next
      case False
      then show ?thesis using 4 by (cases cs) (simp_all add: toUtf8ByteArray_def)
    qed
  qed
qed

section \<open>What the factories return\<close>

abbreviation numeric_segment :: "jstr \<Rightarrow> segment" where
  "numeric_segment s \<equiv> \<lparr>seg_mode = NUMERIC, numChars = int (length s), bitData = numeric_bits s\<rparr>"

abbreviation alnum_segment :: "jstr \<Rightarrow> segment" where
  "alnum_segment s \<equiv> \<lparr>seg_mode = ALPHANUMERIC, numChars = int (length s), bitData = alnum_bits s\<rparr>"

abbreviation byte_segment :: "int list \<Rightarrow> segment" where
  "byte_segment bs \<equiv> \<lparr>seg_mode = BYTE, numChars = int (length bs), bitData = bytes_bits bs\<rparr>"

lemma makeNumeric_eq:
  "makeNumeric s = (if isNumeric s then Inr (numeric_segment s)
                    else Inl (RangeError ''String contains non-numeric characters''))"
  by (simp add: makeNumeric_def numeric_loop_bits new_QrSegment_def)

lemma makeAlphanumeric_eq:
  "makeAlphanumeric s = (if isAlphanumeric s then Inr (alnum_segment s)
     else Inl (RangeError ''String contains unencodable characters in alphanumeric mode''))"
proof (cases "isAlphanumeric s")
  case True
  have "bindE (alnum_loop s 0 []) (\<lambda>(i, bb). bindE (if i < length s then appendBits (alnum_index (s ! i)) 6 bb else Inr bb) f)
      = bindE (Inr (alnum_bits s)) f" for f :: "bits \<Rightarrow> segment js"
    unfolding alnum_loop_bits[OF True, of 0 "[]", simplified, symmetric] bindE_assoc
    by (rule bindE_cong) auto
  then show ?thesis using True by (simp add: makeAlphanumeric_def new_QrSegment_def)
qed (simp add: makeAlphanumeric_def)

lemma makeBytes_eq: "list_all byte_valid bs \<Longrightarrow> makeBytes bs = Inr (byte_segment bs)"
  by (simp add: makeBytes_def byte_loop_bits new_QrSegment_def)

lemma utf8_concat_valid:
  "code_points s = Some cps \<Longrightarrow> list_all byte_valid (concat (map utf8 cps))"
  using code_points_bounds[of s cps] utf8_bytes
  by (auto simp: list_all_iff byte_valid_def)

lemma makeSegments_eq:
  "makeSegments s =
     (if s = [] then Inr []
      else if isNumeric s then Inr [numeric_segment s]
      else if isAlphanumeric s then Inr [alnum_segment s]
      else case code_points s of None \<Rightarrow> Inl URIError
           | Some cps \<Rightarrow> Inr [byte_segment (concat (map utf8 cps))])"
  by (auto simp: makeSegments_def makeNumeric_eq makeAlphanumeric_eq toUtf8ByteArray_code_points
      makeBytes_eq utf8_concat_valid split: option.splits)

lemma length_numeric_bits: "3 * length (numeric_bits s) \<le> 10 * length s + 2"
  by (induction s rule: numeric_bits.induct) simp_all

lemma length_alnum_bits:
  "11 * length s \<le> 2 * length (alnum_bits s)" "2 * length (alnum_bits s) \<le> 11 * length s + 1"
  by (induction s rule: alnum_bits.induct) simp_all

lemma length_utf8: "1 \<le> length (utf8 cp)" "0x10000 \<le> cp \<Longrightarrow> length (utf8 cp) = 4"
  by (simp_all add: utf8_def)

lemma length_code_points:
  "code_points s = Some cps \<Longrightarrow> length s \<le> length (concat (map utf8 cps))"
proof (induction s arbitrary: cps rule: code_points.induct)
  case (2 c cs)
  show ?case
  proof (cases "is_high c")
    case True
    then obtain d ds cps' where "cs = d # ds" "is_low d" "code_points ds = Some cps'"
      "cps = code_point c d # cps'" "\<not> is_low c"
      using "2.prems" by (auto split: if_splits list.splits)
    then show ?thesis
      using "2.IH"(2) True length_utf8(2)[of "code_point c d"] code_point_bounds[of c d] by force
  next
    case False
    then obtain cps' where "code_points cs = Some cps'" "cps = uint c # cps'" "\<not> is_low c"
      using "2.prems" by (auto split: if_splits)
    then show ?thesis using "2.IH"(1) False length_utf8(1)[of "uint c"] by force
  qed
qed simp

lemma length_bytes_bits [simp]: "length (bytes_bits bs) = 8 * length bs"
  by (induction bs) simp_all

lemma numeric_le_alnum: "s \<noteq> [] \<Longrightarrow> length (numeric_bits s) \<le> length (alnum_bits s)"
proof -
  assume "s \<noteq> []"
  then have "1 \<le> length s" by (simp add: Suc_leI)
  then show ?thesis using length_numeric_bits[of s] length_alnum_bits(1)[of s] by linarith
qed

lemma numeric_le_bytes: "length (numeric_bits s) \<le> 8 * length s"
  using length_numeric_bits[of s] by (cases s) auto

section \<open>Properties\<close>

text \<open>
  C32: \<^verbatim>\<open>makeNumeric\<close> accepts exactly the strings of decimal digits, and what it writes can be read
  back: a reader that knows the number of characters recovers the digits from the bit data and
  stops exactly at its end, whatever follows.
\<close>
theorem makeNumeric_roundtrip:
  "case makeNumeric digits of
     Inl e \<Rightarrow> \<not> list_all is_digit digits \<and> e = RangeError ''String contains non-numeric characters''
   | Inr seg \<Rightarrow> list_all is_digit digits \<and> seg_mode seg = NUMERIC \<and> numChars seg = int (length digits) \<and>
       is_bits (getData seg) \<and>
       numeric_decode (nat (numChars seg)) (getData seg @ rest) = Some (digits, rest)"
  by (simp add: makeNumeric_eq isNumeric_iff[symmetric] getData_def num.dec_enc num.enc_bits)

text \<open>
  C33: \<^verbatim>\<open>makeAlphanumeric\<close> accepts exactly the strings over the 45-character set, and a reader that
  knows the number of characters recovers the text from the bit data, whatever follows.
\<close>
theorem makeAlphanumeric_roundtrip:
  "case makeAlphanumeric s of
     Inl e \<Rightarrow> \<not> list_all (\<lambda>c. c \<in> set ALPHANUMERIC_CHARSET) s \<and>
       e = RangeError ''String contains unencodable characters in alphanumeric mode''
   | Inr seg \<Rightarrow> list_all (\<lambda>c. c \<in> set ALPHANUMERIC_CHARSET) s \<and> seg_mode seg = ALPHANUMERIC \<and>
       numChars seg = int (length s) \<and> is_bits (getData seg) \<and>
       alnum_decode (nat (numChars seg)) (getData seg @ rest) = Some (s, rest)"
  by (simp add: makeAlphanumeric_eq isAlphanumeric_charset[symmetric] getData_def alnum.dec_enc alnum.enc_bits)

text \<open>
  C31: \<^verbatim>\<open>toUtf8ByteArray\<close> throws exactly for strings with an unpaired surrogate, and otherwise returns
  bytes that a UTF-8 decoder turns back into the same string.
\<close>
theorem toUtf8ByteArray_roundtrip:
  "case toUtf8ByteArray s of
     Inl e \<Rightarrow> e = URIError \<and> code_points s = None
   | Inr bs \<Rightarrow> code_points s \<noteq> None \<and> list_all byte_valid bs \<and> text_of_utf8 bs = Some s"
  using code_points_bounds[of s] utf8_concat_valid[of s] units_of_code_points[of s]
  by (auto simp: toUtf8ByteArray_code_points text_of_utf8_def utf8_decode_concat split: option.splits)

text \<open>
  C34: \<^verbatim>\<open>makeSegments\<close> chooses the mode with the shortest data: when it returns a segment, no factory
  that accepts the same text (digits, alphanumeric text, the UTF-8 bytes) gives shorter bit data.
\<close>
theorem makeSegments_shortest:
  assumes "makeSegments s = Inr [seg]"
    and "makeNumeric s = Inr other \<or> makeAlphanumeric s = Inr other
         \<or> (\<exists>bs. toUtf8ByteArray s = Inr bs \<and> makeBytes bs = Inr other)"
  shows "length (bitData seg) \<le> length (bitData other)"
  using assms(2)
proof (elim disjE exE conjE)
  assume "makeNumeric s = Inr other"
  then show ?thesis using assms(1)
    by (auto simp: makeNumeric_eq makeSegments_eq split: if_splits)
next
  assume "makeAlphanumeric s = Inr other"
  then have "isAlphanumeric s" "other = alnum_segment s" "s \<noteq> []"
    using assms(1) by (auto simp: makeAlphanumeric_eq makeSegments_eq split: if_splits)
  then show ?thesis using assms(1) numeric_le_alnum[of s]
    by (auto simp: makeSegments_eq split: if_splits)
next
  fix bs assume bs: "toUtf8ByteArray s = Inr bs" "makeBytes bs = Inr other"
  then obtain cps where cps: "code_points s = Some cps" "bs = concat (map utf8 cps)"
    by (auto simp: toUtf8ByteArray_code_points split: option.splits)
  then have "other = byte_segment bs"
    using bs(2) makeBytes_eq[OF utf8_concat_valid] by simp
  moreover have "length s \<le> length bs" using length_code_points cps by simp
  ultimately show ?thesis using assms(1) cps numeric_le_bytes[of s] length_alnum_bits(2)[of s]
    by (auto simp: makeSegments_eq split: if_splits)
qed

theorem makeSegments_shortest_witness:
  "makeSegments (lit ''07'') = Inr [numeric_segment (lit ''07'')] \<and>
   makeAlphanumeric (lit ''07'') = Inr (alnum_segment (lit ''07'')) \<and>
   length (bitData (numeric_segment (lit ''07''))) \<le> length (bitData (alnum_segment (lit ''07'')))"
proof -
  have a: "isNumeric (lit ''07'')" "isAlphanumeric (lit ''07'')" by code_simp+
  then have s: "makeSegments (lit ''07'') = Inr [numeric_segment (lit ''07'')]"
    by (simp only: makeSegments_eq) simp
  have t: "makeAlphanumeric (lit ''07'') = Inr (alnum_segment (lit ''07''))"
    using a by (simp only: makeAlphanumeric_eq) simp
  show ?thesis using makeSegments_shortest[OF s disjI2[OF disjI1[OF t]]] s t by blast
qed

end
