(* ===== verification/Encode.thy ===== *)
theory Encode
  imports Segments
begin

text \<open>
  The data half of \<^verbatim>\<open>QrCode.encodeSegments\<close> in \<^verbatim>\<open>frontend/js/qrcodegen.js\<close>: the search for the
  smallest version, the raising of the error correction level, the bit buffer with its terminator
  and padding, and its packing into data codewords (\<^verbatim>\<open>encode_data\<close>). The construction of the
  symbol from the result is in \<^verbatim>\<open>QrCode\<close>.

  The specification side is \<^verbatim>\<open>fits\<close> (the segments fit a version and level), \<^verbatim>\<open>stream\<close> (the bits of
  the segments) and \<^verbatim>\<open>read_stream\<close>, a reader that recovers the contents from the data codewords.
\<close>

section \<open>The code\<close>

function version_loop :: "segment list \<Rightarrow> ecc \<Rightarrow> int \<Rightarrow> int \<Rightarrow> (int \<times> int) js" where
  "version_loop segs ecl maxVersion version =
     bindE (getNumDataCodewords version ecl) (\<lambda>n.
       let dataCapacityBits = n * 8
       in case getTotalBits segs version of
            Some usedBits \<Rightarrow>
              if usedBits \<le> dataCapacityBits then Inr (version, usedBits)
              else if version \<ge> maxVersion then Inl (RangeError ''Data too long'')
              else version_loop segs ecl maxVersion (version + 1)
          | None \<Rightarrow>
              if version \<ge> maxVersion then Inl (RangeError ''Data too long'')
              else version_loop segs ecl maxVersion (version + 1))"
  by pat_completeness auto
termination
  by (relation "measure (\<lambda>(_, _, mx, v). nat (mx - v))") auto

declare version_loop.simps [simp del]

definition boost_step :: "bool \<Rightarrow> int \<Rightarrow> int \<Rightarrow> ecc \<Rightarrow> ecc \<Rightarrow> ecc js" where
  "boost_step boostEcl version dataUsedBits newEcl ecl =
     (if boostEcl
      then bindE (getNumDataCodewords version newEcl) (\<lambda>n.
             Inr (if dataUsedBits \<le> n * 8 then newEcl else ecl))
      else Inr ecl)"

definition append_segment :: "int \<Rightarrow> segment \<Rightarrow> bits \<Rightarrow> bits js" where
  "append_segment version seg bb =
     bindE (appendBits (modeBits (seg_mode seg)) 4 bb) (\<lambda>bb.
     bindE (appendBits (numChars seg) (numCharCountBits (seg_mode seg) version) bb) (\<lambda>bb.
     Inr (fold (\<lambda>b bb. bb @ [b]) (getData seg) bb)))"

lemma appendBits_length: "appendBits v n bb = Inr bb' \<Longrightarrow> length bb' = length bb + nat n"
  by (auto simp: appendBits_def fold_snoc_map split: if_splits)

function pad_loop :: "int \<Rightarrow> int \<Rightarrow> bits \<Rightarrow> bits js" where
  "pad_loop dataCapacityBits padByte bb =
     (if int (length bb) < dataCapacityBits
      then bindE (appendBits padByte 8 bb)
             (pad_loop dataCapacityBits (js_xor padByte (js_xor 0xEC 0x11)))
      else Inr bb)"
  by pat_completeness auto
termination
  by (relation "measure (\<lambda>(cap, _, bb). nat cap - length bb)") (auto dest: appendBits_length)

declare pad_loop.simps [simp del]

definition encode_data ::
  "segment list \<Rightarrow> ecc \<Rightarrow> int \<Rightarrow> int \<Rightarrow> int \<Rightarrow> bool \<Rightarrow> (int \<times> ecc \<times> int list) js" where
  "encode_data segs ecl minVersion maxVersion msk boostEcl =
     (if \<not> (MIN_VERSION \<le> minVersion \<and> minVersion \<le> maxVersion \<and> maxVersion \<le> MAX_VERSION)
         \<or> msk < -1 \<or> msk > 7
      then Inl (RangeError ''Invalid value'')
      else bindE (version_loop segs ecl maxVersion minVersion) (\<lambda>(version, dataUsedBits).
           bindE (foldE (boost_step boostEcl version dataUsedBits) [MEDIUM, QUARTILE, HIGH] ecl) (\<lambda>ecl.
           bindE (foldE (append_segment version) segs []) (\<lambda>bb.
           bindE (assertE (int (length bb) = dataUsedBits)) (\<lambda>_.
           bindE (getNumDataCodewords version ecl) (\<lambda>n.
             let dataCapacityBits = n * 8 in
           bindE (assertE (int (length bb) \<le> dataCapacityBits)) (\<lambda>_.
           bindE (appendBits 0 (min 4 (dataCapacityBits - int (length bb))) bb) (\<lambda>bb.
           bindE (appendBits 0 ((8 - int (length bb) mod 8) mod 8) bb) (\<lambda>bb.
           bindE (assertE (length bb mod 8 = 0)) (\<lambda>_.
           bindE (pad_loop dataCapacityBits 0xEC bb) (\<lambda>bb.
           Inr (version, ecl, packBits bb))))))))))))"

section \<open>Specification\<close>

definition seg_ok :: "segment \<Rightarrow> bool" where
  "seg_ok seg \<longleftrightarrow> 0 \<le> numChars seg \<and> is_bits (bitData seg)"

abbreviation count_bits :: "int \<Rightarrow> segment \<Rightarrow> nat" where
  "count_bits version seg \<equiv> nat (numCharCountBits (seg_mode seg) version)"

definition seg_bits :: "int \<Rightarrow> segment \<Rightarrow> bits" where
  "seg_bits version seg =
     bits_of 4 (modeBits (seg_mode seg)) @ bits_of (count_bits version seg) (numChars seg) @ bitData seg"

definition stream :: "int \<Rightarrow> segment list \<Rightarrow> bits" where
  "stream version segs = concat (map (seg_bits version) segs)"

text \<open>The segments fit: every count fits its field and the bits fit the data codewords.\<close>

definition fits :: "segment list \<Rightarrow> int \<Rightarrow> ecc \<Rightarrow> bool" where
  "fits segs version ecl \<longleftrightarrow>
     (\<forall>seg \<in> set segs. numChars seg < 2 ^ count_bits version seg) \<and>
     int (length (stream version segs)) \<le> data_codewords version ecl * 8"

fun pad_bytes :: "nat \<Rightarrow> int \<Rightarrow> int list" where
  "pad_bytes 0 p = []"
| "pad_bytes (Suc n) p = p # pad_bytes n (if p = 0xEC then 0x11 else 0xEC)"

definition terminated :: "int \<Rightarrow> bits \<Rightarrow> bits" where
  "terminated cap bb =
     (let bb = bb @ replicate (nat (min 4 (cap - int (length bb)))) 0
      in bb @ replicate (nat ((8 - int (length bb) mod 8) mod 8)) 0)"

definition padded :: "int \<Rightarrow> bits \<Rightarrow> bits" where
  "padded cap bb = terminated cap bb @ bytes_bits (pad_bytes (nat cap div 8 - length (terminated cap bb) div 8) 0xEC)"

section \<open>The loops\<close>

lemma numCharCountBits_bounds:
  assumes "1 \<le> version" "version \<le> 40"
  shows "0 \<le> numCharCountBits m version" "numCharCountBits m version \<le> 16"
proof -
  have "0 \<le> (version + 7) div 17" "(version + 7) div 17 \<le> 2" using assms by simp_all
  then have "nat ((version + 7) div 17) \<in> {0, 1, 2}" by auto
  then show "0 \<le> numCharCountBits m version" "numCharCountBits m version \<le> 16"
    by (cases m; auto simp: numCharCountBits_def)+
qed

lemma js_shl_1: "0 \<le> n \<Longrightarrow> n \<le> 16 \<Longrightarrow> js_shl 1 n = 2 ^ nat n"
proof -
  assume n: "0 \<le> n" "n \<le> 16"
  have "(2 :: int) ^ nat n \<le> 2 ^ 16" using n by (intro power_increasing) auto
  then show ?thesis using n js_shl_nonneg[of 1 n] by simp
qed

lemma stream_simps [simp]:
  "stream version [] = []"
  "stream version (seg # segs) = seg_bits version seg @ stream version segs"
  by (simp_all add: stream_def)

lemma total_loop_eq:
  assumes "1 \<le> version" "version \<le> 40"
  shows "total_loop segs version r =
     (if \<forall>seg \<in> set segs. numChars seg < 2 ^ count_bits version seg
      then Some (r + int (length (stream version segs))) else None)"
proof (induction segs arbitrary: r)
  case (Cons seg segs)
  then show ?case
    using numCharCountBits_bounds[OF assms, of "seg_mode seg"]
    by (auto simp: Let_def js_shl_1 seg_bits_def algebra_simps)
qed simp

lemma getTotalBits_eq:
  assumes "1 \<le> version" "version \<le> 40"
  shows "getTotalBits segs version =
     (if \<forall>seg \<in> set segs. numChars seg < 2 ^ count_bits version seg
      then Some (int (length (stream version segs))) else None)"
  using total_loop_eq[OF assms] by (simp add: getTotalBits_def)

lemma version_loop_step:
  assumes "1 \<le> version" "version \<le> 40"
  shows "version_loop segs ecl maxVersion version =
     (if fits segs version ecl then Inr (version, int (length (stream version segs)))
      else if version \<ge> maxVersion then Inl (RangeError ''Data too long'')
      else version_loop segs ecl maxVersion (version + 1))"
  using assms
  by (subst version_loop.simps) (auto simp: getNumDataCodewords_eq getTotalBits_eq fits_def Let_def)

lemma version_loop_spec:
  assumes "1 \<le> minV" "minV \<le> maxV" "maxV \<le> 40"
  shows "case version_loop segs ecl maxV minV of
      Inl e \<Rightarrow> e = RangeError ''Data too long'' \<and> (\<forall>v \<in> {minV..maxV}. \<not> fits segs v ecl)
    | Inr (v, used) \<Rightarrow> minV \<le> v \<and> v \<le> maxV \<and> fits segs v ecl \<and> used = int (length (stream v segs))
        \<and> (\<forall>w \<in> {minV..<v}. \<not> fits segs w ecl)"
  using assms
proof (induction "nat (maxV - minV)" arbitrary: minV)
  case 0
  then show ?case by (auto simp: version_loop_step split: sum.splits)
next
  case (Suc n)
  show ?case
  proof (cases "fits segs minV ecl")
    case True
    then show ?thesis using Suc.prems by (simp add: version_loop_step)
  next
    case False
    have lt: "minV < maxV" using Suc.hyps(2) by simp
    have IH: "case version_loop segs ecl maxV (minV + 1) of
      Inl e \<Rightarrow> e = RangeError ''Data too long'' \<and> (\<forall>v \<in> {minV + 1..maxV}. \<not> fits segs v ecl)
    | Inr (v, used) \<Rightarrow> minV + 1 \<le> v \<and> v \<le> maxV \<and> fits segs v ecl \<and> used = int (length (stream v segs))
        \<and> (\<forall>w \<in> {minV + 1..<v}. \<not> fits segs w ecl)"
      by (rule Suc.hyps(1)) (use Suc.hyps(2) Suc.prems in auto)
    have range: "{minV..maxV} = insert minV {minV + 1..maxV}"
      "minV + 1 \<le> v \<Longrightarrow> {minV..<v} = insert minV {minV + 1..<v}" for v using lt by auto
    have step: "version_loop segs ecl maxV minV = version_loop segs ecl maxV (minV + 1)"
      using False lt Suc.prems by (simp add: version_loop_step)
    show ?thesis
      using IH False range unfolding step by (auto split: sum.splits)
  qed
qed

lemma append_segment_eq:
  assumes "1 \<le> version" "version \<le> 40" "seg_ok seg" "numChars seg < 2 ^ count_bits version seg"
  shows "append_segment version seg bb = Inr (bb @ seg_bits version seg)"
proof -
  have m: "0 \<le> modeBits (seg_mode seg)" "modeBits (seg_mode seg) < 2 ^ 4"
    by (cases "seg_mode seg"; simp)+
  have "appendBits (modeBits (seg_mode seg)) 4 bb = Inr (bb @ bits_of 4 (modeBits (seg_mode seg)))"
    by (rule appendBits_numeral[OF m]) simp_all
  moreover have "appendBits (numChars seg) (numCharCountBits (seg_mode seg) version) bb'
      = Inr (bb' @ bits_of (count_bits version seg) (numChars seg))" for bb'
    by (rule appendBits_numeral)
       (use assms numCharCountBits_bounds[OF assms(1,2), of "seg_mode seg"] in \<open>auto simp: seg_ok_def\<close>)
  ultimately show ?thesis
    using fold_snoc_map[of "\<lambda>x. x" "bitData seg"]
    by (simp add: append_segment_def seg_bits_def getData_def)
qed

lemma append_segments_eq:
  assumes "1 \<le> version" "version \<le> 40" "\<forall>seg \<in> set segs. seg_ok seg \<and> numChars seg < 2 ^ count_bits version seg"
  shows "foldE (append_segment version) segs bb = Inr (bb @ stream version segs)"
  using assms(3) by (induction segs arbitrary: bb) (simp_all add: append_segment_eq[OF assms(1,2)])

lemma is_bits_stream: "\<forall>seg \<in> set segs. seg_ok seg \<Longrightarrow> is_bits (stream version segs)"
  by (induction segs) (auto simp: seg_bits_def seg_ok_def)

lemma fits_stream: "fits segs version ecl \<Longrightarrow> int (length (stream version segs)) \<le> data_codewords version ecl * 8"
  by (simp add: fits_def)

text \<open>Raising the level keeps the fit and never lowers the level asked for.\<close>

lemma fits_level: "1 \<le> v \<Longrightarrow> v \<le> 40 \<Longrightarrow> fits segs v b \<Longrightarrow> a \<le> b \<Longrightarrow> fits segs v a"
  using data_codewords_level[of v a b] by (fastforce simp: fits_def order_le_less)

definition boosted :: "segment list \<Rightarrow> int \<Rightarrow> ecc \<Rightarrow> ecc" where
  "boosted segs v ecl =
     (if fits segs v HIGH then HIGH else if fits segs v QUARTILE then QUARTILE
      else if fits segs v MEDIUM then MEDIUM else ecl)"

lemma boost_steps:
  assumes "1 \<le> v" "v \<le> 40" "fits segs v ecl"
  shows "foldE (boost_step boostEcl v (int (length (stream v segs)))) [MEDIUM, QUARTILE, HIGH] ecl
           = Inr (if boostEcl then boosted segs v ecl else ecl)"
  using assms(3)
  by (auto simp: boost_step_def getNumDataCodewords_eq assms(1,2) boosted_def fits_def)

lemma boosted_greatest:
  assumes "1 \<le> v" "v \<le> 40" "fits segs v ecl"
  shows "fits segs v (boosted segs v ecl)" "fits segs v l \<Longrightarrow> l \<le> boosted segs v ecl"
proof -
  show "fits segs v (boosted segs v ecl)" using assms(3) by (simp add: boosted_def)
  show "l \<le> boosted segs v ecl" if "fits segs v l"
    using that assms(3) fits_level[OF assms(1,2)]
    by (cases l; cases ecl) (auto simp: boosted_def less_eq_ecc_def)
qed

section \<open>Terminator and padding\<close>

lemma bits_of_zero [simp]: "bits_of n 0 = replicate n 0"
  by (induction n) (simp_all add: bits_of_Suc)

lemma append_zeros: "0 \<le> n \<Longrightarrow> n \<le> 31 \<Longrightarrow> appendBits 0 n bb = Inr (bb @ replicate (nat n) 0)"
  using appendBits_numeral[of 0 "nat n" n bb] by simp

lemma pad_loop_eq:
  assumes "p \<in> {0xEC, 0x11}" "length bb = 8 * a"
  shows "pad_loop (8 * int c) p bb = Inr (bb @ bytes_bits (pad_bytes (c - a) p))"
  using assms
proof (induction "c - a" arbitrary: a p bb)
  case 0
  then show ?case by (subst pad_loop.simps) simp
next
  case (Suc n)
  then have "int (length bb) < 8 * int c" by simp
  moreover have "appendBits p 8 bb = Inr (bb @ bits_of 8 p)"
    using Suc.prems by (intro appendBits_numeral) auto
  moreover have "js_xor p (js_xor 0xEC 0x11) = (if p = 0xEC then 0x11 else 0xEC)"
    using Suc.prems(1) by (auto simp: js_xor_def to_int32_def signed_take_bit_int_eq_self)
  moreover have "pad_loop (8 * int c) (if p = 0xEC then 0x11 else 0xEC) (bb @ bits_of 8 p)
      = Inr ((bb @ bits_of 8 p) @ bytes_bits (pad_bytes (c - Suc a) (if p = 0xEC then 0x11 else 0xEC)))"
    using Suc by (intro Suc.hyps(1)) auto
  moreover have "c - a = Suc (c - Suc a)" using Suc.hyps(2) by simp
  ultimately show ?case by (subst pad_loop.simps) simp
qed

lemma length_pad_bytes [simp]: "length (pad_bytes n p) = n"
  by (induction n arbitrary: p) simp_all

lemma length_terminated:
  assumes "length bb \<le> 8 * c"
  shows "length (terminated (8 * int c) bb) mod 8 = 0" "length (terminated (8 * int c) bb) \<le> 8 * c"
proof -
  define t where "t = nat (min 4 (8 * int c - int (length bb)))"
  define n where "n = length bb + t"
  define z where "z = nat ((8 - int n mod 8) mod 8)"
  have n: "n \<le> 8 * c" using assms by (auto simp: n_def t_def)
  have len: "length (terminated (8 * int c) bb) = n + z"
    by (simp add: terminated_def Let_def t_def n_def z_def)
  define q r where "q = n div 8" and "r = n mod 8"
  have nqr: "n = 8 * q + r" "r < 8" by (simp_all add: q_def r_def)
  have z: "z = (if r = 0 then 0 else 8 - r)"
  proof -
    have "int n mod 8 = int r" by (simp add: r_def zmod_int)
    moreover have "(8 - int r) mod 8 = 8 - int r" if "r \<noteq> 0"
      using that nqr(2) by (intro mod_pos_pos_trivial) auto
    ultimately show ?thesis using nqr(2)
      by (cases "r = 0") (simp_all add: z_def nat_diff_distrib del: minus_mod_self1)
  qed
  show "length (terminated (8 * int c) bb) mod 8 = 0" unfolding len z using nqr by auto
  have "8 * q + 8 \<le> 8 * c" if "r \<noteq> 0" using that nqr n by presburger
  then show "length (terminated (8 * int c) bb) \<le> 8 * c" unfolding len z using nqr n by auto
qed

lemma length_padded:
  assumes "length bb \<le> 8 * c"
  shows "length (padded (8 * int c) bb) = 8 * c"
proof -
  obtain a where a: "length (terminated (8 * int c) bb) = 8 * a"
    using length_terminated(1)[OF assms] by (metis mod_0_imp_dvd dvdE)
  then have "a \<le> c" using length_terminated(2)[OF assms] by simp
  then show ?thesis by (simp add: padded_def a nat_div_distrib nat_mult_distrib)
qed

lemma is_bits_replicate_0 [simp]: "is_bits (replicate n 0)"
  by (simp add: is_bits_def)

lemma is_bits_padded: "is_bits bb \<Longrightarrow> is_bits (padded cap bb)"
  by (simp add: padded_def terminated_def Let_def)

text \<open>Terminator, fill to a byte and pad bytes, as the code runs them; no assertion fails.\<close>

lemma finish_bits:
  assumes "length bb \<le> 8 * c"
  shows "bindE (assertE (int (length bb) \<le> 8 * int c)) (\<lambda>_.
         bindE (appendBits 0 (min 4 (8 * int c - int (length bb))) bb) (\<lambda>bb.
         bindE (appendBits 0 ((8 - int (length bb) mod 8) mod 8) bb) (\<lambda>bb.
         bindE (assertE (length bb mod 8 = 0)) (\<lambda>_.
         bindE (pad_loop (8 * int c) 0xEC bb) f)))) = f (padded (8 * int c) bb)"
proof -
  let ?t = "min 4 (8 * int c - int (length bb))"
  let ?bb = "bb @ replicate (nat ?t) 0"
  let ?z = "(8 - int (length ?bb) mod 8) mod 8"
  have t: "0 \<le> ?t" "?t \<le> 31" using assms by auto
  have z: "0 \<le> ?z" "?z \<le> 31" by (simp, smt (verit) pos_mod_bound)
  obtain a where a: "length (terminated (8 * int c) bb) = 8 * a"
    using length_terminated(1)[OF assms] by (metis mod_0_imp_dvd dvdE)
  have tm: "terminated (8 * int c) bb = ?bb @ replicate (nat ?z) 0"
    by (simp add: terminated_def Let_def)
  have pad: "pad_loop (8 * int c) 0xEC (terminated (8 * int c) bb) = Inr (padded (8 * int c) bb)"
    using pad_loop_eq[where p = "0xEC" and c = c, OF _ a] by (simp add: padded_def a nat_mult_distrib)
  have t1: "appendBits 0 ?t bb = Inr ?bb" by (rule append_zeros[OF t])
  have z1: "appendBits 0 ?z ?bb = Inr (terminated (8 * int c) bb)"
    unfolding tm by (rule append_zeros[OF z])
  have le: "(int (length bb) \<le> 8 * int c) = True" using assms by simp
  have m8: "(length (terminated (8 * int c) bb) mod 8 = 0) = True" by (simp add: a)
  show ?thesis
    by (simp only: t1 z1 le m8 pad assertE_simps bindE.simps)
qed

section \<open>The result of the data half\<close>

definition args_ok :: "int \<Rightarrow> int \<Rightarrow> int \<Rightarrow> bool" where
  "args_ok minV maxV msk \<longleftrightarrow> 1 \<le> minV \<and> minV \<le> maxV \<and> maxV \<le> 40 \<and> -1 \<le> msk \<and> msk \<le> 7"

definition chosen_level :: "bool \<Rightarrow> segment list \<Rightarrow> int \<Rightarrow> ecc \<Rightarrow> ecc" where
  "chosen_level boostEcl segs v ecl = (if boostEcl then boosted segs v ecl else ecl)"

lemma chosen_level:
  assumes "1 \<le> v" "v \<le> 40" "fits segs v ecl"
  shows "fits segs v (chosen_level boostEcl segs v ecl)" "ecl \<le> chosen_level boostEcl segs v ecl"
  using boosted_greatest(1)[OF assms] boosted_greatest(2)[OF assms assms(3)] assms(3) by (auto simp: chosen_level_def)

lemma encode_data_eq:
  assumes "args_ok minV maxV msk" "\<forall>seg \<in> set segs. seg_ok seg"
  shows "encode_data segs ecl minV maxV msk boostEcl =
    (case version_loop segs ecl maxV minV of
       Inl e \<Rightarrow> Inl e
     | Inr (v, _) \<Rightarrow> let l = chosen_level boostEcl segs v ecl in
         Inr (v, l, packBits (padded (data_codewords v l * 8) (stream v segs))))"
proof -
  have args: "1 \<le> minV" "minV \<le> maxV" "maxV \<le> 40" and
    guard: "\<not> (\<not> (MIN_VERSION \<le> minV \<and> minV \<le> maxV \<and> maxV \<le> MAX_VERSION) \<or> msk < -1 \<or> msk > 7)"
    using assms(1) by (auto simp: args_ok_def MIN_VERSION_def MAX_VERSION_def)
  show ?thesis
  proof (cases "version_loop segs ecl maxV minV")
    case (Inl e)
    then show ?thesis unfolding encode_data_def if_not_P[OF guard] by simp
  next
    case (Inr vu)
    obtain v used where vu: "vu = (v, used)" by (cases vu)
    have v: "minV \<le> v" "v \<le> maxV" "fits segs v ecl" "used = int (length (stream v segs))"
      using version_loop_spec[OF args, of segs ecl] Inr by (auto simp: vu)
    have v40: "1 \<le> v" "v \<le> 40" using v args by auto
    let ?l = "chosen_level boostEcl segs v ecl" and ?bb = "stream v segs"
    define c where "c = nat (data_codewords v ?l)"
    have c: "data_codewords v ?l = int c"
      using data_codewords_bounds(1)[OF v40, of ?l] by (simp add: c_def)
    have len: "length ?bb \<le> 8 * c"
      using chosen_level(1)[OF v40 v(3), of boostEcl] c by (simp add: fits_def)
    have boost: "foldE (boost_step boostEcl v used) [MEDIUM, QUARTILE, HIGH] ecl = Inr ?l"
      using boost_steps[OF v40 v(3)] v(4) by (simp add: chosen_level_def)
    have app: "foldE (append_segment v) segs [] = Inr ?bb"
      using append_segments_eq[OF v40, of segs "[]"] v(3) assms(2) by (simp add: fits_def)
    have cap: "getNumDataCodewords v ?l = Inr (int c)"
      using v40 c by (simp add: getNumDataCodewords_eq)
    show ?thesis
      unfolding encode_data_def if_not_P[OF guard] Inr vu bindE.simps prod.case boost app cap
      using finish_bits[OF len, of "\<lambda>bb. Inr (v, ?l, packBits bb)"] v(4)
      by (simp add: Let_def c mult.commute)
  qed
qed

lemma padded_facts:
  assumes "1 \<le> v" "v \<le> 40" "fits segs v l" "\<forall>seg \<in> set segs. seg_ok seg"
  defines "bb \<equiv> padded (data_codewords v l * 8) (stream v segs)"
  shows "bytes_bits (packBits bb) = bb" "int (length (packBits bb)) = data_codewords v l"
    "list_all byte_valid (packBits bb)"
proof -
  define c where "c = nat (data_codewords v l)"
  have c: "data_codewords v l = int c" "c \<le> 2956"
    using data_codewords_bounds[OF assms(1,2), of l] by (auto simp: c_def)
  have bb: "bb = padded (8 * int c) (stream v segs)" by (simp add: bb_def c mult.commute)
  have len: "length (stream v segs) \<le> 8 * c" using assms(3) by (simp add: fits_def c)
  have "is_bits bb" "length bb = c * 8" "length bb < 2 ^ 31"
    using length_padded[OF len] is_bits_padded[OF is_bits_stream[OF assms(4)]] c(2)
    by (simp_all add: bb)
  from bytes_bits_packBits[OF this] show "bytes_bits (packBits bb) = bb"
    "int (length (packBits bb)) = data_codewords v l" "list_all byte_valid (packBits bb)"
    by (auto simp: c list_all_iff byte_valid_def)
qed

section \<open>Reading the codewords back\<close>

definition eci_bits :: "int \<Rightarrow> bits" where
  "eci_bits v =
     (if v < 2 ^ 7 then bits_of 8 v
      else if v < 2 ^ 14 then bits_of 2 2 @ bits_of 14 v
      else bits_of 3 6 @ bits_of 21 v)"

definition eci_decode :: "bits \<Rightarrow> (int \<times> bits) option" where
  "eci_decode bs =
     (case bs of b # bs \<Rightarrow>
        if b = 0 then read_num 7 bs
        else (case bs of b # bs \<Rightarrow>
                if b = 0 then read_num 14 bs
                else (case bs of _ # bs \<Rightarrow> read_num 21 bs | [] \<Rightarrow> None)
              | [] \<Rightarrow> None)
      | [] \<Rightarrow> None)"

lemma eci_decode_bits:
  assumes "0 \<le> v" "v < 1000000"
  shows "eci_decode (eci_bits v @ rest) = Some (v, rest)"
proof -
  have "bits_of 8 v = 0 # bits_of 7 v" if "v < 2 ^ 7"
  proof -
    have "\<not> bit v 7" using that assms(1) by (simp add: bit_iff_odd)
    moreover have "bits_of (Suc 7) v = of_bool (bit v 7) # bits_of 7 v" by (rule bits_of_Suc)
    ultimately show ?thesis by simp
  qed
  moreover have "bits_of 2 2 = [1, 0]" "bits_of 3 6 = [1, 1, 0]" by code_simp+
  ultimately show ?thesis
    using assms by (auto simp: eci_bits_def eci_decode_def read_num_bits_of)
qed

lemma is_bits_eci_bits [simp]: "is_bits (eci_bits v)"
  by (simp add: eci_bits_def)

lemma makeEci_eq:
  "makeEci v = (if 0 \<le> v \<and> v < 1000000 then Inr \<lparr>seg_mode = ECI, numChars = 0, bitData = eci_bits v\<rparr>
                else Inl (RangeError ''ECI assignment value out of range''))"
proof -
  have s: "js_shl 1 7 = 128" "js_shl 1 14 = 16384" using js_shl_1[of 7] js_shl_1[of 14] by simp_all
  have p: "(2 :: int) ^ 7 = 128" "(2 :: int) ^ 14 = 16384" by simp_all
  have seg: "new_QrSegment ECI 0 bb = Inr \<lparr>seg_mode = ECI, numChars = 0, bitData = bb\<rparr>" for bb
    by (simp add: new_QrSegment_def)
  have b8: "appendBits v 8 [] = Inr (bits_of 8 v)" if "0 \<le> v" "v < 128"
    using that appendBits_numeral[of v 8 8 "[]"] by simp
  have b14: "appendBits v 14 bb = Inr (bb @ bits_of 14 v)" if "0 \<le> v" "v < 16384" for bb
    using that appendBits_numeral[of v 14 14 bb] by simp
  have b21: "appendBits v 21 bb = Inr (bb @ bits_of 21 v)" if "0 \<le> v" "v < 1000000" for bb
    using that appendBits_numeral[of v 21 21 bb] by simp
  have t: "appendBits 2 2 [] = Inr (bits_of 2 2)" "appendBits 6 3 [] = Inr (bits_of 3 6)"
    by (rule appendBits_numeral[where bb = "[]", unfolded append_Nil]; simp)+
  have "\<not> 0 \<le> v \<longleftrightarrow> v < 0" by linarith
  then show ?thesis
    unfolding makeEci_def eci_bits_def s p t bindE.simps
    by (cases "v < 0"; cases "v < 128"; cases "v < 16384"; cases "v < 1000000")
       (simp_all only: b8 b14 b21 bindE.simps seg not_less if_True if_False simp_thms, simp_all add: seg)
qed

text \<open>What a segment says, and a reader of the bit stream that works from the standard's layout.\<close>

datatype payload = Digits jstr | Alnum jstr | Bytes "int list" | EciValue int

fun payload_segment :: "payload \<Rightarrow> segment" where
  "payload_segment (Digits s) = numeric_segment s"
| "payload_segment (Alnum s) = alnum_segment s"
| "payload_segment (Bytes bs) = byte_segment bs"
| "payload_segment (EciValue v) = \<lparr>seg_mode = ECI, numChars = 0, bitData = eci_bits v\<rparr>"

fun payload_ok :: "payload \<Rightarrow> bool" where
  "payload_ok (Digits s) \<longleftrightarrow> isNumeric s"
| "payload_ok (Alnum s) \<longleftrightarrow> isAlphanumeric s"
| "payload_ok (Bytes bs) \<longleftrightarrow> list_all byte_valid bs"
| "payload_ok (EciValue v) \<longleftrightarrow> 0 \<le> v \<and> v < 1000000"

definition mode_of_bits :: "int \<Rightarrow> mode option" where
  "mode_of_bits b = List.find (\<lambda>m. modeBits m = b) [NUMERIC, ALPHANUMERIC, BYTE, KANJI, ECI]"

fun read_payload :: "mode \<Rightarrow> nat \<Rightarrow> bits \<Rightarrow> (payload \<times> bits) option" where
  "read_payload NUMERIC n bs = map_option (map_prod Digits id) (numeric_decode n bs)"
| "read_payload ALPHANUMERIC n bs = map_option (map_prod Alnum id) (alnum_decode n bs)"
| "read_payload BYTE n bs = map_option (map_prod Bytes id) (byte_decode n bs)"
| "read_payload ECI n bs = map_option (map_prod EciValue id) (eci_decode bs)"
| "read_payload KANJI n bs = None"

text \<open>
  The reader stops at the terminator \<^verbatim>\<open>0000\<close> or when fewer than four bits are left. Every segment
  takes at least four bits, so fuel one above the number of bits is always enough.
\<close>

fun read_stream :: "nat \<Rightarrow> int \<Rightarrow> bits \<Rightarrow> payload list option" where
  "read_stream 0 version bs = None"
| "read_stream (Suc fuel) version bs =
     (case read_num 4 bs of
        None \<Rightarrow> Some []
      | Some (b, bs) \<Rightarrow>
          if b = 0 then Some []
          else Option.bind (mode_of_bits b) (\<lambda>m.
               Option.bind (read_num (nat (numCharCountBits m version)) bs) (\<lambda>(n, bs).
               Option.bind (read_payload m (nat n) bs) (\<lambda>(p, bs).
               map_option ((#) p) (read_stream fuel version bs)))))"

definition read_codewords :: "int \<Rightarrow> int list \<Rightarrow> payload list option" where
  "read_codewords version dc = read_stream (Suc (length (bytes_bits dc))) version (bytes_bits dc)"

lemma mode_of_modeBits: "mode_of_bits (modeBits m) = Some m"
  by (cases m) (simp_all add: mode_of_bits_def)

lemma seg_ok_payload [simp]: "payload_ok p \<Longrightarrow> seg_ok (payload_segment p)"
  by (cases p) (simp_all add: seg_ok_def)

lemma read_payload_bits:
  "payload_ok p \<Longrightarrow> read_payload (seg_mode (payload_segment p)) (nat (numChars (payload_segment p)))
     (bitData (payload_segment p) @ rest) = Some (p, rest)"
  by (cases p) (simp_all add: num.dec_enc alnum.dec_enc byt.dec_enc eci_decode_bits)

definition ends_stream :: "bits \<Rightarrow> bool" where
  "ends_stream rst \<longleftrightarrow> length rst < 4 \<or> take 4 rst = replicate 4 0"

lemma read_stream_tail: "ends_stream rst \<Longrightarrow> read_stream (Suc fuel) version rst = Some []"
  by (auto simp: read_num_def ends_stream_def bits_val_def numeral_eq_Suc)

lemma modeBits_range: "1 \<le> modeBits m" "modeBits m < 2 ^ 4"
  by (cases m; simp)+

lemma read_stream_segments:
  assumes "1 \<le> version" "version \<le> 40" "ends_stream rst"
  shows "list_all payload_ok ps \<Longrightarrow>
    \<forall>seg \<in> set (map payload_segment ps). numChars seg < 2 ^ count_bits version seg \<Longrightarrow>
    length ps < fuel \<Longrightarrow> read_stream fuel version (stream version (map payload_segment ps) @ rst) = Some ps"
proof (induction ps arbitrary: fuel)
  case Nil
  then show ?case using read_stream_tail[OF assms(3)] by (cases fuel) simp_all
next
  case (Cons p ps)
  obtain f where f: "fuel = Suc f" using Cons.prems(3) by (cases fuel) auto
  let ?seg = "payload_segment p" and ?rest = "stream version (map payload_segment ps) @ rst"
  have n: "0 \<le> numChars ?seg" "numChars ?seg < 2 ^ count_bits version ?seg"
    using Cons.prems(1,2) seg_ok_payload[of p] by (auto simp: seg_ok_def simp del: seg_ok_payload)
  have "read_stream f version ?rest = Some ps" using Cons f by simp
  moreover have "read_num 4 (bits_of 4 (modeBits (seg_mode ?seg)) @ r) = Some (modeBits (seg_mode ?seg), r)" for r
    using modeBits_range[of "seg_mode ?seg"] by (intro read_num_bits_of) auto
  moreover have "modeBits (seg_mode ?seg) \<noteq> 0" using modeBits_range(1)[of "seg_mode ?seg"] by linarith
  ultimately show ?case
    using Cons.prems(1) read_num_bits_of[OF n] read_payload_bits[of p ?rest]
    by (simp add: f seg_bits_def mode_of_modeBits)
qed

lemma padded_tail:
  assumes "length bb \<le> 8 * c"
  obtains rst where "padded (8 * int c) bb = bb @ rst" "ends_stream rst"
proof -
  let ?t = "min 4 (8 * c - length bb)"
  have t: "nat (min 4 (8 * int c - int (length bb))) = ?t" using assms by (auto simp: min_def)
  obtain r where r: "padded (8 * int c) bb = bb @ replicate ?t 0 @ r"
    by (simp add: padded_def terminated_def Let_def t)
  have "length (replicate ?t 0 @ r) = 8 * c - length bb"
    using length_padded[OF assms] unfolding r by simp
  then have "ends_stream (replicate ?t 0 @ r)" by (auto simp: ends_stream_def min_def split: if_splits)
  with r show thesis by (rule that)
qed

lemma length_stream: "4 * length segs \<le> length (stream version segs)"
  by (induction segs) (simp_all add: seg_bits_def)

lemma read_codewords_packed:
  assumes "1 \<le> v" "v \<le> 40" "fits (map payload_segment ps) v l" "list_all payload_ok ps"
  shows "read_codewords v (packBits (padded (data_codewords v l * 8) (stream v (map payload_segment ps)))) = Some ps"
proof -
  let ?segs = "map payload_segment ps"
  have ok: "\<forall>seg \<in> set ?segs. seg_ok seg" using assms(4) by (auto simp: list_all_iff)
  define c where "c = nat (data_codewords v l)"
  have c: "data_codewords v l * 8 = 8 * int c"
    using data_codewords_bounds(1)[OF assms(1,2), of l] by (simp add: c_def)
  have len: "length (stream v ?segs) \<le> 8 * c"
    using fits_stream[OF assms(3)] unfolding c by linarith
  obtain rst where rst: "padded (8 * int c) (stream v ?segs) = stream v ?segs @ rst" "ends_stream rst"
    by (rule padded_tail[OF len])
  have bits: "bytes_bits (packBits (padded (8 * int c) (stream v ?segs))) = stream v ?segs @ rst"
    using padded_facts(1)[OF assms(1-3) ok] by (simp add: c rst(1))
  have "length ps < Suc (length (stream v ?segs @ rst))"
    using length_stream[of ?segs v] by simp
  then show ?thesis
    unfolding read_codewords_def c bits
    using read_stream_segments[OF assms(1,2) rst(2) assms(4)] assms(3)
    by (simp add: fits_def del: read_stream.simps)
qed

lemma encode_data_spec:
  assumes "args_ok minV maxV msk" "\<forall>seg \<in> set segs. seg_ok seg"
  shows "case encode_data segs ecl minV maxV msk boostEcl of
      Inl e \<Rightarrow> e = RangeError ''Data too long'' \<and> (\<forall>v \<in> {minV..maxV}. \<not> fits segs v ecl)
    | Inr (v, l, dc) \<Rightarrow> minV \<le> v \<and> v \<le> maxV \<and> fits segs v ecl \<and> (\<forall>w \<in> {minV..<v}. \<not> fits segs w ecl)
        \<and> ecl \<le> l \<and> fits segs v l \<and> (if boostEcl then \<forall>m. fits segs v m \<longrightarrow> m \<le> l else l = ecl)
        \<and> getNumDataCodewords v l = Inr (int (length dc)) \<and> list_all byte_valid dc"
proof -
  have args: "1 \<le> minV" "minV \<le> maxV" "maxV \<le> 40" using assms(1) by (auto simp: args_ok_def)
  show ?thesis
  proof (cases "version_loop segs ecl maxV minV")
    case (Inl e)
    then show ?thesis
      using version_loop_spec[OF args, of segs ecl] by (simp add: encode_data_eq[OF assms])
  next
    case (Inr vu)
    then obtain v used where vu: "vu = (v, used)" "minV \<le> v" "v \<le> maxV" "fits segs v ecl"
      "\<forall>w \<in> {minV..<v}. \<not> fits segs w ecl"
      using version_loop_spec[OF args, of segs ecl] by (cases vu) auto
    then have v: "1 \<le> v" "v \<le> 40" using args by auto
    let ?l = "chosen_level boostEcl segs v ecl"
    note lvl = chosen_level[OF v vu(4), of boostEcl]
    have "if boostEcl then \<forall>m. fits segs v m \<longrightarrow> m \<le> ?l else ?l = ecl"
      using boosted_greatest(2)[OF v vu(4)] by (simp add: chosen_level_def)
    then show ?thesis
      using vu Inr lvl padded_facts(2,3)[OF v lvl(1) assms(2)] v
      by (simp add: encode_data_eq[OF assms] Let_def getNumDataCodewords_eq)
  qed
qed

lemma encode_data_reads:
  assumes "args_ok minV maxV msk" "list_all payload_ok ps"
    and "encode_data (map payload_segment ps) ecl minV maxV msk boostEcl = Inr (v, l, dc)"
  shows "read_codewords v dc = Some ps"
proof -
  have args: "1 \<le> minV" "minV \<le> maxV" "maxV \<le> 40" using assms(1) by (auto simp: args_ok_def)
  let ?segs = "map payload_segment ps"
  have ok: "\<forall>seg \<in> set ?segs. seg_ok seg" using assms(2) by (auto simp: list_all_iff)
  obtain used where vl: "version_loop ?segs ecl maxV minV = Inr (v, used)"
    "l = chosen_level boostEcl ?segs v ecl" "dc = packBits (padded (data_codewords v l * 8) (stream v ?segs))"
    using assms(3) by (auto simp: encode_data_eq[OF assms(1) ok] Let_def split: sum.splits)
  then have "minV \<le> v" "v \<le> maxV" "fits ?segs v ecl"
    using version_loop_spec[OF args, of ?segs ecl] by auto
  then have v: "1 \<le> v" "v \<le> 40" "fits ?segs v l"
    using args chosen_level(1)[of v ?segs ecl boostEcl] by (auto simp: vl(2))
  show ?thesis unfolding vl(3) by (rule read_codewords_packed[OF v assms(2)])
qed

section \<open>Properties\<close>

text \<open>
  C35: \<^verbatim>\<open>makeEci\<close> accepts exactly the assignment values below one million, and a reader gets the
  value back from the designator, whatever follows it.
\<close>
theorem makeEci_roundtrip:
  "case makeEci v of
     Inl e \<Rightarrow> e = RangeError ''ECI assignment value out of range'' \<and> \<not> (0 \<le> v \<and> v < 1000000)
   | Inr seg \<Rightarrow> 0 \<le> v \<and> v < 1000000 \<and> seg_mode seg = ECI \<and> numChars seg = 0 \<and>
       eci_decode (getData seg @ rest) = Some (v, rest)"
  by (auto simp: makeEci_eq getData_def eci_decode_bits)

text \<open>
  C13: For valid arguments and segments whose data are bits, the data half of \<^verbatim>\<open>encodeSegments\<close>
  throws only \<^verbatim>\<open>Data too long\<close>, and only when no version of the range fits the segments at the
  level asked for; none of its assertions fails. Otherwise it picks the smallest version that
  fits, a level at which the data still fit that is not below the one asked for (the highest such
  level when \<^verbatim>\<open>boostEcl\<close> is set), and returns exactly as many byte codewords as
  \<^verbatim>\<open>getNumDataCodewords\<close> announces.
\<close>
theorem encode_data_correct:
  assumes "args_ok minV maxV msk" "\<forall>seg \<in> set segs. seg_ok seg"
  shows "case encode_data segs ecl minV maxV msk boostEcl of
      Inl e \<Rightarrow> e = RangeError ''Data too long'' \<and> (\<forall>v \<in> {minV..maxV}. \<not> fits segs v ecl)
    | Inr (v, l, dc) \<Rightarrow> minV \<le> v \<and> v \<le> maxV \<and> fits segs v ecl \<and> (\<forall>w \<in> {minV..<v}. \<not> fits segs w ecl)
        \<and> ecl \<le> l \<and> fits segs v l \<and> (if boostEcl then \<forall>m. fits segs v m \<longrightarrow> m \<le> l else l = ecl)
        \<and> getNumDataCodewords v l = Inr (int (length dc)) \<and> list_all byte_valid dc"
  by (rule encode_data_spec[OF assms])

theorem encode_data_correct_witness:
  "\<exists>dc. encode_data [numeric_segment (lit ''12345678'')] LOW 1 40 (-1) True = Inr (1, HIGH, dc) \<and> length dc = 9"
proof -
  obtain segs where segs: "segs = [numeric_segment (lit ''12345678'')]" by simp
  have f: "fits segs 1 LOW" "fits segs 1 HIGH" unfolding segs by code_simp+
  have n: "getNumDataCodewords 1 HIGH = Inr 9" by code_simp
  have r: "args_ok 1 40 (-1)" "\<forall>seg \<in> set segs. seg_ok seg"
    by (simp_all add: args_ok_def seg_ok_def segs)
  note c = encode_data_correct[OF r, of LOW True]
  have "\<not> (\<forall>v \<in> {1..40}. \<not> fits segs v LOW)" using f(1) by force
  then obtain v l dc where x: "encode_data segs LOW 1 40 (-1) True = Inr (v, l, dc)"
    using c by (cases "encode_data segs LOW 1 40 (-1) True") auto
  have "v = 1" using c f(1) unfolding x by force
  moreover have "l = HIGH"
    using c f(2) \<open>v = 1\<close> unfolding x by (cases l) (auto simp: less_eq_ecc_def)
  ultimately show ?thesis
    using c n x unfolding segs [symmetric] by simp
qed

text \<open>
  C12: Nothing is lost: a reader of the bit stream recovers from the data codewords the digits,
  the text, the bytes and the ECI values of the segments, in order, and stops at the terminator.
\<close>
theorem encode_data_roundtrip:
  assumes "args_ok minV maxV msk" "list_all payload_ok ps"
    and "encode_data (map payload_segment ps) ecl minV maxV msk boostEcl = Inr (v, l, dc)"
  shows "read_codewords v dc = Some ps"
  by (rule encode_data_reads[OF assms])

theorem encode_data_roundtrip_witness:
  "\<exists>v l dc. encode_data [numeric_segment (lit ''2024''), byte_segment [0, 255]] MEDIUM 1 40 3 False = Inr (v, l, dc)
     \<and> read_codewords v dc = Some [Digits (lit ''2024''), Bytes [0, 255]]"
proof -
  let ?ps = "[Digits (lit ''2024''), Bytes [0, 255]]"
  have r: "args_ok 1 40 3" "list_all payload_ok ?ps" by code_simp+
  have ok: "\<forall>seg \<in> set (map payload_segment ?ps). seg_ok seg" by (simp add: seg_ok_def)
  have "fits (map payload_segment ?ps) 1 MEDIUM" by code_simp
  then obtain v u where "version_loop (map payload_segment ?ps) MEDIUM 40 1 = Inr (v, u)"
    using version_loop_spec[of 1 40 "map payload_segment ?ps" MEDIUM]
    by (cases "version_loop (map payload_segment ?ps) MEDIUM 40 1") auto
  then obtain l dc where e: "encode_data (map payload_segment ?ps) MEDIUM 1 40 3 False = Inr (v, l, dc)"
    unfolding encode_data_eq[OF r(1) ok] by (simp add: Let_def)
  from e encode_data_roundtrip[OF r e] show ?thesis by auto
qed

end
