(* ===== verification/GF256.thy ===== *)
theory GF256
  imports Bits
begin

text \<open>
  \<^verbatim>\<open>QrCode.reedSolomonMultiply\<close> of \<^verbatim>\<open>frontend/js/qrcodegen.js\<close>, Russian peasant multiplication
  modulo the polynomial 0x11D, and the proof that it is the multiplication of a field.

  The source's comment calls its operands elements of GF(2^8/0x11D). Here \<^verbatim>\<open>gf\<close> is that
  structure: bytes with exclusive or as addition and the source's loop, on words, as
  multiplication; it is shown to be an instance of the library's class \<^verbatim>\<open>field\<close>, so the
  algebra of the Reed-Solomon proofs is the library's. \<^verbatim>\<open>reedSolomonMultiply_gf\<close> is the
  refinement: on bytes the code returns exactly the field product, elsewhere it throws.
\<close>

section \<open>The code\<close>

definition rs_mul_step :: "int \<Rightarrow> int \<Rightarrow> int \<Rightarrow> int \<Rightarrow> int" where
  "rs_mul_step x y i z =
     (let z = js_xor (js_shl z 1) (js_ushr z 7 * 0x11D)
      in js_xor z (js_and (js_ushr y i) 1 * x))"

definition reedSolomonMultiply :: "int \<Rightarrow> int \<Rightarrow> int js" where
  "reedSolomonMultiply x y =
     (if js_ushr x 8 \<noteq> 0 \<or> js_ushr y 8 \<noteq> 0 then Inl (RangeError ''Byte out of range'')
      else let z = fold (rs_mul_step x y) [7, 6, 5, 4, 3, 2, 1, 0] 0
           in bindE (assertE (js_ushr z 8 = 0)) (\<lambda>_. Inr z))"

section \<open>Field elements\<close>

datatype gf = GF (byte_of: "8 word")

definition xtime :: "8 word \<Rightarrow> 8 word" where
  "xtime w = push_bit 1 w XOR (if bit w 7 then 0x1D else 0)"

definition mul_step :: "8 word \<Rightarrow> 8 word \<Rightarrow> nat \<Rightarrow> 8 word \<Rightarrow> 8 word" where
  "mul_step x y i z = xtime z XOR (if bit y i then x else 0)"

definition wmul :: "8 word \<Rightarrow> 8 word \<Rightarrow> 8 word" where
  "wmul x y = fold (mul_step x y) [7, 6, 5, 4, 3, 2, 1, 0] 0"

lemma xtime_xor: "xtime (a XOR b) = xtime a XOR xtime b"
  by (simp add: xtime_def push_bit_xor bit_xor_iff ac_simps)

lemma xtime_0 [simp]: "xtime 0 = 0"
  by (simp add: xtime_def)

lemma fold_mul_step_xor_left:
  "fold (mul_step (a XOR b) y) js (u XOR v) = fold (mul_step a y) js u XOR fold (mul_step b y) js v"
proof (induction js arbitrary: u v)
  case (Cons i js)
  have "mul_step (a XOR b) y i (u XOR v) = mul_step a y i u XOR mul_step b y i v"
    by (simp add: mul_step_def xtime_xor ac_simps)
  then show ?case by (simp add: Cons.IH)
qed simp

lemma fold_mul_step_xor_right:
  "fold (mul_step x (a XOR b)) js (u XOR v) = fold (mul_step x a) js u XOR fold (mul_step x b) js v"
proof (induction js arbitrary: u v)
  case (Cons i js)
  have "mul_step x (a XOR b) i (u XOR v) = mul_step x a i u XOR mul_step x b i v"
    by (simp add: mul_step_def xtime_xor bit_xor_iff ac_simps)
  then show ?case by (simp add: Cons.IH)
qed simp

lemma wmul_xor: "wmul (a XOR b) y = wmul a y XOR wmul b y" "wmul x (a XOR b) = wmul x a XOR wmul x b"
  using fold_mul_step_xor_left[of a b y "[7, 6, 5, 4, 3, 2, 1, 0]" 0 0]
    fold_mul_step_xor_right[of x a b "[7, 6, 5, 4, 3, 2, 1, 0]" 0 0]
  by (simp_all only: wmul_def xor.right_neutral)

text \<open>
  Two additive functions of a byte agree when they agree on the eight powers of two: this
  reduces the ring laws to finitely many products of single bits.
\<close>

definition additive :: "(8 word \<Rightarrow> 8 word) \<Rightarrow> bool" where
  "additive f \<longleftrightarrow> (\<forall>a b. f (a XOR b) = f a XOR f b)"

definition basis :: "8 word list" where
  "basis = [1, 2, 4, 8, 16, 32, 64, 128]"

definition part :: "8 word \<Rightarrow> nat \<Rightarrow> 8 word" where
  "part w i = (if bit w i then 2 ^ i else 0)"

lemma basis_expand:
  "w = fold (\<lambda>i a. part w i XOR a) [0..<8] 0"
proof (rule bit_word_eqI)
  fix n assume "n < LENGTH(8)"
  then have "n \<in> set [0..<8]" by simp
  moreover have "bit (fold (\<lambda>i a. part w i XOR a) js v) n \<longleftrightarrow> (if n \<in> set js then bit w n \<noteq> bit v n else bit v n)"
    if "distinct js" "\<forall>i \<in> set js. i < 8" for js v
    using that
    by (induction js arbitrary: v) (auto simp: part_def bit_xor_iff bit_exp_iff)
  from this [of "[0..<8]" 0] have "bit (fold (\<lambda>i a. part w i XOR a) [0..<8] 0) n
      \<longleftrightarrow> (if n \<in> set [0..<8] then bit w n \<noteq> bit (0 :: 8 word) n else bit (0 :: 8 word) n)"
    by simp
  ultimately show "bit w n \<longleftrightarrow> bit (fold (\<lambda>i a. part w i XOR a) [0..<8] 0) n"
    by (simp del: upt_rec_numeral)
qed

lemma additive_0: "additive f \<Longrightarrow> f 0 = 0"
  by (metis additive_def xor.right_neutral xor_self_eq)

lemma additive_fold:
  "additive f \<Longrightarrow> f (fold (\<lambda>i a. part w i XOR a) js v) = fold (\<lambda>i a. f (part w i) XOR a) js (f v)"
  by (induction js arbitrary: v) (auto simp: additive_def)

lemma additive_eqI:
  assumes "additive f" "additive g" "\<And>b. b \<in> set basis \<Longrightarrow> f b = g b"
  shows "f w = g w"
proof -
  have p: "f (part w i) = g (part w i)" if "i < 8" for i
  proof -
    have "2 ^ i \<in> set basis" using that by (auto simp: basis_def less_Suc_eq numeral_eq_Suc)
    then show ?thesis
      using assms(3) by (simp add: part_def additive_0[OF assms(1)] additive_0[OF assms(2)])
  qed
  have e: "h w = fold (\<lambda>i a. h (part w i) XOR a) [0..<8] 0" if "additive h" for h
    by (rule trans [OF arg_cong [where f = h, OF basis_expand [of w]]])
       (simp only: additive_fold [OF that] additive_0 [OF that])
  have "fold (\<lambda>i a. f (part w i) XOR a) [0..<8] 0 = fold (\<lambda>i a. g (part w i) XOR a) [0..<8] 0"
    by (rule fold_cong) (auto simp: p simp del: upt_rec_numeral)
  then show ?thesis unfolding e [OF assms(1)] e [OF assms(2)] .
qed

lemma additive_wmul [simp]:
  "additive (wmul x)" "additive (\<lambda>x. wmul x y)"
  "additive (\<lambda>x. wmul x (wmul y z))" "additive (\<lambda>x. wmul (wmul x y) z)"
  "additive (\<lambda>x. wmul x (xtime y))" "additive (\<lambda>x. xtime (wmul x y))" "additive (\<lambda>x. x)"
  by (simp_all add: additive_def wmul_xor xtime_xor)

lemma basis_power: "b \<in> set basis \<Longrightarrow> \<exists>i. b = (xtime ^^ i) 1"
proof -
  assume "b \<in> set basis"
  moreover have "basis = map (\<lambda>i. (xtime ^^ i) 1) [0, 1, 2, 3, 4, 5, 6, 7]" by code_simp
  ultimately have "b \<in> (\<lambda>i. (xtime ^^ i) 1) ` set [0, 1, 2, 3, 4, 5, 6, 7]"
    by (metis list.set_map)
  then show ?thesis by blast
qed

lemma wmul_1_basis: "list_all (\<lambda>b. wmul 1 b = b \<and> wmul b 1 = b) basis"
  by code_simp

lemma wmul_1 [simp]: "wmul 1 y = y" "wmul y 1 = y"
proof -
  show "wmul 1 y = y"
    by (rule additive_eqI [where f = "wmul 1" and g = "\<lambda>y. y"])
       (use wmul_1_basis in \<open>auto simp: list_all_iff\<close>)
  show "wmul y 1 = y"
    by (rule additive_eqI [where f = "\<lambda>y. wmul y 1" and g = "\<lambda>y. y"])
       (use wmul_1_basis in \<open>auto simp: list_all_iff\<close>)
qed

lemma fold_mul_step_xtime:
  "fold (mul_step (xtime x) y) js (xtime z) = xtime (fold (mul_step x y) js z)"
proof (induction js arbitrary: z)
  case (Cons i js)
  have "mul_step (xtime x) y i (xtime z) = xtime (mul_step x y i z)"
    by (simp add: mul_step_def xtime_xor)
  then show ?case by (simp add: Cons.IH)
qed simp

lemma wmul_xtime_left: "wmul (xtime x) y = xtime (wmul x y)"
  using fold_mul_step_xtime[of x y "[7, 6, 5, 4, 3, 2, 1, 0]" 0]
  by (simp only: wmul_def xtime_0)

lemma wmul_xtime_pow: "wmul ((xtime ^^ i) x) y = (xtime ^^ i) (wmul x y)"
  by (induction i) (simp_all add: wmul_xtime_left)

lemma wmul_xtime_right: "wmul x (xtime y) = xtime (wmul x y)"
proof (rule additive_eqI [where f = "\<lambda>x. wmul x (xtime y)" and g = "\<lambda>x. xtime (wmul x y)"])
  fix b assume "b \<in> set basis"
  then obtain i where "b = (xtime ^^ i) 1" using basis_power by blast
  then show "wmul b (xtime y) = xtime (wmul b y)"
    by (simp add: wmul_xtime_pow flip: funpow_swap1)
qed simp_all

lemma wmul_xtime_pow_right: "wmul x ((xtime ^^ i) y) = (xtime ^^ i) (wmul x y)"
  by (induction i) (simp_all add: wmul_xtime_right)

lemma wmul_commute: "wmul x y = wmul y x"
proof (rule additive_eqI [where f = "\<lambda>x. wmul x y" and g = "wmul y"])
  fix b assume "b \<in> set basis"
  then obtain i where "b = (xtime ^^ i) 1" using basis_power by blast
  then show "wmul b y = wmul y b"
    by (simp add: wmul_xtime_pow wmul_xtime_pow_right)
qed simp_all

lemma wmul_assoc: "wmul (wmul x y) z = wmul x (wmul y z)"
proof (rule additive_eqI [where f = "\<lambda>x. wmul (wmul x y) z" and g = "\<lambda>x. wmul x (wmul y z)"])
  fix b assume "b \<in> set basis"
  then obtain i where "b = (xtime ^^ i) 1" using basis_power by blast
  then show "wmul (wmul b y) z = wmul b (wmul y z)"
    by (simp add: wmul_xtime_pow)
qed simp_all

lemma wmul_0 [simp]: "wmul 0 y = 0" "wmul x 0 = 0"
  using additive_0[OF additive_wmul(2)] additive_0[OF additive_wmul(1)] by auto

text \<open>The powers of the element 2 run through all nonzero bytes with period 255.\<close>

fun xtime_orbit :: "nat \<Rightarrow> 8 word \<Rightarrow> 8 word list" where
  "xtime_orbit 0 w = []"
| "xtime_orbit (Suc n) w = w # xtime_orbit n (xtime w)"

lemma xtime_orbit_255: "let ws = xtime_orbit 256 1 in last ws = 1 \<and> list_all (\<lambda>w. w \<noteq> 1) (tl (butlast ws))"
  by code_simp

section \<open>The field instance\<close>

instantiation gf :: comm_ring_1
begin

definition zero_gf :: gf where "zero_gf = GF 0"
definition one_gf :: gf where "one_gf = GF 1"
definition plus_gf :: "gf \<Rightarrow> gf \<Rightarrow> gf" where "plus_gf a b = GF (byte_of a XOR byte_of b)"
definition minus_gf :: "gf \<Rightarrow> gf \<Rightarrow> gf" where "minus_gf a b = GF (byte_of a XOR byte_of b)"
definition uminus_gf :: "gf \<Rightarrow> gf" where "uminus_gf a = a"
definition times_gf :: "gf \<Rightarrow> gf \<Rightarrow> gf" where "times_gf a b = GF (wmul (byte_of a) (byte_of b))"

lemmas gf_defs = zero_gf_def one_gf_def plus_gf_def minus_gf_def uminus_gf_def times_gf_def

instance
proof
  fix a b c :: gf
  show "a * b * c = a * (b * c)" by (simp add: gf_defs wmul_assoc)
  show "a * b = b * a" by (simp add: gf_defs wmul_commute)
  show "(a + b) * c = a * c + b * c" by (simp add: gf_defs wmul_xor(1))
qed (auto simp: gf_defs ac_simps)

end

lemma gf_add_self [simp]: "a + a = (0 :: gf)"
  by (simp add: gf_defs)

lemma gf_two [simp]: "(2 :: gf) = 0"
  using gf_add_self[of 1] by (simp only: one_add_one)

lemma gf_minus [simp]: "- a = (a :: gf)"
  by (simp add: gf_defs)

lemma gf_diff [simp]: "a - b = a + (b :: gf)"
  by (simp add: gf_defs)

definition alpha :: gf where "alpha = GF 2"

lemma alpha_mult: "alpha * GF w = GF (xtime w)"
proof -
  have "xtime 1 = 2" by code_simp
  then show ?thesis by (simp add: alpha_def times_gf_def wmul_xtime_left flip: \<open>xtime 1 = 2\<close>)
qed

lemma alpha_power: "alpha ^ n = GF ((xtime ^^ n) 1)"
  by (induction n) (simp_all add: one_gf_def alpha_mult)

lemma nth_xtime_orbit: "i < n \<Longrightarrow> xtime_orbit n w ! i = (xtime ^^ i) w"
proof (induction n w arbitrary: i rule: xtime_orbit.induct)
  case (2 n w)
  then show ?case by (cases i) (auto simp: funpow_swap1)
qed simp

lemma length_xtime_orbit [simp]: "length (xtime_orbit n w) = n"
  by (induction n w rule: xtime_orbit.induct) auto

lemma alpha_255: "alpha ^ 255 = 1"
proof -
  have "last (xtime_orbit 256 1) = 1" using xtime_orbit_255 by (simp add: Let_def)
  moreover have "last (xtime_orbit 256 1) = xtime_orbit 256 1 ! 255"
    by (subst last_conv_nth) (auto simp flip: length_0_conv)
  ultimately show ?thesis by (simp add: alpha_power nth_xtime_orbit one_gf_def)
qed

lemma alpha_power_neq_1: "0 < d \<Longrightarrow> d < 255 \<Longrightarrow> alpha ^ d \<noteq> 1"
proof -
  assume d: "0 < d" "d < 255"
  have "\<forall>w \<in> set (tl (butlast (xtime_orbit 256 1))). w \<noteq> 1"
    using xtime_orbit_255 by (simp add: Let_def list_all_iff)
  moreover have "tl (butlast (xtime_orbit 256 1)) ! (d - 1) = xtime_orbit 256 1 ! d"
    using d by (simp add: nth_tl nth_butlast)
  moreover have "d - 1 < length (tl (butlast (xtime_orbit 256 1)))" using d by simp
  ultimately have "xtime_orbit 256 1 ! d \<noteq> 1" by (metis nth_mem)
  then show ?thesis using d by (simp add: alpha_power nth_xtime_orbit one_gf_def)
qed

lemma alpha_power_inj:
  assumes "i < 255" "j < 255" "alpha ^ i = alpha ^ j"
  shows "i = j"
proof -
  have ge: "m = n" if "m \<le> n" "n < 255" "alpha ^ m = alpha ^ n" for m n
  proof (rule ccontr)
    assume "m \<noteq> n"
    have "alpha ^ (255 - m) * alpha ^ m = alpha ^ (255 - m) * alpha ^ n"
      by (simp add: that(3))
    moreover have "255 - m + m = 255" "255 - m + n = 255 + (n - m)" using that by auto
    ultimately have "alpha ^ 255 = alpha ^ (255 + (n - m))"
      by (simp only: power_add [symmetric])
    then have "alpha ^ (n - m) = 1" by (simp add: power_add alpha_255)
    then show False using alpha_power_neq_1[of "n - m"] that \<open>m \<noteq> n\<close> by simp
  qed
  show ?thesis
    using ge[of i j] ge[of j i] assms by (cases "i \<le> j") auto
qed

lemma alpha_power_neq_0: "alpha ^ n \<noteq> 0"
proof
  assume "alpha ^ n = 0"
  then have "alpha ^ (n * 255) = 0" by (simp add: power_mult)
  then have "(1 :: gf) = 0" by (simp add: mult.commute[of n] power_mult alpha_255)
  then show False by simp
qed

lemma bij_GF: "bij GF"
  by (metis bijI' gf.exhaust gf.inject)

lemma gf_nonzero_alpha_power:
  assumes "x \<noteq> (0 :: gf)"
  obtains k where "k < 255" "x = alpha ^ k"
proof -
  let ?P = "(\<lambda>k. alpha ^ k) ` {..<255}"
  have UNIV: "(UNIV :: gf set) = GF ` UNIV" using bij_GF by (simp add: bij_is_surj)
  have fin: "finite (UNIV :: gf set)" unfolding UNIV by simp
  have c: "card (UNIV :: gf set) = 256"
    unfolding UNIV using bij_GF by (simp add: card_image bij_is_inj card_word)
  have "card ?P = 255"
    using alpha_power_inj by (subst card_image) (auto simp: inj_on_def)
  moreover have "card (UNIV - {0 :: gf}) = 255" using fin c by simp
  moreover have "?P \<subseteq> UNIV - {0}" using alpha_power_neq_0 by auto
  ultimately have "?P = UNIV - {0}"
    using fin by (intro card_subset_eq) auto
  then have "x \<in> ?P" using assms by auto
  then show ?thesis using that by auto
qed

lemma gf_power_255: "x \<noteq> 0 \<Longrightarrow> x ^ 255 = (1 :: gf)"
  by (metis alpha_255 gf_nonzero_alpha_power mult.commute power_mult power_one)

instantiation gf :: field
begin

definition inverse_gf :: "gf \<Rightarrow> gf" where "inverse_gf x = x ^ 254"
definition divide_gf :: "gf \<Rightarrow> gf \<Rightarrow> gf" where "divide_gf x y = x * y ^ 254"

instance
proof
  fix x :: gf
  assume "x \<noteq> 0"
  then have "x ^ Suc 254 = 1" using gf_power_255 by simp
  then show "inverse x * x = 1" by (simp only: inverse_gf_def power_Suc mult.commute)
qed (simp_all add: inverse_gf_def divide_gf_def)

end

section \<open>The code computes the field product\<close>

definition is_byte :: "int \<Rightarrow> bool" where
  "is_byte x \<longleftrightarrow> 0 \<le> x \<and> x < 256"

definition gf_of :: "int \<Rightarrow> gf" where "gf_of x = GF (word_of_int x)"
definition int_of :: "gf \<Rightarrow> int" where "int_of g = uint (byte_of g)"

lemma gf_of_int_of [simp]: "gf_of (int_of g) = g"
  by (simp add: gf_of_def int_of_def)

lemma int_of_gf_of [simp]: "is_byte x \<Longrightarrow> int_of (gf_of x) = x"
  by (simp add: gf_of_def int_of_def is_byte_def uint_word_of_int)

lemma is_byte_int_of [simp]: "is_byte (int_of g)"
  using uint_lt2p[of "byte_of g"] by (simp add: is_byte_def int_of_def)

lemma is_byte_simps [simp]: "is_byte 0" "is_byte 1" "is_byte 2"
  by (simp_all add: is_byte_def)

lemma gf_of_0 [simp]: "gf_of 0 = 0" and gf_of_1 [simp]: "gf_of 1 = 1" and gf_of_2: "gf_of 2 = alpha"
  by (simp_all add: gf_of_def gf_defs alpha_def)

lemma int_of_0 [simp]: "int_of 0 = 0" and int_of_1 [simp]: "int_of 1 = 1"
  by (simp_all add: int_of_def gf_defs)

lemma is_byte_js_xor:
  assumes "is_byte a" "is_byte b"
  shows "js_xor a b = int_of (gf_of a + gf_of b)"
  using assms
  by (simp add: js_bitwise_nonneg is_byte_def int_of_def gf_of_def plus_gf_def uint_xor
        uint_word_of_int)

lemma xor_285: "0 \<le> t \<Longrightarrow> t < 256 \<Longrightarrow> (256 + t) XOR 285 = t XOR (29 :: int)"
proof -
  assume t: "0 \<le> t" "t < 256"
  have "256 + t = 2 ^ 8 XOR t"
  proof (rule bit_eqI)
    fix i
    have hi: "i \<ge> 8 \<Longrightarrow> \<not> bit t i"
      using t bit_add_high[of t 8 0 i] by simp
    have "bit (2 ^ 8 :: int) i \<longleftrightarrow> i = 8" unfolding bit_exp_iff by simp
    then show "bit (256 + t) i \<longleftrightarrow> bit (2 ^ 8 XOR t) i"
      using t bit_add_high[of t 8 1 i] hi by (auto simp: bit_xor_iff bit_1_iff)
  qed
  then have "(256 + t) XOR 285 = t XOR (2 ^ 8 XOR 285)" by (simp only: ac_simps)
  then show ?thesis by simp
qed

lemma xtime_int:
  assumes "is_byte z"
  shows "js_xor (js_shl z 1) (js_ushr z 7 * 0x11D) = uint (xtime (word_of_int z))"
proof -
  have z: "0 \<le> z" "z < 256" using assms by (auto simp: is_byte_def)
  have shl: "js_shl z 1 = 2 * z" using z by (simp add: js_shl_nonneg)
  have ushr: "js_ushr z 7 = of_bool (128 \<le> z)"
  proof -
    have "z div 128 = of_bool (128 \<le> z)" using z by (auto simp: div_pos_pos_trivial intro: div_pos_geq[THEN trans])
    then show ?thesis using z by (simp add: js_ushr_nonneg)
  qed
  have bit: "bit (word_of_int z :: 8 word) 7 \<longleftrightarrow> 128 \<le> z"
  proof -
    have "z div 128 = of_bool (128 \<le> z)" using ushr z by (simp add: js_ushr_nonneg)
    then have "bit z 7 \<longleftrightarrow> 128 \<le> z" by (simp add: bit_iff_odd)
    then show ?thesis by (simp only: bit_word_of_int_iff) simp
  qed
  have dbl: "uint (push_bit 1 (word_of_int z) :: 8 word) = (2 * z) mod 256"
    by (simp add: push_bit_eq_mult uint_word_ariths uint_word_of_int mod_mult_left_eq mod_mult_right_eq mult.commute)
  have l: "js_xor (js_shl z 1) (js_ushr z 7 * 0x11D) = (2 * z) XOR (if 128 \<le> z then 285 else 0)"
    using z by (simp only: shl ushr) (simp add: js_bitwise_nonneg)
  have r: "uint (xtime (word_of_int z)) = ((2 * z) mod 256) XOR (if 128 \<le> z then 29 else 0)"
    by (simp only: xtime_def uint_xor dbl bit) simp
  show ?thesis
  proof (cases "128 \<le> z")
    case True
    define m where "m = nat (2 * z - 256)"
    have m: "m < 256" "2 * z = 256 + int m" using z True by (auto simp: m_def)
    then have "(256 + int m) XOR 285 = int m XOR 29" by (intro xor_285) auto
    moreover have "(2 * z) mod 256 = int m" using m by simp
    ultimately show ?thesis unfolding l r using True m(2) by (simp only: if_True)
  next
    case False
    then show ?thesis unfolding l r using z by simp
  qed
qed

lemma rs_mul_step_word:
  assumes "is_byte x" "is_byte y" "i < 8"
  shows "rs_mul_step x y (int i) (uint z) = uint (mul_step (word_of_int x) (word_of_int y) i z)"
proof -
  have "is_byte (uint z)" using uint_lt2p[of z] by (simp add: is_byte_def)
  then have t: "js_xor (js_shl (uint z) 1) (js_ushr (uint z) 7 * 0x11D) = int_of (GF (xtime z))"
    by (simp add: xtime_int int_of_def)
  have "bit (word_of_int y :: 8 word) i \<longleftrightarrow> bit y i"
    using assms(3) by (simp add: bit_word_of_int_iff)
  moreover have "js_and (js_ushr y (int i)) 1 * x = (if bit y i then x else 0)"
    using assms by (simp add: js_low_bit is_byte_def)
  ultimately show ?thesis
    using assms(1)
    by (simp add: rs_mul_step_def Let_def t is_byte_js_xor mul_step_def)
       (simp add: gf_of_def int_of_def plus_gf_def)
qed

lemma fold_rs_mul_step:
  assumes "is_byte x" "is_byte y" "\<forall>i \<in> set js. i < 8"
  shows "fold (rs_mul_step x y) (map int js) (uint z)
           = uint (fold (mul_step (word_of_int x) (word_of_int y)) js z)"
  using assms(3) by (induction js arbitrary: z) (simp_all add: rs_mul_step_word[OF assms(1,2)])

lemma reedSolomonMultiply_gf:
  assumes "is_byte x" "is_byte y"
  shows "reedSolomonMultiply x y = Inr (int_of (gf_of x * gf_of y))"
proof -
  have z: "fold (rs_mul_step x y) [7, 6, 5, 4, 3, 2, 1, 0] 0 = int_of (gf_of x * gf_of y)"
    using fold_rs_mul_step[OF assms, of "[7, 6, 5, 4, 3, 2, 1, 0]" 0]
    by (simp add: int_of_def times_gf_def gf_of_def wmul_def)
  have hi: "js_ushr v 8 = 0" if "is_byte v" for v
    using that by (simp add: js_ushr_nonneg is_byte_def)
  have "js_ushr (fold (rs_mul_step x y) [7, 6, 5, 4, 3, 2, 1, 0] 0) 8 = 0"
    unfolding z by (rule hi) simp
  then show ?thesis
    unfolding reedSolomonMultiply_def Let_def z using hi assms by simp
qed

lemma js_ushr_8: "js_ushr x 8 = 0 \<longleftrightarrow> to_uint32 x < 256"
proof -
  have "0 \<le> to_uint32 x" by (simp add: to_uint32_def)
  then show ?thesis by (auto simp: js_ushr_def drop_bit_eq_div zdiv_eq_0_iff)
qed

lemma fold_cong_fun: "(\<And>i z. i \<in> set js \<Longrightarrow> f i z = g i z) \<Longrightarrow> fold f js z = fold g js z"
  by (rule fold_cong) auto

lemma reedSolomonMultiply_coerce:
  "reedSolomonMultiply x y = reedSolomonMultiply (to_uint32 x) (to_uint32 y)"
proof -
  have bit: "js_and (js_ushr y i) 1 = 0 \<or> js_and (js_ushr y i) 1 = 1" for i
  proof -
    have "to_int32 (js_ushr y i) AND 1 = to_int32 (js_ushr y i) mod 2" by (simp add: and_one_eq)
    moreover have "to_int32 1 = 1" by (simp add: to_int32_def)
    ultimately show ?thesis by (simp add: js_and_def) linarith
  qed
  have "rs_mul_step x y i z = rs_mul_step (to_uint32 x) (to_uint32 y) i z" for i z
    using bit[of i] by (auto simp: rs_mul_step_def Let_def)
  then have "rs_mul_step x y = rs_mul_step (to_uint32 x) (to_uint32 y)" by blast
  then show ?thesis by (simp only: reedSolomonMultiply_def js_coerce)
qed

section \<open>Properties\<close>

text \<open>
  C30: \<^verbatim>\<open>reedSolomonMultiply\<close>, on any two integers, throws the RangeError exactly when one of
  them, read as an unsigned 32-bit value, does not fit a byte, and otherwise returns the byte of
  their product in the field GF(2^8/0x11D); its closing assertion never fails.
\<close>
theorem rs_multiply_is_field_product:
  "reedSolomonMultiply x y =
     (if to_uint32 x < 256 \<and> to_uint32 y < 256
      then Inr (int_of (gf_of (to_uint32 x) * gf_of (to_uint32 y)))
      else Inl (RangeError ''Byte out of range''))"
proof (cases "to_uint32 x < 256 \<and> to_uint32 y < 256")
  case True
  then have "is_byte (to_uint32 x)" "is_byte (to_uint32 y)"
    by (simp_all add: is_byte_def to_uint32_def)
  then show ?thesis
    using True reedSolomonMultiply_gf by (subst reedSolomonMultiply_coerce) simp
next
  case False
  then show ?thesis by (auto simp: reedSolomonMultiply_def js_ushr_8)
qed

end
