(* ===== verification/ReedSolomon.thy ===== *)
theory ReedSolomon
  imports GF256
begin

text \<open>
  \<^verbatim>\<open>QrCode.reedSolomonComputeDivisor\<close> and \<^verbatim>\<open>QrCode.reedSolomonComputeRemainder\<close> of
  \<^verbatim>\<open>frontend/js/qrcodegen.js\<close>, with their in-place array updates and inner loops, and the
  Reed-Solomon property of their results: the divisor is the product of the linear factors, a
  block followed by its remainder vanishes at the first powers of the generator, and two such
  blocks that differ at all differ in more places than there are error correction bytes.

  \<^verbatim>\<open>peval\<close> reads a byte list as a polynomial, highest power first, as the source's comment does.
\<close>

section \<open>The code\<close>

definition divisor_inner :: "int \<Rightarrow> nat \<Rightarrow> int list \<Rightarrow> int list js" where
  "divisor_inner root j result =
     bindE (reedSolomonMultiply (result ! j) root) (\<lambda>p.
       let result = result[j := p]
       in Inr (if j + 1 < length result
               then result[j := js_xor (result ! j) (result ! (j + 1))]
               else result))"

definition divisor_outer :: "nat \<Rightarrow> int list \<times> int \<Rightarrow> (int list \<times> int) js" where
  "divisor_outer i st =
     (let (result, root) = st
      in bindE (foldE (divisor_inner root) [0..<length result] result) (\<lambda>result.
         bindE (reedSolomonMultiply root 0x02) (\<lambda>root. Inr (result, root))))"

definition reedSolomonComputeDivisor :: "int \<Rightarrow> int list js" where
  "reedSolomonComputeDivisor degree =
     (if degree < 1 \<or> degree > 255 then Inl (RangeError ''Degree out of range'')
      else let result = fold (\<lambda>_ r. r @ [0]) [0..<nat (degree - 1)] [] @ [1]
           in bindE (foldE divisor_outer [0..<nat degree] (result, 1)) (\<lambda>(result, root).
              Inr result))"

definition remainder_inner :: "int \<Rightarrow> nat \<times> int \<Rightarrow> int list \<Rightarrow> int list js" where
  "remainder_inner factor ic result =
     (let (i, coef) = ic
      in bindE (reedSolomonMultiply coef factor) (\<lambda>p. Inr (result[i := js_xor (result ! i) p])))"

text \<open>\<^verbatim>\<open>shift\<close> of an empty array is \<^verbatim>\<open>undefined\<close>, which the exclusive or reads as 0.\<close>

definition remainder_step :: "int list \<Rightarrow> int \<Rightarrow> int list \<Rightarrow> int list js" where
  "remainder_step divisor b result =
     (let (first, rest) = (case result of [] \<Rightarrow> (0, []) | h # t \<Rightarrow> (h, t));
          factor = js_xor b first;
          result = rest @ [0]
      in foldE (remainder_inner factor) (List.enumerate 0 divisor) result)"

definition reedSolomonComputeRemainder :: "int list \<Rightarrow> int list \<Rightarrow> int list js" where
  "reedSolomonComputeRemainder data divisor =
     foldE (remainder_step divisor) data (map (\<lambda>_. 0) divisor)"

section \<open>Polynomials\<close>

definition peval :: "gf list \<Rightarrow> gf \<Rightarrow> gf" where
  "peval cs x = fold (\<lambda>c a. a * x + c) cs 0"

lemma peval_Nil [simp]: "peval [] x = 0"
  by (simp add: peval_def)

lemma fold_peval: "fold (\<lambda>c a. a * x + c) cs b = b * x ^ length cs + peval cs x"
proof (induction cs rule: rev_induct)
  case (snoc c cs)
  then show ?case by (simp add: peval_def algebra_simps)
qed simp

lemma peval_Cons: "peval (c # cs) x = c * x ^ length cs + peval cs x"
  by (simp add: peval_def fold_peval[of _ _ c, unfolded peval_def])

lemma peval_append: "peval (cs @ ds) x = peval cs x * x ^ length ds + peval ds x"
  by (simp add: peval_def fold_peval[of _ _ "fold (\<lambda>c a. a * x + c) cs 0", unfolded peval_def])

lemma peval_map2:
  "length xs = length ys \<Longrightarrow> peval (map2 (\<lambda>a b. a * r + b) xs ys) x = r * peval xs x + peval ys x"
  by (induction xs ys rule: list_induct2) (simp_all add: peval_Cons algebra_simps)

lemma peval_replicate_0 [simp]: "peval (replicate n 0) x = 0"
  by (induction n) (simp_all add: peval_Cons)

lemma peval_sum: "peval cs x = (\<Sum>j<length cs. cs ! j * x ^ (length cs - 1 - j))"
proof (induction cs)
  case (Cons c cs)
  have "(\<Sum>j<length (c # cs). (c # cs) ! j * x ^ (length (c # cs) - 1 - j))
      = c * x ^ length cs + (\<Sum>j<length cs. cs ! j * x ^ (length cs - Suc j))"
    by (simp add: sum.lessThan_Suc_shift del: sum.lessThan_Suc)
  then show ?case using Cons by (simp add: peval_Cons)
qed simp

section \<open>The divisor polynomial\<close>

definition mul_root :: "gf \<Rightarrow> gf list \<Rightarrow> gf list" where
  "mul_root r xs = map2 (\<lambda>a b. a * r + b) xs (tl xs @ [0])"

lemma length_mul_root [simp]: "xs \<noteq> [] \<Longrightarrow> length (mul_root r xs) = length xs"
  by (simp add: mul_root_def)

lemma peval_mul_root:
  "peval (mul_root r (c # cs)) x = (x + r) * peval (c # cs) x + c * x ^ Suc (length cs)"
proof -
  have "peval (mul_root r (c # cs)) x = r * peval (c # cs) x + peval cs x * x"
    by (simp add: mul_root_def peval_map2 peval_append peval_Cons del: zip_Cons_Cons list.map)
  then show ?thesis by (simp add: peval_Cons algebra_simps)
qed

lemma nth_mul_root:
  "j < length xs \<Longrightarrow> mul_root r xs ! j = xs ! j * r + (if j + 1 < length xs then xs ! (j + 1) else 0)"
  by (auto simp: mul_root_def nth_append nth_tl)

definition divisor_gf :: "nat \<Rightarrow> gf list" where
  "divisor_gf d = fold (\<lambda>i. mul_root (alpha ^ i)) [0..<d] (replicate (d - 1) 0 @ [1])"

lemma mul_root_shape:
  "\<exists>t'. mul_root r (replicate (Suc m) 0 @ 1 # t) = replicate m 0 @ 1 # t' \<and> length t' = Suc (length t)"
proof -
  have "replicate (Suc m) (0 :: gf) @ 1 # t = replicate m 0 @ 0 # 1 # t"
    by (simp add: replicate_append_same [symmetric] del: replicate_append_same)
  moreover have "tl (replicate (Suc m) (0 :: gf) @ 1 # t) @ [0] = replicate m 0 @ 1 # t @ [0]"
    by simp
  ultimately have "mul_root r (replicate (Suc m) 0 @ 1 # t)
      = replicate m 0 @ 1 # map2 (\<lambda>a b. a * r + b) (1 # t) (t @ [0])"
    unfolding mul_root_def by (simp add: zip_replicate map_replicate_const)
  then show ?thesis by simp
qed

lemma divisor_gf_steps:
  assumes "i < d"
  shows "\<exists>t. fold (\<lambda>i. mul_root (alpha ^ i)) [0..<i] (replicate (d - 1) 0 @ [1])
               = replicate (d - 1 - i) 0 @ 1 # t \<and> length t = i
             \<and> (\<forall>x. peval (1 # t) x = (\<Prod>k<i. x + alpha ^ k))"
  using assms
proof (induction i)
  case 0
  then show ?case by (simp add: peval_Cons)
next
  case (Suc i)
  then obtain t where t: "fold (\<lambda>i. mul_root (alpha ^ i)) [0..<i] (replicate (d - 1) 0 @ [1])
      = replicate (d - 1 - i) 0 @ 1 # t" "length t = i" "\<And>x. peval (1 # t) x = (\<Prod>k<i. x + alpha ^ k)"
    by auto
  define m where "m = d - 1 - Suc i"
  have m: "d - 1 - i = Suc m" using Suc.prems by (simp add: m_def)
  obtain t' where t': "mul_root (alpha ^ i) (replicate (Suc m) 0 @ 1 # t) = replicate m 0 @ 1 # t'"
    "length t' = Suc i" using mul_root_shape[of "alpha ^ i" m t] t(2) by auto
  have "peval (1 # t') x = (\<Prod>k<Suc i. x + alpha ^ k)" for x
  proof -
    have "peval (1 # t') x = peval (mul_root (alpha ^ i) (replicate (Suc m) 0 @ 1 # t)) x"
      by (simp only: t'(1)) (simp add: peval_append)
    also have "\<dots> = (x + alpha ^ i) * peval (1 # t) x"
      using peval_mul_root[of "alpha ^ i" 0 "replicate m 0 @ 1 # t" x] by (simp add: peval_append peval_Cons)
    finally show ?thesis by (simp add: t(3) mult.commute)
  qed
  then show ?case using t(1) t' m by (intro exI[of _ t']) (simp add: m_def)
qed

lemma divisor_gf:
  assumes "0 < d"
  shows "length (divisor_gf d) = d" "x ^ d + peval (divisor_gf d) x = (\<Prod>k<d. x + alpha ^ k)"
proof -
  obtain e where e: "d = Suc e" using assms by (cases d) auto
  obtain t where t: "fold (\<lambda>i. mul_root (alpha ^ i)) [0..<e] (replicate (d - 1) 0 @ [1]) = 1 # t"
    "length t = e" "\<And>x. peval (1 # t) x = (\<Prod>k<e. x + alpha ^ k)"
    using divisor_gf_steps[of e d] e by auto
  have d: "divisor_gf d = mul_root (alpha ^ e) (1 # t)"
    using t(1) e by (simp add: divisor_gf_def)
  show "length (divisor_gf d) = d" unfolding d by (simp add: e t(2))
  have "x ^ d + peval (divisor_gf d) x = (x + alpha ^ e) * peval (1 # t) x"
    unfolding d by (simp add: peval_mul_root t(2) e add.left_commute)
  then show "x ^ d + peval (divisor_gf d) x = (\<Prod>k<d. x + alpha ^ k)"
    by (simp add: t(3) e mult.commute)
qed

section \<open>The remainder\<close>

definition rem_step :: "gf list \<Rightarrow> gf \<Rightarrow> gf list \<Rightarrow> gf list" where
  "rem_step g b r = map2 (\<lambda>c a. c * (b + hd r) + a) g (tl r @ [0])"

definition remainder_gf :: "gf list \<Rightarrow> gf list \<Rightarrow> gf list" where
  "remainder_gf data g = fold (rem_step g) data (replicate (length g) 0)"

lemma length_rem_step: "length r = length g \<Longrightarrow> g \<noteq> [] \<Longrightarrow> length (rem_step g b r) = length g"
  by (simp add: rem_step_def)

lemma length_remainder_gf: "g \<noteq> [] \<Longrightarrow> length (remainder_gf data g) = length g"
proof -
  assume g: "g \<noteq> []"
  have "length r = length g \<Longrightarrow> length (fold (rem_step g) data r) = length g" for r
    by (induction data arbitrary: r) (simp_all add: length_rem_step g)
  then show ?thesis by (simp add: remainder_gf_def)
qed

text \<open>At a root of the divisor, the remainder is the shifted data: the division invariant.\<close>

lemma peval_rem_step:
  assumes "length r = length g" "g \<noteq> []" "x ^ length g = peval g x"
  shows "peval (rem_step g b r) x = x * peval r x + b * x ^ length g"
proof -
  obtain h t where r: "r = h # t" using assms(1,2) by (cases r) auto
  have "peval (rem_step g b r) x = (b + h) * peval g x + peval t x * x"
    using assms(1,2) by (simp add: rem_step_def r peval_append peval_Cons)
      (subst peval_map2[where r = "b + h"]; simp add: peval_append peval_Cons)
  also have "\<dots> = x * peval r x + b * x ^ length g"
  proof -
    have "x ^ length g = x * x ^ length t" using assms(1) by (simp add: r flip: power_Suc)
    then show ?thesis by (simp add: r peval_Cons algebra_simps flip: assms(3))
  qed
  finally show ?thesis .
qed

lemma peval_fold_rem_step:
  assumes "length r = length g" "g \<noteq> []" "x ^ length g = peval g x"
  shows "peval (fold (rem_step g) data r) x = peval r x * x ^ length data + peval data x * x ^ length g"
  using assms(1)
proof (induction data arbitrary: r)
  case (Cons b data)
  then have "peval (fold (rem_step g) data (rem_step g b r)) x
      = peval (rem_step g b r) x * x ^ length data + peval data x * x ^ length g"
    by (intro Cons.IH) (simp add: length_rem_step assms(2))
  then show ?case
    using Cons.prems by (simp add: peval_rem_step assms(2,3) peval_Cons algebra_simps)
qed simp

lemma peval_remainder_gf:
  assumes "g \<noteq> []" "x ^ length g = peval g x"
  shows "peval (data @ remainder_gf data g) x = 0"
  using peval_fold_rem_step[of "replicate (length g) 0" g x data] assms
  by (simp add: peval_append length_remainder_gf remainder_gf_def[symmetric])

lemma divisor_gf_root:
  assumes "i < d"
  shows "(alpha ^ i) ^ d = peval (divisor_gf d) (alpha ^ i)"
proof -
  have "(alpha ^ i) ^ d + peval (divisor_gf d) (alpha ^ i) = (\<Prod>k<d. alpha ^ i + alpha ^ k)"
    using assms by (intro divisor_gf(2)) auto
  also have "\<dots> = 0" using assms by (intro prod_zero bexI[of _ i]) auto
  finally show ?thesis by (metis add_eq_0_iff gf_minus)
qed

lemma syndromes_zero:
  "i < d \<Longrightarrow> peval (data @ remainder_gf data (divisor_gf d)) (alpha ^ i) = 0"
  by (rule peval_remainder_gf)
     (use divisor_gf(1)[of d] divisor_gf_root[of i d] in \<open>auto simp flip: length_0_conv\<close>)

section \<open>Distance\<close>

text \<open>
  A combination of distinct field elements whose first power sums vanish is trivial (the
  Vandermonde argument): multiply by the polynomial that is zero at all the others.
\<close>

lemma power_sums_extend:
  fixes a :: "gf \<Rightarrow> gf"
  assumes "\<And>i. i < d \<Longrightarrow> (\<Sum>X\<in>S. a X * X ^ i) = 0"
  shows "finite T \<Longrightarrow> i + card T < d \<Longrightarrow> (\<Sum>X\<in>S. a X * X ^ i * (\<Prod>Y\<in>T. X + Y)) = 0"
proof (induction T arbitrary: i rule: finite_induct)
  case empty
  then show ?case using assms by simp
next
  case (insert Y T)
  have "(\<Sum>X\<in>S. a X * X ^ i * (\<Prod>Y\<in>insert Y T. X + Y))
      = (\<Sum>X\<in>S. a X * X ^ Suc i * (\<Prod>Y\<in>T. X + Y)) + Y * (\<Sum>X\<in>S. a X * X ^ i * (\<Prod>Y\<in>T. X + Y))"
    using insert.hyps by (simp add: sum_distrib_left sum.distrib [symmetric] algebra_simps)
  then show ?case
    using insert.prems insert.hyps insert.IH[of "Suc i"] insert.IH[of i] by simp
qed

lemma power_sums_zero:
  fixes a :: "gf \<Rightarrow> gf"
  assumes "\<And>i. i < d \<Longrightarrow> (\<Sum>X\<in>S. a X * X ^ i) = 0" "finite S" "card S \<le> d" "X0 \<in> S"
  shows "a X0 = 0"
proof -
  let ?T = "S - {X0}"
  have "(\<Sum>X\<in>S. a X * X ^ 0 * (\<Prod>Y\<in>?T. X + Y)) = 0"
    using assms card_gt_0_iff[of S] by (intro power_sums_extend[where d = d]) auto
  moreover have "(\<Sum>X\<in>S. a X * X ^ 0 * (\<Prod>Y\<in>?T. X + Y)) = a X0 * (\<Prod>Y\<in>?T. X0 + Y)"
  proof -
    have "(\<Sum>X\<in>S. a X * X ^ 0 * (\<Prod>Y\<in>?T. X + Y))
        = a X0 * X0 ^ 0 * (\<Prod>Y\<in>?T. X0 + Y) + (\<Sum>X\<in>?T. a X * X ^ 0 * (\<Prod>Y\<in>?T. X + Y))"
      using assms(2,4) by (rule sum.remove)
    moreover have "(\<Sum>X\<in>?T. a X * X ^ 0 * (\<Prod>Y\<in>?T. X + Y)) = 0"
    proof (rule sum.neutral, rule ballI)
      fix X assume X: "X \<in> ?T"
      have "(\<Prod>Y\<in>?T. X + Y) = 0"
        using assms(2) X by (intro prod_zero bexI[of _ X]) auto
      then show "a X * X ^ 0 * (\<Prod>Y\<in>?T. X + Y) = 0" by simp
    qed
    ultimately show ?thesis by simp
  qed
  moreover have "(\<Prod>Y\<in>?T. X0 + Y) \<noteq> 0"
    using assms(2) by (auto simp: prod_zero_iff add_eq_0_iff)
  ultimately show ?thesis by simp
qed

definition support :: "gf list \<Rightarrow> nat set" where
  "support cs = {j. j < length cs \<and> cs ! j \<noteq> 0}"

lemma weight_bound:
  assumes "length cs \<le> 255" "\<And>i. i < d \<Longrightarrow> peval cs (alpha ^ i) = 0" "support cs \<noteq> {}"
  shows "d < card (support cs)"
proof (rule ccontr)
  assume "\<not> d < card (support cs)"
  then have small: "card (support cs) \<le> d" by simp
  let ?pos = "\<lambda>j. alpha ^ (length cs - Suc j)"
  let ?S = "?pos ` support cs"
  have fin: "finite (support cs)" by (simp add: support_def)
  have inj: "inj_on ?pos (support cs)"
  proof (rule inj_onI)
    fix j k assume "j \<in> support cs" "k \<in> support cs" "?pos j = ?pos k"
    moreover from this have "length cs - Suc j = length cs - Suc k"
      using assms(1) by (intro alpha_power_inj) (auto simp: support_def)
    ultimately show "j = k" by (auto simp: support_def)
  qed
  define a where "a X = cs ! the_inv_into (support cs) ?pos X" for X
  have a: "a (?pos j) = cs ! j" if "j \<in> support cs" for j
    using the_inv_into_f_f[OF inj that] by (simp add: a_def)
  have sums: "(\<Sum>X\<in>?S. a X * X ^ i) = 0" if "i < d" for i
  proof -
    have "(\<Sum>X\<in>?S. a X * X ^ i) = (\<Sum>j\<in>support cs. cs ! j * ?pos j ^ i)"
      using a by (simp add: sum.reindex[OF inj])
    also have "\<dots> = (\<Sum>j<length cs. cs ! j * ?pos j ^ i)"
      by (rule sum.mono_neutral_left) (auto simp: support_def)
    also have "\<dots> = peval cs (alpha ^ i)"
      by (simp add: peval_sum flip: power_mult) (simp add: mult.commute)
    finally show ?thesis using assms(2) that by simp
  qed
  obtain j where j: "j \<in> support cs" using assms(3) by auto
  have "a (?pos j) = 0"
    using power_sums_zero[of d a ?S "?pos j"] sums fin small j card_image[OF inj] by auto
  then show False using a[OF j] j by (auto simp: support_def)
qed

section \<open>The code computes these polynomials\<close>

lemma mul_int_of [simp]: "reedSolomonMultiply (int_of a) (int_of b) = Inr (int_of (a * b))"
  by (simp add: reedSolomonMultiply_gf)

lemma xor_int_of [simp]: "js_xor (int_of a) (int_of b) = int_of (a + b)"
  by (simp add: is_byte_js_xor)

lemma map_int_of_gf_of: "list_all is_byte xs \<Longrightarrow> map int_of (map gf_of xs) = xs"
  by (induction xs) auto

lemma take_drop_update:
  "j < length xs \<Longrightarrow> length xs = length ys \<Longrightarrow>
     (take j xs @ drop j ys)[j := xs ! j] = take (Suc j) xs @ drop (Suc j) ys"
  by (simp add: list_update_append take_Suc_conv_app_nth Cons_nth_drop_Suc [symmetric])

lemma divisor_inner_gf:
  assumes "xs \<noteq> []"
  shows "foldE (divisor_inner (int_of r)) [0..<length xs] (map int_of xs) = Inr (map int_of (mul_root r xs))"
proof -
  let ?M = "mul_root r xs" and ?n = "length xs"
  let ?P = "\<lambda>j s. s = map int_of (take j ?M @ drop j xs)"
  have "\<exists>s'. foldE (divisor_inner (int_of r)) [0..<?n] (map int_of xs) = Inr s' \<and> ?P ?n s'"
  proof (rule foldE_upt_invariant [where P = ?P])
    fix j s assume j: "j < ?n" and s: "?P j s"
    let ?zs = "take j ?M @ drop j xs"
    have len: "length ?zs = ?n" "length ?M = ?n" using assms j by simp_all
    have z: "?zs ! j = xs ! j" "Suc j < ?n \<Longrightarrow> ?zs ! Suc j = xs ! Suc j"
      using assms j by (simp_all add: nth_append)
    have "divisor_inner (int_of r) j s = Inr ((map int_of ?zs)[j := int_of (?M ! j)])"
      using j z len by (simp add: divisor_inner_def s nth_mul_root Let_def del: map_append)
    also have "(map int_of ?zs)[j := int_of (?M ! j)] = map int_of (take (Suc j) ?M @ drop (Suc j) xs)"
      using take_drop_update[of j ?M xs] j len by (simp only: map_update [symmetric])
    finally show "\<exists>s'. divisor_inner (int_of r) j s = Inr s' \<and> ?P (Suc j) s'" by blast
  qed auto
  then show ?thesis using assms by simp
qed

lemma fold_snoc_0: "fold (\<lambda>_ r. r @ [0]) js r = r @ replicate (length js) 0"
  by (induction js arbitrary: r) (simp_all add: replicate_append_same)

lemma reedSolomonComputeDivisor_gf:
  assumes "1 \<le> degree" "degree \<le> 255"
  shows "reedSolomonComputeDivisor degree = Inr (map int_of (divisor_gf (nat degree)))"
proof -
  let ?d = "nat degree"
  let ?F = "\<lambda>i. fold (\<lambda>i. mul_root (alpha ^ i)) [0..<i] (replicate (?d - 1) 0 @ [1])"
  let ?P = "\<lambda>i s. s = (map int_of (?F i), int_of (alpha ^ i)) \<and> ?F i \<noteq> []"
  have nd: "nat (degree - 1) = ?d - 1" by simp
  have "\<exists>s'. foldE divisor_outer [0..<?d] (replicate (?d - 1) 0 @ [1], 1) = Inr s' \<and> ?P ?d s'"
  proof (rule foldE_upt_invariant [where P = ?P])
    fix i s assume s: "?P i s"
    have "reedSolomonMultiply (int_of (alpha ^ i)) 2 = Inr (int_of (alpha ^ i * alpha))"
      by (simp add: reedSolomonMultiply_gf gf_of_2)
    then have "divisor_outer i s = Inr (map int_of (mul_root (alpha ^ i) (?F i)), int_of (alpha ^ Suc i))"
      using s divisor_inner_gf[of "?F i" "alpha ^ i"]
      by (simp add: divisor_outer_def mult.commute)
    moreover have "mul_root (alpha ^ i) (?F i) \<noteq> []"
      using s length_mul_root[of "?F i" "alpha ^ i"] by (metis length_0_conv)
    ultimately show "\<exists>s'. divisor_outer i s = Inr s' \<and> ?P (Suc i) s'" by simp
  qed simp_all
  then have "foldE divisor_outer [0..<?d] (replicate (?d - 1) 0 @ [1], 1)
      = Inr (map int_of (divisor_gf ?d), int_of (alpha ^ ?d))"
    by (auto simp: divisor_gf_def)
  then show ?thesis
    using assms by (simp add: reedSolomonComputeDivisor_def fold_snoc_0 nd del: upt_rec_numeral)
qed

lemma remainder_step_gf:
  assumes "g \<noteq> []" "length r = length g"
  shows "remainder_step (map int_of g) (int_of b) (map int_of r) = Inr (map int_of (rem_step g b r))"
proof -
  obtain h t where r: "r = h # t" using assms by (cases r) auto
  let ?f = "b + h" and ?s = "t @ [0]" and ?M = "rem_step g b r"
  let ?P = "\<lambda>i s. s = map int_of (take i ?M @ drop i ?s)"
  have len: "length ?s = length g" "length ?M = length g"
    using assms length_rem_step[OF assms(2,1)] by (simp_all add: r)
  have "\<exists>s'. foldE (remainder_inner (int_of ?f)) (List.enumerate 0 (map int_of g)) (map int_of ?s) = Inr s'
      \<and> ?P (length (map int_of g)) s'"
  proof (rule foldE_enumerate_invariant [where P = ?P])
    fix i s assume i: "i < length (map int_of g)" and s: "?P i s"
    let ?zs = "take i ?M @ drop i ?s"
    have z: "?zs ! i = ?s ! i" "i < length ?zs" using i len by (simp_all add: nth_append)
    have M: "?M ! i = ?s ! i + g ! i * ?f"
      using i len by (simp add: rem_step_def r add.commute)
    have "remainder_inner (int_of ?f) (i, map int_of g ! i) s = Inr ((map int_of ?zs)[i := int_of (?M ! i)])"
      using i z by (simp add: remainder_inner_def s M del: map_append)
    also have "(map int_of ?zs)[i := int_of (?M ! i)] = map int_of (take (Suc i) ?M @ drop (Suc i) ?s)"
      using take_drop_update[of i ?M ?s] i len by (simp only: map_update [symmetric] length_map)
    finally show "\<exists>s'. remainder_inner (int_of ?f) (i, map int_of g ! i) s = Inr s' \<and> ?P (Suc i) s'"
      by blast
  qed simp
  then have "foldE (remainder_inner (int_of ?f)) (List.enumerate 0 (map int_of g)) (map int_of ?s)
      = Inr (map int_of ?M)" using len by auto
  then show ?thesis by (simp add: remainder_step_def r)
qed

lemma reedSolomonComputeRemainder_gf:
  assumes "g \<noteq> []"
  shows "reedSolomonComputeRemainder (map int_of data) (map int_of g) = Inr (map int_of (remainder_gf data g))"
proof -
  have "length r = length g \<Longrightarrow>
    foldE (remainder_step (map int_of g)) (map int_of data) (map int_of r) = Inr (map int_of (fold (rem_step g) data r))" for r
    by (induction data arbitrary: r) (simp_all add: remainder_step_gf assms length_rem_step)
  from this[of "replicate (length g) 0"] show ?thesis
    by (simp add: reedSolomonComputeRemainder_def remainder_gf_def map_replicate_const)
qed

section \<open>Properties\<close>

text \<open>Data with its error correction bytes, as \<^verbatim>\<open>addEccAndInterleave\<close> builds each block.\<close>

definition rs_encode :: "int \<Rightarrow> int list \<Rightarrow> int list js" where
  "rs_encode degree data =
     bindE (reedSolomonComputeDivisor degree) (\<lambda>rsDiv.
     bindE (reedSolomonComputeRemainder data rsDiv) (\<lambda>ecc. Inr (data @ ecc)))"

lemma rs_encode_gf:
  assumes "1 \<le> degree" "degree \<le> 255"
  shows "rs_encode degree (map int_of data)
           = Inr (map int_of (data @ remainder_gf data (divisor_gf (nat degree))))"
proof -
  have "divisor_gf (nat degree) \<noteq> []"
    using divisor_gf(1)[of "nat degree"] assms by (auto simp flip: length_0_conv)
  then show ?thesis
    using assms by (simp add: rs_encode_def reedSolomonComputeDivisor_gf reedSolomonComputeRemainder_gf)
qed

lemma rs_encode_bytes:
  assumes "1 \<le> degree" "degree \<le> 255" "list_all is_byte data"
  shows "rs_encode degree data
           = Inr (data @ map int_of (remainder_gf (map gf_of data) (divisor_gf (nat degree))))"
  using rs_encode_gf[OF assms(1,2), of "map gf_of data"] map_int_of_gf_of[OF assms(3)] by simp

definition hamming :: "int list \<Rightarrow> int list \<Rightarrow> nat" where
  "hamming xs ys = card {j. j < length xs \<and> xs ! j \<noteq> ys ! j}"

lemma hamming_commute: "length xs = length ys \<Longrightarrow> hamming xs ys = hamming ys xs"
  by (simp add: hamming_def eq_commute)

lemma hamming_triangle:
  assumes "length xs = length ys" "length ys = length zs"
  shows "hamming xs zs \<le> hamming xs ys + hamming ys zs"
proof -
  have "{j. j < length xs \<and> xs ! j \<noteq> zs ! j}
      \<subseteq> {j. j < length xs \<and> xs ! j \<noteq> ys ! j} \<union> {j. j < length ys \<and> ys ! j \<noteq> zs ! j}"
    using assms by auto
  then have "hamming xs zs \<le> card ({j. j < length xs \<and> xs ! j \<noteq> ys ! j} \<union> {j. j < length ys \<and> ys ! j \<noteq> zs ! j})"
    unfolding hamming_def by (intro card_mono) auto
  also have "\<dots> \<le> hamming xs ys + hamming ys zs"
    unfolding hamming_def by (rule card_Un_le)
  finally show ?thesis .
qed

lemma int_of_inject [simp]: "int_of a = int_of b \<longleftrightarrow> a = b"
  by (metis gf_of_int_of)

lemma codewords_apart:
  assumes "length a = length b" "a \<noteq> b" "length a \<le> 255"
    "\<And>i. i < d \<Longrightarrow> peval a (alpha ^ i) = 0" "\<And>i. i < d \<Longrightarrow> peval b (alpha ^ i) = 0"
  shows "d < hamming (map int_of a) (map int_of b)"
proof -
  let ?c = "map2 (\<lambda>x y. x * 1 + y) a b"
  have sup: "support ?c = {j. j < length a \<and> a ! j \<noteq> b ! j}"
    using assms(1) by (auto simp: support_def add_eq_0_iff)
  have "d < card (support ?c)"
  proof (rule weight_bound)
    show "length ?c \<le> 255" using assms(1,3) by simp
    show "peval ?c (alpha ^ i) = 0" if "i < d" for i
      using assms that by (subst peval_map2) simp_all
    show "support ?c \<noteq> {}" unfolding sup using assms(1,2) by (auto simp: list_eq_iff_nth_eq)
  qed
  moreover have "{j. j < length a \<and> map int_of a ! j \<noteq> map int_of b ! j} = support ?c"
    using assms(1) unfolding sup by (intro Collect_cong conj_cong) auto
  ultimately show ?thesis by (simp add: hamming_def)
qed

lemma rs_encode_obtain:
  assumes "1 \<le> degree" "degree \<le> 255" "list_all is_byte data" "rs_encode degree data = Inr cw"
  obtains g where "cw = map int_of g" "length cw = length data + nat degree"
    "take (length data) cw = data" "\<And>i. i < nat degree \<Longrightarrow> peval g (alpha ^ i) = 0"
proof -
  let ?G = "divisor_gf (nat degree)"
  let ?g = "map gf_of data @ remainder_gf (map gf_of data) ?G"
  have G: "length ?G = nat degree" "?G \<noteq> []"
    using divisor_gf(1)[of "nat degree"] assms by (auto simp flip: length_0_conv)
  have "cw = map int_of ?g"
    using assms rs_encode_bytes[OF assms(1-3)] map_int_of_gf_of[OF assms(3)] by simp
  moreover have "take (length data) (map int_of ?g) = data"
    using map_int_of_gf_of[OF assms(3)] by simp
  moreover have "length (map int_of ?g) = length data + nat degree"
    by (simp add: length_remainder_gf G)
  ultimately show ?thesis using that syndromes_zero by blast
qed

lemma encoded_apart:
  assumes "1 \<le> degree" "degree \<le> 255" "list_all is_byte d1" "list_all is_byte d2"
    "length d1 = length d2" "d1 \<noteq> d2" "length d1 + nat degree \<le> 255"
    "rs_encode degree d1 = Inr c1" "rs_encode degree d2 = Inr c2"
  shows "nat degree < hamming c1 c2"
proof -
  obtain g1 where g1: "c1 = map int_of g1" "length c1 = length d1 + nat degree"
    "take (length d1) c1 = d1" "\<And>i. i < nat degree \<Longrightarrow> peval g1 (alpha ^ i) = 0"
    using rs_encode_obtain[OF assms(1,2,3,8)] by blast
  obtain g2 where g2: "c2 = map int_of g2" "length c2 = length d2 + nat degree"
    "take (length d2) c2 = d2" "\<And>i. i < nat degree \<Longrightarrow> peval g2 (alpha ^ i) = 0"
    using rs_encode_obtain[OF assms(1,2,4,9)] by blast
  have "g1 \<noteq> g2" using g1(1,3) g2(1,3) assms(5,6) by auto
  then show ?thesis
    using codewords_apart[of g1 g2 "nat degree"] g1 g2 assms(5,7) by simp
qed

text \<open>
  C29: \<^verbatim>\<open>reedSolomonComputeDivisor\<close> returns, for every degree from 1 to 255, as many bytes as the
  degree, and they are the coefficients below the leading one of the product of the factors
  \<open>x - r\<^sup>k\<close> for the powers \<open>k\<close> below the degree of the generator \<open>r = 2\<close> of GF(2^8/0x11D).
\<close>
theorem rs_divisor_is_generator_polynomial:
  assumes "1 \<le> degree" "degree \<le> 255"
  shows "\<exists>g. reedSolomonComputeDivisor degree = Inr (map int_of g) \<and> length g = nat degree \<and>
           (\<forall>x. x ^ nat degree + peval g x = (\<Prod>k<nat degree. x - gf_of 2 ^ k))"
  using assms divisor_gf[of "nat degree"]
  by (intro exI[of _ "divisor_gf (nat degree)"])
     (simp add: reedSolomonComputeDivisor_gf gf_of_2)

theorem rs_divisor_is_generator_polynomial_witness:
  "\<exists>g. reedSolomonComputeDivisor 7 = Inr (map int_of g) \<and> length g = 7 \<and>
     (\<forall>x. x ^ 7 + peval g x = (\<Prod>k<7. x - gf_of 2 ^ k))"
  using rs_divisor_is_generator_polynomial[of 7] by simp

text \<open>
  C17: A data block followed by its remainder is a Reed-Solomon codeword: for byte data and any
  degree from 1 to 255 both routines return, the remainder has as many bytes as the degree, and
  the polynomial of the whole block vanishes at \<open>1, r, \<dots>\<close> up to the power below the degree.
\<close>
theorem rs_block_is_codeword:
  assumes "1 \<le> degree" "degree \<le> 255" "list_all is_byte data"
  shows "\<exists>rsDiv ecc. reedSolomonComputeDivisor degree = Inr rsDiv \<and>
           reedSolomonComputeRemainder data rsDiv = Inr ecc \<and>
           length ecc = nat degree \<and> list_all is_byte ecc \<and>
           (\<forall>i<nat degree. peval (map gf_of (data @ ecc)) (gf_of 2 ^ i) = 0)"
proof -
  let ?G = "divisor_gf (nat degree)"
  let ?r = "remainder_gf (map gf_of data) ?G"
  have G: "length ?G = nat degree" "?G \<noteq> []"
    using divisor_gf(1)[of "nat degree"] assms by (auto simp flip: length_0_conv)
  have "reedSolomonComputeRemainder data (map int_of ?G) = Inr (map int_of ?r)"
    using reedSolomonComputeRemainder_gf[OF G(2), of "map gf_of data"] map_int_of_gf_of[OF assms(3)]
    by simp
  moreover have "map gf_of (data @ map int_of ?r) = map gf_of data @ ?r"
    by (simp add: comp_def)
  ultimately show ?thesis
    using reedSolomonComputeDivisor_gf[OF assms(1,2)] syndromes_zero[of _ "nat degree" "map gf_of data"]
    by (intro exI[of _ "map int_of ?G"] exI[of _ "map int_of ?r"])
       (simp add: length_remainder_gf G gf_of_2 list_all_iff)
qed

theorem rs_block_is_codeword_witness:
  "\<exists>rsDiv ecc. reedSolomonComputeDivisor 10 = Inr rsDiv \<and>
     reedSolomonComputeRemainder [64, 1, 236] rsDiv = Inr ecc \<and> length ecc = 10 \<and> list_all is_byte ecc \<and>
     (\<forall>i<10. peval (map gf_of ([64, 1, 236] @ ecc)) (gf_of 2 ^ i) = 0)"
  using rs_block_is_codeword[of 10 "[64, 1, 236]"] by (simp add: is_byte_def)

text \<open>
  Distance of the code: two different data blocks of one length, encoded with the same number
  of error correction bytes and at most 255 bytes long together with them, give blocks that
  differ in more positions than there are error correction bytes.
\<close>
theorem rs_blocks_differ:
  assumes "1 \<le> degree" "degree \<le> 255" "list_all is_byte d1" "list_all is_byte d2"
    "length d1 = length d2" "d1 \<noteq> d2" "length d1 + nat degree \<le> 255"
    "rs_encode degree d1 = Inr c1" "rs_encode degree d2 = Inr c2"
  shows "nat degree < hamming c1 c2"
  using encoded_apart assms by blast

theorem rs_blocks_differ_witness:
  "\<exists>c1 c2. rs_encode 4 [1, 2] = Inr c1 \<and> rs_encode 4 [1, 3] = Inr c2 \<and> 4 < hamming c1 c2"
proof -
  have b: "list_all is_byte [1, 2]" "list_all is_byte [1, 3]" by (simp_all add: is_byte_def)
  obtain c1 c2 where "rs_encode 4 [1, 2] = Inr c1" "rs_encode 4 [1, 3] = Inr c2"
    using rs_encode_bytes[OF _ _ b(1), of 4] rs_encode_bytes[OF _ _ b(2), of 4] by simp
  with rs_blocks_differ[of 4, OF _ _ b] show ?thesis by force
qed

text \<open>
  C16: Error correction: a received block that differs from each of two encoded blocks in at most
  half as many places as there are error correction bytes determines the data, the two encoded
  blocks carry the same one.
\<close>
theorem rs_unique_decoding:
  assumes "1 \<le> degree" "degree \<le> 255" "list_all is_byte d1" "list_all is_byte d2"
    "length d1 = length d2" "length d1 + nat degree \<le> 255"
    "rs_encode degree d1 = Inr c1" "rs_encode degree d2 = Inr c2"
    "length received = length c1"
    "2 * hamming c1 received \<le> nat degree" "2 * hamming received c2 \<le> nat degree"
  shows "d1 = d2"
proof (rule ccontr)
  assume "d1 \<noteq> d2"
  then have "nat degree < hamming c1 c2" using encoded_apart assms by blast
  also have "\<dots> \<le> hamming c1 received + hamming received c2"
    using assms rs_encode_obtain by (intro hamming_triangle) metis+
  finally show False using assms(10,11) by linarith
qed

theorem rs_unique_decoding_witness:
  "\<exists>c. rs_encode 4 [1, 2] = Inr c \<and> 2 * hamming c (c[0 := 7]) \<le> 4 \<and> c[0 := 7] \<noteq> c \<and> [1, 2] = [1, 2 :: int]"
proof -
  have b: "list_all is_byte [1, 2]" by (simp add: is_byte_def)
  obtain c where c: "rs_encode 4 [1, 2] = Inr c" "take 2 c = [1, 2]" "length c = 6"
    using rs_encode_bytes[OF _ _ b, of 4] divisor_gf(1)[of 4]
    by (simp add: length_remainder_gf flip: length_0_conv)
  then obtain x xs where x: "c = 1 # x # xs" by (cases c; cases "tl c") auto
  have "{j. j < length c \<and> c ! j \<noteq> c[0 := 7] ! j} = {0}"
    by (auto simp: x nth_Cons split: nat.splits) (metis not0_implies_Suc)
  then have h: "hamming c (c[0 := 7]) = 1" by (simp add: hamming_def)
  then have "hamming (c[0 := 7]) c = 1" by (simp add: hamming_commute)
  then show ?thesis
    using rs_unique_decoding[OF _ _ b b _ _ c(1) c(1), of "c[0 := 7]"] h c x by auto
qed

end
