(* ===== verification/Interleave.thy ===== *)
theory Interleave
  imports ReedSolomon QrTables
begin

text \<open>
  \<^verbatim>\<open>QrCode.addEccAndInterleave\<close> of \<^verbatim>\<open>frontend/js/qrcodegen.js\<close>: the data codewords are cut into
  blocks, each block gets its Reed-Solomon bytes, and the blocks are interleaved byte by byte.

  \<^verbatim>\<open>deinterleave\<close> is the reader's side: it undoes the interleaving from the block layout of the
  version and level alone.
\<close>

section \<open>The code\<close>

text \<open>\<^verbatim>\<open>Array.prototype.slice\<close> with its relative indices.\<close>

definition rel_index :: "nat \<Rightarrow> int \<Rightarrow> nat" where
  "rel_index n i = (if i < 0 then nat (int n + i) else min (nat i) n)"

definition js_slice :: "'a list \<Rightarrow> int \<Rightarrow> int \<Rightarrow> 'a list" where
  "js_slice xs a b =
     (let n = length xs in take (rel_index n b - rel_index n a) (drop (rel_index n a) xs))"

definition block_step ::
  "int list \<Rightarrow> int list \<Rightarrow> int \<Rightarrow> int \<Rightarrow> int \<Rightarrow> nat \<Rightarrow> int list list \<times> int \<Rightarrow> (int list list \<times> int) js" where
  "block_step data rsDiv numShortBlocks shortBlockLen blockEccLen i st =
     (let (blocks, k) = st;
          dat = js_slice data k (k + shortBlockLen - blockEccLen + (if int i < numShortBlocks then 0 else 1));
          k = k + int (length dat)
      in bindE (reedSolomonComputeRemainder dat rsDiv) (\<lambda>ecc.
           let dat = (if int i < numShortBlocks then dat @ [0] else dat)
           in Inr (blocks @ [dat @ ecc], k)))"

definition interleave_cell :: "int \<Rightarrow> int \<Rightarrow> int \<Rightarrow> nat \<Rightarrow> nat \<times> int list \<Rightarrow> int list \<Rightarrow> int list js" where
  "interleave_cell numShortBlocks shortBlockLen blockEccLen i jb result =
     (let (j, block) = jb
      in if int i \<noteq> shortBlockLen - blockEccLen \<or> int j \<ge> numShortBlocks
         then (if i < length block then Inr (result @ [block ! i]) else Inl Undefined)
         else Inr result)"

definition addEccAndInterleave :: "int \<Rightarrow> ecc \<Rightarrow> int list \<Rightarrow> int list js" where
  "addEccAndInterleave ver ecl data =
     bindE (getNumDataCodewords ver ecl) (\<lambda>n.
     if int (length data) \<noteq> n then Inl (RangeError ''Invalid argument'')
     else bindE (getNumRawDataModules ver) (\<lambda>raw.
       let numBlocks = NUM_ERROR_CORRECTION_BLOCKS ! ordinal ecl ! nat ver;
           blockEccLen = ECC_CODEWORDS_PER_BLOCK ! ordinal ecl ! nat ver;
           rawCodewords = raw div 8;
           numShortBlocks = numBlocks - rawCodewords mod numBlocks;
           shortBlockLen = rawCodewords div numBlocks
       in bindE (reedSolomonComputeDivisor blockEccLen) (\<lambda>rsDiv.
          bindE (foldE (block_step data rsDiv numShortBlocks shortBlockLen blockEccLen)
                   [0..<nat numBlocks] ([], 0)) (\<lambda>(blocks, k).
          bindE (case blocks of [] \<Rightarrow> Inl TypeError | b # _ \<Rightarrow> Inr (length b)) (\<lambda>len.
          bindE (foldE (\<lambda>i. foldE (interleave_cell numShortBlocks shortBlockLen blockEccLen i)
                                  (List.enumerate 0 blocks))
                   [0..<len] []) (\<lambda>result.
          bindE (assertE (int (length result) = rawCodewords)) (\<lambda>_. Inr result)))))))"

section \<open>Specification\<close>

text \<open>
  The layout: \<open>nb\<close> blocks of which the first \<open>ns\<close> hold \<open>sd\<close> data bytes and the others one more;
  every block has \<open>e\<close> error correction bytes.
\<close>

definition block_data :: "nat \<Rightarrow> nat \<Rightarrow> nat \<Rightarrow> int list \<Rightarrow> nat \<Rightarrow> int list" where
  "block_data nb ns sd cw j =
     map (\<lambda>i. cw ! (i * nb + j)) [0..<sd] @ (if j < ns then [] else [cw ! (sd * nb + (j - ns))])"

definition block_ecc :: "nat \<Rightarrow> nat \<Rightarrow> nat \<Rightarrow> nat \<Rightarrow> int list \<Rightarrow> nat \<Rightarrow> int list" where
  "block_ecc nb ns sd e cw j = map (\<lambda>i. cw ! (sd * nb + (nb - ns) + i * nb + j)) [0..<e]"

definition raw_codewords :: "int \<Rightarrow> int" where
  "raw_codewords ver = raw_modules ver div 8"

definition short_blocks :: "int \<Rightarrow> ecc \<Rightarrow> int" where
  "short_blocks ver ecl = num_blocks ver ecl - raw_codewords ver mod num_blocks ver ecl"

definition short_data :: "int \<Rightarrow> ecc \<Rightarrow> int" where
  "short_data ver ecl = raw_codewords ver div num_blocks ver ecl - ecc_len ver ecl"

definition deinterleave :: "int \<Rightarrow> ecc \<Rightarrow> int list \<Rightarrow> (int list \<times> int list) list" where
  "deinterleave ver ecl cw =
     (let nb = nat (num_blocks ver ecl); ns = nat (short_blocks ver ecl);
          sd = nat (short_data ver ecl); e = nat (ecc_len ver ecl)
      in map (\<lambda>j. (block_data nb ns sd cw j, block_ecc nb ns sd e cw j)) [0..<nb])"

section \<open>Cutting the data\<close>

definition part_len :: "nat \<Rightarrow> nat \<Rightarrow> nat \<Rightarrow> nat" where
  "part_len ns sd i = sd + (if i < ns then 0 else 1)"

definition part_off :: "nat \<Rightarrow> nat \<Rightarrow> nat \<Rightarrow> nat" where
  "part_off ns sd i = i * sd + (i - ns)"

definition part :: "nat \<Rightarrow> nat \<Rightarrow> int list \<Rightarrow> nat \<Rightarrow> int list" where
  "part ns sd data i = take (part_len ns sd i) (drop (part_off ns sd i) data)"

lemma part_off_Suc: "part_off ns sd (Suc i) = part_off ns sd i + part_len ns sd i"
  by (auto simp: part_off_def part_len_def)

lemma part_off_mono: "i \<le> j \<Longrightarrow> part_off ns sd i \<le> part_off ns sd j"
  by (auto simp: part_off_def intro!: add_mono mult_le_mono1)

lemma concat_parts: "concat (map (part ns sd data) [0..<n]) = take (part_off ns sd n) data"
proof (induction n)
  case 0
  then show ?case by (simp add: part_off_def)
next
  case (Suc n)
  then show ?case by (simp add: part_off_Suc part_def take_add)
qed

lemma length_part:
  "length data = part_off ns sd nb \<Longrightarrow> i < nb \<Longrightarrow> length (part ns sd data i) = part_len ns sd i"
  using part_off_mono[of "Suc i" nb ns sd] by (simp add: part_def part_off_Suc)

lemma js_slice_nonneg: "a \<le> b \<Longrightarrow> b \<le> length xs \<Longrightarrow> js_slice xs (int a) (int b) = take (b - a) (drop a xs)"
  by (simp add: js_slice_def rel_index_def)

lemma slice_part:
  assumes "length data = part_off ns sd nb" "i < nb" "sbl = sd + e"
  shows "js_slice data (int (part_off ns sd i))
           (int (part_off ns sd i) + int sbl - int e + (if int i < int ns then 0 else 1)) = part ns sd data i"
proof -
  have le: "part_off ns sd (Suc i) \<le> length data" using assms part_off_mono[of "Suc i" nb] by simp
  have e: "int (part_off ns sd i) + int sbl - int e + (if int i < int ns then 0 else 1)
      = int (part_off ns sd (Suc i))"
    using assms(3) by (simp add: part_off_Suc part_len_def)
  show ?thesis
    unfolding e js_slice_nonneg[OF part_off_mono[OF le_SucI[OF order_refl]] le]
    by (simp add: part_def part_off_Suc)
qed

definition ecc_of :: "nat \<Rightarrow> int list \<Rightarrow> int list" where
  "ecc_of e d = map int_of (remainder_gf (map gf_of d) (divisor_gf e))"

lemma length_divisor_gf: "1 \<le> e \<Longrightarrow> length (divisor_gf e) = e \<and> divisor_gf e \<noteq> []"
  using divisor_gf(1)[of e] by (cases "divisor_gf e") auto

lemma length_ecc_of: "1 \<le> e \<Longrightarrow> length (ecc_of e d) = e"
  using length_divisor_gf[of e] by (simp add: ecc_of_def length_remainder_gf)

lemma is_byte_ecc_of: "list_all is_byte (ecc_of e d)"
  by (auto simp: ecc_of_def list_all_iff)

lemma remainder_bytes:
  "1 \<le> e \<Longrightarrow> list_all is_byte d \<Longrightarrow>
     reedSolomonComputeRemainder d (map int_of (divisor_gf e)) = Inr (ecc_of e d)"
  using reedSolomonComputeRemainder_gf[of "divisor_gf e" "map gf_of d"] length_divisor_gf[of e]
  by (simp add: map_int_of_gf_of ecc_of_def del: map_map)

definition padded_block :: "nat \<Rightarrow> nat \<Rightarrow> nat \<Rightarrow> int list \<Rightarrow> nat \<Rightarrow> int list" where
  "padded_block ns sd e data i =
     part ns sd data i @ (if i < ns then [0] else []) @ ecc_of e (part ns sd data i)"

lemma is_byte_part: "list_all is_byte data \<Longrightarrow> list_all is_byte (part ns sd data i)"
  by (auto simp: part_def list_all_iff dest!: in_set_takeD in_set_dropD)

lemma block_loop:
  assumes "length data = part_off ns sd nb" "list_all is_byte data" "1 \<le> e"
  shows "foldE (block_step data (map int_of (divisor_gf e)) (int ns) (int (sd + e)) (int e)) [0..<nb] ([], 0)
           = Inr (map (padded_block ns sd e data) [0..<nb], int (part_off ns sd nb))"
proof -
  let ?P = "\<lambda>i st. st = (map (padded_block ns sd e data) [0..<i], int (part_off ns sd i))"
  have "\<exists>st. foldE (block_step data (map int_of (divisor_gf e)) (int ns) (int (sd + e)) (int e)) [0..<nb] ([], 0)
      = Inr st \<and> ?P nb st"
  proof (rule foldE_upt_invariant)
    fix i st assume "i < nb" and st: "?P i st"
    have sl: "js_slice data (int (part_off ns sd i))
        (int (part_off ns sd i) + int (sd + e) - int e + (if int i < int ns then 0 else 1)) = part ns sd data i"
      by (rule slice_part[OF assms(1) \<open>i < nb\<close> refl])
    show "\<exists>st'. block_step data (map int_of (divisor_gf e)) (int ns) (int (sd + e)) (int e) i st
        = Inr st' \<and> ?P (Suc i) st'"
      unfolding st block_step_def Let_def prod.case sl
      using remainder_bytes[OF assms(3) is_byte_part[OF assms(2)], of ns sd i]
        length_part[OF assms(1) \<open>i < nb\<close>]
      by (simp add: padded_block_def part_off_Suc)
  qed (simp_all add: part_off_def)
  then show ?thesis by simp
qed

lemma length_padded_block:
  assumes "length data = part_off ns sd nb" "i < nb" "1 \<le> e"
  shows "length (padded_block ns sd e data i) = sd + 1 + e"
  using length_part[OF assms(1,2)] length_ecc_of[OF assms(3)]
  by (simp add: padded_block_def part_len_def)

section \<open>Interleaving\<close>

lemma foldE_snoc_if:
  assumes "\<And>x s. x \<in> set xs \<Longrightarrow> f x s = Inr (s @ g x)"
  shows "foldE f xs s = Inr (s @ concat (map g xs))"
  using assms by (induction xs arbitrary: s) simp_all

definition column :: "nat \<Rightarrow> nat \<Rightarrow> int list list \<Rightarrow> nat \<Rightarrow> int list" where
  "column ns sd blocks i =
     concat (map (\<lambda>j. if i \<noteq> sd \<or> ns \<le> j then [blocks ! j ! i] else []) [0..<length blocks])"

lemma interleave_loop:
  assumes "\<forall>b \<in> set blocks. length b = len"
  shows "foldE (\<lambda>i. foldE (interleave_cell (int ns) (int (sd + e)) (int e) i) (List.enumerate 0 blocks)) [0..<len] []
           = Inr (concat (map (column ns sd blocks) [0..<len]))"
proof -
  have en: "List.enumerate 0 blocks = map (\<lambda>j. (j, blocks ! j)) [0..<length blocks]"
    by (rule nth_equalityI) (simp_all add: nth_enumerate_eq)
  have "foldE (interleave_cell (int ns) (int (sd + e)) (int e) i) (List.enumerate 0 blocks) s
      = Inr (s @ column ns sd blocks i)" if "i < len" for i s
  proof -
    let ?g = "\<lambda>jb. if i \<noteq> sd \<or> ns \<le> fst jb then [snd jb ! i] else []"
    have "foldE (interleave_cell (int ns) (int (sd + e)) (int e) i) (List.enumerate 0 blocks) s
        = Inr (s @ concat (map ?g (List.enumerate 0 blocks)))"
      by (rule foldE_snoc_if) (use that assms in \<open>auto simp: interleave_cell_def en\<close>)
    moreover have "concat (map ?g (List.enumerate 0 blocks)) = column ns sd blocks i"
      unfolding column_def en map_map by (intro arg_cong[where f = concat] map_cong refl) simp
    ultimately show ?thesis by simp
  qed
  then show ?thesis
    using foldE_snoc_if[of "[0..<len]"
        "\<lambda>i. foldE (interleave_cell (int ns) (int (sd + e)) (int e) i) (List.enumerate 0 blocks)"
        "column ns sd blocks" "[]"]
    by simp
qed

lemma concat_singletons: "concat (map (\<lambda>j. [f j]) xs) = map f xs"
  by (induction xs) simp_all

lemma column_full: "i \<noteq> sd \<Longrightarrow> column ns sd blocks i = map (\<lambda>b. b ! i) blocks"
proof -
  assume "i \<noteq> sd"
  then have "column ns sd blocks i = map (\<lambda>j. blocks ! j ! i) [0..<length blocks]"
    by (simp add: column_def concat_singletons)
  also have "\<dots> = map (\<lambda>b. b ! i) blocks" by (rule nth_equalityI) simp_all
  finally show ?thesis .
qed

lemma column_short:
  assumes "ns \<le> length blocks"
  shows "column ns sd blocks sd = map (\<lambda>j. blocks ! j ! sd) [ns..<length blocks]"
proof -
  have "[0..<length blocks] = [0..<ns] @ [ns..<length blocks]"
    using upt_add_eq_append[of 0 ns "length blocks - ns"] assms by simp
  moreover have "concat (map (\<lambda>j. if sd \<noteq> sd \<or> ns \<le> j then [blocks ! j ! sd] else []) [0..<ns]) = []"
    by simp
  moreover have "concat (map (\<lambda>j. if sd \<noteq> sd \<or> ns \<le> j then [blocks ! j ! sd] else []) [ns..<length blocks])
      = concat (map (\<lambda>j. [blocks ! j ! sd]) [ns..<length blocks])"
    by (intro arg_cong[where f = concat] map_cong) auto
  ultimately show ?thesis by (simp add: column_def concat_singletons)
qed

lemma nth_concat_rows:
  "\<forall>r \<in> set rows. length r = n \<Longrightarrow> i < length rows \<Longrightarrow> j < n \<Longrightarrow> concat rows ! (i * n + j) = rows ! i ! j"
proof (induction rows arbitrary: i)
  case (Cons r rows)
  then show ?case by (cases i) (simp_all add: nth_append add.assoc)
qed simp

lemma length_concat_rows: "\<forall>r \<in> set rows. length r = n \<Longrightarrow> length (concat rows) = length rows * n"
  by (induction rows) auto

definition interleaved :: "nat \<Rightarrow> nat \<Rightarrow> nat \<Rightarrow> int list list \<Rightarrow> int list" where
  "interleaved ns sd e blocks =
     concat (map (\<lambda>i. map (\<lambda>b. b ! i) blocks) [0..<sd])
     @ map (\<lambda>j. blocks ! j ! sd) [ns..<length blocks]
     @ concat (map (\<lambda>i. map (\<lambda>b. b ! i) blocks) [sd + 1..<sd + 1 + e])"

lemma columns_interleaved:
  assumes "ns \<le> length blocks"
  shows "concat (map (column ns sd blocks) [0..<sd + 1 + e]) = interleaved ns sd e blocks"
proof -
  have "[0..<sd + 1 + e] = [0..<sd] @ sd # [sd + 1..<sd + 1 + e]"
    using upt_add_eq_append[of 0 sd "1 + e"] by (simp add: upt_conv_Cons del: upt_Suc)
  moreover have "map (column ns sd blocks) [0..<sd] = map (\<lambda>i. map (\<lambda>b. b ! i) blocks) [0..<sd]"
    "map (column ns sd blocks) [sd + 1..<sd + 1 + e] = map (\<lambda>i. map (\<lambda>b. b ! i) blocks) [sd + 1..<sd + 1 + e]"
    by (rule map_cong; simp add: column_full del: upt_Suc; fail)+
  ultimately show ?thesis
    unfolding interleaved_def by (simp only: map_append list.map concat_append concat.simps column_short[OF assms])
qed

lemma length_interleaved:
  "length (interleaved ns sd e blocks) = sd * length blocks + (length blocks - ns) + e * length blocks"
proof -
  have "length (concat (map (\<lambda>i. map (\<lambda>b. b ! i) blocks) ks)) = length ks * length blocks" for ks
    by (induction ks) simp_all
  then show ?thesis by (simp add: interleaved_def del: upt_Suc length_concat)
qed

text \<open>The reader's index arithmetic finds every byte of every block.\<close>

lemma interleaved_data:
  assumes "j < length blocks" "i < sd"
  shows "interleaved ns sd e blocks ! (i * length blocks + j) = blocks ! j ! i"
proof -
  let ?rows = "map (\<lambda>i. map (\<lambda>b. b ! i) blocks) [0..<sd]"
  have len: "length (concat ?rows) = sd * length blocks"
    using length_concat_rows[of ?rows "length blocks"] by simp
  have "i * length blocks + j < Suc i * length blocks" using assms(1) by simp
  also have "\<dots> \<le> sd * length blocks" using assms(2) by (intro mult_le_mono1) simp
  finally have "interleaved ns sd e blocks ! (i * length blocks + j) = concat ?rows ! (i * length blocks + j)"
    unfolding interleaved_def by (subst nth_append) (simp only: len if_True)
  also have "\<dots> = ?rows ! i ! j" by (rule nth_concat_rows) (use assms in auto)
  finally show ?thesis using assms by simp
qed

lemma interleaved_long:
  assumes "ns \<le> j" "j < length blocks"
  shows "interleaved ns sd e blocks ! (sd * length blocks + (j - ns)) = blocks ! j ! sd"
proof -
  let ?rows = "map (\<lambda>i. map (\<lambda>b. b ! i) blocks) [0..<sd]"
  have len: "length (concat ?rows) = sd * length blocks"
    using length_concat_rows[of ?rows "length blocks"] by simp
  have "j - ns < length (map (\<lambda>j. blocks ! j ! sd) [ns..<length blocks])" using assms by simp
  then show ?thesis
    unfolding interleaved_def len [symmetric] nth_append_length_plus
    using assms by (subst nth_append) simp
qed

lemma interleaved_ecc:
  assumes "ns \<le> length blocks" "j < length blocks" "i < e"
  shows "interleaved ns sd e blocks ! (sd * length blocks + (length blocks - ns) + i * length blocks + j)
           = blocks ! j ! (sd + 1 + i)"
proof -
  let ?rows = "map (\<lambda>i. map (\<lambda>b. b ! i) blocks) [0..<sd]"
  let ?rows' = "map (\<lambda>i. map (\<lambda>b. b ! i) blocks) [sd + 1..<sd + 1 + e]"
  have len: "length (concat ?rows) = sd * length blocks"
    using length_concat_rows[of ?rows "length blocks"] by simp
  have "interleaved ns sd e blocks ! (sd * length blocks + (length blocks - ns) + i * length blocks + j)
      = concat ?rows' ! (i * length blocks + j)"
    unfolding interleaved_def
    by (subst nth_append) (simp add: len nth_append add.assoc del: length_concat upt_Suc)
  also have "\<dots> = ?rows' ! i ! j" by (rule nth_concat_rows) (use assms in auto)
  finally show ?thesis using assms by (simp del: upt_Suc)
qed

section \<open>The whole function\<close>

text \<open>The layout of a version and level in natural numbers.\<close>

definition has_layout :: "int \<Rightarrow> ecc \<Rightarrow> nat \<Rightarrow> nat \<Rightarrow> nat \<Rightarrow> nat \<Rightarrow> bool" where
  "has_layout ver ecl nb ns sd e \<longleftrightarrow>
     num_blocks ver ecl = int nb \<and> ecc_len ver ecl = int e \<and>
     short_data ver ecl = int sd \<and> short_blocks ver ecl = int ns \<and>
     1 \<le> nb \<and> ns \<le> nb \<and> 1 \<le> e \<and> e \<le> 30 \<and> 2 \<le> sd \<and> sd + 1 + e \<le> 255 \<and>
     data_codewords ver ecl = int (part_off ns sd nb) \<and>
     raw_codewords ver = int (sd * nb + (nb - ns) + e * nb)"

lemma layout_exists:
  assumes "1 \<le> ver" "ver \<le> 40"
  obtains nb ns sd e where "has_layout ver ecl nb ns sd e"
proof -
  note l = layout[OF assms, of ecl, unfolded layout_ok_def]
  define R N E where "R = raw_codewords ver" and "N = num_blocks ver ecl" and "E = ecc_len ver ecl"
  have N: "1 \<le> N" and E: "7 \<le> E" "E \<le> 30" "E + 2 \<le> R div N" "R div N \<le> 254"
    using l by (simp_all add: N_def E_def R_def raw_codewords_def)
  have m: "0 \<le> R mod N" "R mod N < N" using N by simp_all
  have R: "R = (R div N) * N + R mod N" by simp
  define nb ns sd e where "nb = nat N" and "ns = nat (N - R mod N)" and "sd = nat (R div N - E)" and "e = nat E"
  have i: "N = int nb" "E = int e" "R div N - E = int sd" "N - R mod N = int ns"
    using N E m by (simp_all add: nb_def ns_def sd_def e_def)
  have long: "R mod N = int (nb - ns)" "ns \<le> nb" using i m by linarith+
  have "R = int (sd * nb + (nb - ns) + e * nb)"
  proof -
    have "R div N = int sd + int e" using i by linarith
    then show ?thesis using R long(1) by (simp add: i(1) algebra_simps)
  qed
  moreover have "data_codewords ver ecl = R - E * N"
    by (simp add: data_codewords_def R_def N_def E_def raw_codewords_def)
  ultimately have "has_layout ver ecl nb ns sd e"
    using i N E long
    by (simp add: has_layout_def short_data_def short_blocks_def part_off_def R_def[symmetric]
        N_def[symmetric] E_def[symmetric] mult.commute)
  then show thesis by (rule that)
qed

lemma addEccAndInterleave_eq:
  assumes "1 \<le> ver" "ver \<le> 40" "has_layout ver ecl nb ns sd e" "list_all is_byte data"
    "int (length data) = data_codewords ver ecl"
  shows "addEccAndInterleave ver ecl data
           = Inr (interleaved ns sd e (map (padded_block ns sd e data) [0..<nb]))"
proof -
  note L = assms(3)[unfolded has_layout_def]
  let ?blocks = "map (padded_block ns sd e data) [0..<nb]"
  have len: "length data = part_off ns sd nb" using L assms(5) by simp
  have all: "\<forall>b \<in> set ?blocks. length b = sd + 1 + e"
    using length_padded_block[OF len] L by auto
  have tabs: "NUM_ERROR_CORRECTION_BLOCKS ! ordinal ecl ! nat ver = int nb"
    "ECC_CODEWORDS_PER_BLOCK ! ordinal ecl ! nat ver = int e"
    using L by (simp_all add: num_blocks_def ecc_len_def)
  have raw: "raw_modules ver div 8 = raw_codewords ver" by (simp add: raw_codewords_def)
  have ns: "int nb - raw_codewords ver mod int nb = int ns" using L by (metis short_blocks_def)
  have sbl: "raw_codewords ver div int nb = int (sd + e)"
  proof -
    have "short_data ver ecl = int sd" "num_blocks ver ecl = int nb" "ecc_len ver ecl = int e"
      using L by blast+
    then show ?thesis by (simp add: short_data_def)
  qed
  have divi: "reedSolomonComputeDivisor (int e) = Inr (map int_of (divisor_gf e))"
    using reedSolomonComputeDivisor_gf[of "int e"] L by simp
  have loop: "foldE (block_step data (map int_of (divisor_gf e)) (int ns) (int (sd + e)) (int e)) [0..<nb] ([], 0)
      = Inr (?blocks, int (part_off ns sd nb))"
    using block_loop[OF len assms(4)] L by simp
  have hd: "(case ?blocks of [] \<Rightarrow> Inl TypeError | b # _ \<Rightarrow> Inr (length b)) = (Inr (sd + 1 + e) :: nat js)"
    using all L by (cases ?blocks) simp_all
  have inter: "foldE (\<lambda>i. foldE (interleave_cell (int ns) (int (sd + e)) (int e) i) (List.enumerate 0 ?blocks))
      [0..<sd + 1 + e] [] = Inr (interleaved ns sd e ?blocks)"
    using interleave_loop[OF all] columns_interleaved[of ns ?blocks sd e] L by simp
  have "int (length (interleaved ns sd e ?blocks)) = raw_codewords ver"
    using L by (simp add: length_interleaved)
  then show ?thesis
    unfolding addEccAndInterleave_def getNumDataCodewords_eq getNumRawDataModules_eq Let_def
    using assms(1,2,5)
    by (simp only: if_True if_False simp_thms bindE.simps tabs raw ns sbl divi nat_int loop prod.case hd inter assertE_simps)
qed

lemma deinterleave_interleaved:
  assumes "has_layout ver ecl nb ns sd e" "length data = part_off ns sd nb"
  shows "deinterleave ver ecl (interleaved ns sd e (map (padded_block ns sd e data) [0..<nb]))
           = map (\<lambda>j. (part ns sd data j, ecc_of e (part ns sd data j))) [0..<nb]"
proof -
  note L = assms(1)[unfolded has_layout_def]
  define blocks where "blocks = map (padded_block ns sd e data) [0..<nb]"
  have nb: "length blocks = nb" by (simp add: blocks_def)
  have blk: "blocks ! j = part ns sd data j @ (if j < ns then [0] else []) @ ecc_of e (part ns sd data j)"
    "length (part ns sd data j) = part_len ns sd j" if "j < nb" for j
    using that length_part[OF assms(2)] by (simp_all add: blocks_def padded_block_def)
  have "block_data nb ns sd (interleaved ns sd e blocks) j = part ns sd data j" if j: "j < nb" for j
  proof -
    have "map (\<lambda>i. interleaved ns sd e blocks ! (i * nb + j)) [0..<sd] = map (\<lambda>i. part ns sd data j ! i) [0..<sd]"
      using interleaved_data[of j blocks _ sd ns e] j blk[OF j]
      by (intro map_cong) (auto simp: nb nth_append part_len_def)
    moreover have "interleaved ns sd e blocks ! (sd * nb + (j - ns)) = part ns sd data j ! sd" if "\<not> j < ns"
      using interleaved_long[of ns j blocks sd e] that j blk[OF j] by (simp add: nb nth_append part_len_def)
    moreover have "[0..<part_len ns sd j] = (if j < ns then [0..<sd] else [0..<sd] @ [sd])"
      by (simp add: part_len_def)
    ultimately have "block_data nb ns sd (interleaved ns sd e blocks) j = map ((!) (part ns sd data j)) [0..<part_len ns sd j]"
      by (simp add: block_data_def)
    then show ?thesis using map_nth_upt[OF blk(2)[OF j]] by simp
  qed
  moreover have "block_ecc nb ns sd e (interleaved ns sd e blocks) j = ecc_of e (part ns sd data j)"
    if j: "j < nb" for j
  proof -
    have "block_ecc nb ns sd e (interleaved ns sd e blocks) j = map (\<lambda>i. ecc_of e (part ns sd data j) ! i) [0..<e]"
      unfolding block_ecc_def
      using interleaved_ecc[of ns blocks j _ e sd] j L blk[OF j]
      by (intro map_cong) (auto simp: nb nth_append part_len_def)
    then show ?thesis using map_nth_upt[OF length_ecc_of] L by simp
  qed
  ultimately show ?thesis
    unfolding deinterleave_def Let_def blocks_def [symmetric]
    using L by simp
qed

lemma interleaved_bytes:
  assumes "has_layout ver ecl nb ns sd e" "length data = part_off ns sd nb" "list_all is_byte data"
  shows "list_all is_byte (interleaved ns sd e (map (padded_block ns sd e data) [0..<nb]))"
proof -
  note L = assms(1)[unfolded has_layout_def]
  let ?blocks = "map (padded_block ns sd e data) [0..<nb]"
  have "is_byte (b ! i)" if "b \<in> set ?blocks" "i < sd + 1 + e" for b i
  proof -
    have "list_all is_byte b" using that(1) is_byte_part[OF assms(3)] is_byte_ecc_of
      by (auto simp: padded_block_def is_byte_def)
    then show ?thesis using that length_padded_block[OF assms(2)] L by (auto simp: list_all_length)
  qed
  then show ?thesis using L
    by (auto simp: interleaved_def list_all_iff simp del: upt_Suc set_map)
       (auto simp del: upt_Suc)
qed

lemma addEcc_recovers:
  assumes "1 \<le> ver" "ver \<le> 40" "list_all is_byte data" "getNumDataCodewords ver ecl = Inr (int (length data))"
  shows "\<exists>cw. addEccAndInterleave ver ecl data = Inr cw \<and> int (length cw) = raw_modules ver div 8 \<and>
    list_all is_byte cw \<and> concat (map fst (deinterleave ver ecl cw)) = data \<and>
    (\<forall>(d, ecc) \<in> set (deinterleave ver ecl cw).
       int (length ecc) = ecc_len ver ecl \<and> rs_encode (ecc_len ver ecl) d = Inr (d @ ecc) \<and>
       (\<forall>i < length ecc. peval (map gf_of (d @ ecc)) (gf_of 2 ^ i) = 0))"
proof -
  obtain nb ns sd e where hl: "has_layout ver ecl nb ns sd e" by (rule layout_exists[OF assms(1,2)])
  note L = hl[unfolded has_layout_def]
  have len: "int (length data) = data_codewords ver ecl" "length data = part_off ns sd nb"
    using assms L by (simp_all add: getNumDataCodewords_eq)
  let ?cw = "interleaved ns sd e (map (padded_block ns sd e data) [0..<nb])"
  note eq = addEccAndInterleave_eq[OF assms(1,2) hl assms(3) len(1)]
  note de = deinterleave_interleaved[OF hl len(2)]
  have "int (length ?cw) = raw_modules ver div 8"
    using L by (simp add: length_interleaved raw_codewords_def)
  moreover have "concat (map fst (deinterleave ver ecl ?cw)) = data"
    using concat_parts[of ns sd data nb] len(2) by (simp add: de comp_def)
  moreover have "rs_encode (int e) d = Inr (d @ ecc_of e d) \<and> length (ecc_of e d) = e \<and>
      (\<forall>i<e. peval (map gf_of (d @ ecc_of e d)) (gf_of 2 ^ i) = 0)" if "d = part ns sd data j" for d j
    using rs_encode_bytes[of "int e" d] is_byte_part[OF assms(3), of ns sd j] that L length_ecc_of[of e d]
      syndromes_zero[of _ e "map gf_of d"]
    by (simp add: ecc_of_def gf_of_2 comp_def)
  ultimately show ?thesis
    using eq interleaved_bytes[OF hl len(2) assms(3)] L by (auto simp: de)
qed

section \<open>Properties\<close>

text \<open>
  C15: For every version from 1 to 40, every level and every byte string of the announced length,
  \<^verbatim>\<open>addEccAndInterleave\<close> returns exactly the raw codewords of the version as bytes, without its
  assertion failing, and taking the blocks apart again gives back the data in order, with
  every block a Reed-Solomon codeword of the level's number of error correction bytes.
\<close>
theorem interleaving_recovers_blocks:
  assumes "1 \<le> ver" "ver \<le> 40" "list_all is_byte data" "getNumDataCodewords ver ecl = Inr (int (length data))"
  shows "\<exists>cw. addEccAndInterleave ver ecl data = Inr cw \<and> int (length cw) = raw_modules ver div 8 \<and>
    list_all is_byte cw \<and> concat (map fst (deinterleave ver ecl cw)) = data \<and>
    (\<forall>(d, ecc) \<in> set (deinterleave ver ecl cw).
       int (length ecc) = ecc_len ver ecl \<and> rs_encode (ecc_len ver ecl) d = Inr (d @ ecc) \<and>
       (\<forall>i < length ecc. peval (map gf_of (d @ ecc)) (gf_of 2 ^ i) = 0))"
  by (rule addEcc_recovers[OF assms])

theorem interleaving_recovers_blocks_witness:
  "\<exists>cw. addEccAndInterleave 1 HIGH [1, 2, 3, 4, 5, 6, 7, 8, 9] = Inr cw \<and> int (length cw) = raw_modules 1 div 8 \<and>
    concat (map fst (deinterleave 1 HIGH cw)) = [1, 2, 3, 4, 5, 6, 7, 8, 9]"
proof -
  have "list_all is_byte [1, 2, 3, 4, 5, 6, 7, 8, 9]" by (simp add: is_byte_def)
  moreover have "getNumDataCodewords 1 HIGH = Inr (int (length [1, 2, 3, 4, 5, 6, 7, 8, 9 :: int]))" by code_simp
  ultimately show ?thesis
    using interleaving_recovers_blocks[of 1 "[1, 2, 3, 4, 5, 6, 7, 8, 9]" HIGH] by auto
qed

end
