(* ===== verification/Matrix.thy ===== *)
theory Matrix
  imports Bits QrTables
begin

text \<open>
  The module grid of \<^verbatim>\<open>qrcodegen.QrCode\<close> in \<^verbatim>\<open>frontend/js/qrcodegen.js\<close> and everything the
  constructor draws on it that is not data: \<^verbatim>\<open>setFunctionModule\<close>, \<^verbatim>\<open>drawFunctionPatterns\<close>,
  \<^verbatim>\<open>drawFinderPattern\<close>, \<^verbatim>\<open>drawAlignmentPattern\<close>, \<^verbatim>\<open>drawFormatBits\<close>, \<^verbatim>\<open>drawVersion\<close>, and
  \<^verbatim>\<open>getModule\<close>.

  Every drawing routine is shown to be a \<^verbatim>\<open>paint\<close>, the writing of a list of cells one after the
  other (\<^verbatim>\<open>finder_cells\<close>, \<^verbatim>\<open>format_cells\<close> and so on), so what a routine does to the grid is
  read off its list of cells.
\<close>

section \<open>State\<close>

type_synonym grid = "bool list list" \<comment> \<open>indexed \<^verbatim>\<open>[y][x]\<close>\<close>

text \<open>\<^verbatim>\<open>qr_mask\<close> is \<^verbatim>\<open>None\<close> until the constructor assigns the field.\<close>

record qrcode =
  qr_version :: int
  qr_ecl :: ecc
  qr_size :: int
  modules :: grid
  isFunction :: grid
  qr_mask :: "int option"

text \<open>
  Element access \<^verbatim>\<open>grid[y][x]\<close>: a missing row is a \<^verbatim>\<open>TypeError\<close>; a column outside the row would
  read \<^verbatim>\<open>undefined\<close> or grow the row, which the model reports as \<^verbatim>\<open>Undefined\<close>.
\<close>

definition grid_get :: "grid \<Rightarrow> int \<Rightarrow> int \<Rightarrow> bool js" where
  "grid_get g x y =
     (if \<not> (0 \<le> y \<and> y < int (length g)) then Inl TypeError
      else if \<not> (0 \<le> x \<and> x < int (length (g ! nat y))) then Inl Undefined
      else Inr (g ! nat y ! nat x))"

definition grid_set :: "grid \<Rightarrow> int \<Rightarrow> int \<Rightarrow> bool \<Rightarrow> grid js" where
  "grid_set g x y c =
     (if \<not> (0 \<le> y \<and> y < int (length g)) then Inl TypeError
      else if \<not> (0 \<le> x \<and> x < int (length (g ! nat y))) then Inl Undefined
      else Inr (g[nat y := (g ! nat y)[nat x := c]]))"

section \<open>The code\<close>

definition getModule :: "qrcode \<Rightarrow> int \<Rightarrow> int \<Rightarrow> bool js" where
  "getModule qr x y =
     (if 0 \<le> x \<and> x < qr_size qr \<and> 0 \<le> y \<and> y < qr_size qr then grid_get (modules qr) x y else Inr False)"

definition setFunctionModule :: "int \<Rightarrow> int \<Rightarrow> bool \<Rightarrow> qrcode \<Rightarrow> qrcode js" where
  "setFunctionModule x y isDark qr =
     bindE (grid_set (modules qr) x y isDark) (\<lambda>m.
     bindE (grid_set (isFunction qr) x y True) (\<lambda>f.
     Inr (qr\<lparr>modules := m, isFunction := f\<rparr>)))"

definition drawFinderPattern :: "int \<Rightarrow> int \<Rightarrow> qrcode \<Rightarrow> qrcode js" where
  "drawFinderPattern x y qr =
     foldE (\<lambda>dy. foldE (\<lambda>dx qr.
         let dist = max \<bar>dx\<bar> \<bar>dy\<bar>; xx = x + dx; yy = y + dy
         in if 0 \<le> xx \<and> xx < qr_size qr \<and> 0 \<le> yy \<and> yy < qr_size qr
            then setFunctionModule xx yy (dist \<noteq> 2 \<and> dist \<noteq> 4) qr
            else Inr qr) [-4..4]) [-4..4] qr"

definition drawAlignmentPattern :: "int \<Rightarrow> int \<Rightarrow> qrcode \<Rightarrow> qrcode js" where
  "drawAlignmentPattern x y qr =
     foldE (\<lambda>dy. foldE (\<lambda>dx. setFunctionModule (x + dx) (y + dy) (max \<bar>dx\<bar> \<bar>dy\<bar> \<noteq> 1)) [-2..2]) [-2..2] qr"

definition format_bits :: "ecc \<Rightarrow> int \<Rightarrow> int" where
  "format_bits ecl msk =
     (let data = js_or (js_shl (formatBits ecl) 3) msk;
          rem = fold (\<lambda>_ rem. js_xor (js_shl rem 1) (js_ushr rem 9 * 0x537)) [0..<10] data
      in js_xor (js_or (js_shl data 10) rem) 0x5412)"

definition drawFormatBits :: "int \<Rightarrow> qrcode \<Rightarrow> qrcode js" where
  "drawFormatBits msk qr =
     (let bits = format_bits (qr_ecl qr) msk; sz = qr_size qr in
      bindE (assertE (js_ushr bits 15 = 0)) (\<lambda>_.
      bindE (foldE (\<lambda>i. setFunctionModule 8 i (getBit bits i)) [0..5] qr) (\<lambda>qr.
      bindE (setFunctionModule 8 7 (getBit bits 6) qr) (\<lambda>qr.
      bindE (setFunctionModule 8 8 (getBit bits 7) qr) (\<lambda>qr.
      bindE (setFunctionModule 7 8 (getBit bits 8) qr) (\<lambda>qr.
      bindE (foldE (\<lambda>i. setFunctionModule (14 - i) 8 (getBit bits i)) [9..14] qr) (\<lambda>qr.
      bindE (foldE (\<lambda>i. setFunctionModule (sz - 1 - i) 8 (getBit bits i)) [0..7] qr) (\<lambda>qr.
      bindE (foldE (\<lambda>i. setFunctionModule 8 (sz - 15 + i) (getBit bits i)) [8..14] qr) (\<lambda>qr.
      setFunctionModule 8 (sz - 8) True qr)))))))))"

definition version_bits :: "int \<Rightarrow> int" where
  "version_bits ver =
     (let rem = fold (\<lambda>_ rem. js_xor (js_shl rem 1) (js_ushr rem 11 * 0x1F25)) [0..<12] ver
      in js_or (js_shl ver 12) rem)"

definition drawVersion :: "qrcode \<Rightarrow> qrcode js" where
  "drawVersion qr =
     (if qr_version qr < 7 then Inr qr
      else let bits = version_bits (qr_version qr); sz = qr_size qr in
           bindE (assertE (js_ushr bits 18 = 0)) (\<lambda>_.
           foldE (\<lambda>i qr.
             let color = getBit bits i; a = sz - 11 + i mod 3; b = i div 3
             in bindE (setFunctionModule a b color qr) (setFunctionModule b a color)) [0..17] qr))"

definition drawAlignmentPatterns :: "int list \<Rightarrow> qrcode \<Rightarrow> qrcode js" where
  "drawAlignmentPatterns alignPatPos qr =
     (let numAlign = length alignPatPos
      in foldE (\<lambda>i. foldE (\<lambda>j.
           if \<not> (i = 0 \<and> j = 0 \<or> i = 0 \<and> j = numAlign - 1 \<or> i = numAlign - 1 \<and> j = 0)
           then drawAlignmentPattern (alignPatPos ! i) (alignPatPos ! j)
           else Inr) [0..<numAlign]) [0..<numAlign] qr)"

definition drawFunctionPatterns :: "qrcode \<Rightarrow> qrcode js" where
  "drawFunctionPatterns qr =
     (let sz = qr_size qr in
      bindE (foldE (\<lambda>i qr.
               bindE (setFunctionModule 6 i (i mod 2 = 0) qr) (setFunctionModule i 6 (i mod 2 = 0)))
             [0..sz - 1] qr) (\<lambda>qr.
      bindE (drawFinderPattern 3 3 qr) (\<lambda>qr.
      bindE (drawFinderPattern (sz - 4) 3 qr) (\<lambda>qr.
      bindE (drawFinderPattern 3 (sz - 4) qr) (\<lambda>qr.
      bindE (drawAlignmentPatterns (getAlignmentPatternPositions (qr_version qr) sz) qr) (\<lambda>qr.
      bindE (drawFormatBits 0 qr) drawVersion))))))"

section \<open>Painting\<close>

type_synonym cell = "int \<times> int \<times> bool"

definition paint :: "cell list \<Rightarrow> qrcode \<Rightarrow> qrcode js" where
  "paint = foldE (\<lambda>(x, y, d). setFunctionModule x y d)"

lemma paint_simps [simp]:
  "paint [] qr = Inr qr"
  "paint ((x, y, d) # cs) qr = bindE (setFunctionModule x y d qr) (paint cs)"
  by (simp_all add: paint_def)

lemma paint_append: "paint (cs @ ds) qr = bindE (paint cs qr) (paint ds)"
  by (simp add: paint_def foldE_append)

lemma paint_one: "setFunctionModule x y d qr = paint [(x, y, d)] qr"
  by (cases "setFunctionModule x y d qr") simp_all

lemma paint_fun: "setFunctionModule x y d = paint [(x, y, d)]"
  by (rule ext) (rule paint_one)

lemma foldE_paint:
  assumes "\<And>a qr. a \<in> set as \<Longrightarrow> f a qr = paint (g a) qr"
  shows "foldE f as qr = paint (concat (map g as)) qr"
  using assms by (induction as arbitrary: qr) (auto simp: paint_append intro!: bindE_cong)

text \<open>Painting does not change the version, the level and the size.\<close>

definition same_code :: "qrcode \<Rightarrow> qrcode \<Rightarrow> bool" where
  "same_code a b \<longleftrightarrow> qr_version a = qr_version b \<and> qr_ecl a = qr_ecl b \<and> qr_size a = qr_size b \<and> qr_mask a = qr_mask b"

lemma same_code_refl [simp]: "same_code a a"
  by (simp add: same_code_def)

lemma setFunctionModule_same: "setFunctionModule x y d qr = Inr qr' \<Longrightarrow> same_code qr qr'"
  by (auto simp: setFunctionModule_def bindE_Inr_iff same_code_def)

lemma paint_same: "paint cs qr = Inr qr' \<Longrightarrow> same_code qr qr'"
proof (induction cs arbitrary: qr)
  case (Cons c cs)
  then show ?case
    using setFunctionModule_same by (cases c) (fastforce simp: bindE_Inr_iff same_code_def)
qed simp

lemma bind_paint:
  assumes "\<And>qr'. same_code qr qr' \<Longrightarrow> f qr' = paint ds qr'"
  shows "bindE (paint cs qr) f = paint (cs @ ds) qr"
  unfolding paint_append by (rule bindE_cong) (use assms paint_same in auto)

lemma bind_paint_from:
  assumes "same_code qr q" "m = paint cs q" "\<And>q'. same_code qr q' \<Longrightarrow> f q' = paint ds q'"
  shows "bindE m f = paint (cs @ ds) q"
  unfolding assms(2) by (rule bind_paint) (use assms(1,3) in \<open>auto simp: same_code_def\<close>)

section \<open>What each routine paints\<close>

definition finder_cells :: "int \<Rightarrow> int \<Rightarrow> int \<Rightarrow> cell list" where
  "finder_cells sz x y =
     concat (map (\<lambda>dy. concat (map (\<lambda>dx.
       let dist = max \<bar>dx\<bar> \<bar>dy\<bar>; xx = x + dx; yy = y + dy
       in if 0 \<le> xx \<and> xx < sz \<and> 0 \<le> yy \<and> yy < sz then [(xx, yy, dist \<noteq> 2 \<and> dist \<noteq> 4)] else [])
     [-4..4])) [-4..4])"

definition alignment_cells :: "int \<Rightarrow> int \<Rightarrow> cell list" where
  "alignment_cells x y =
     concat (map (\<lambda>dy. map (\<lambda>dx. (x + dx, y + dy, max \<bar>dx\<bar> \<bar>dy\<bar> \<noteq> 1)) [-2..2]) [-2..2])"

definition format_cells :: "int \<Rightarrow> int \<Rightarrow> cell list" where
  "format_cells sz bits =
     map (\<lambda>i. (8, i, getBit bits i)) [0..5]
     @ [(8, 7, getBit bits 6), (8, 8, getBit bits 7), (7, 8, getBit bits 8)]
     @ map (\<lambda>i. (14 - i, 8, getBit bits i)) [9..14]
     @ map (\<lambda>i. (sz - 1 - i, 8, getBit bits i)) [0..7]
     @ map (\<lambda>i. (8, sz - 15 + i, getBit bits i)) [8..14]
     @ [(8, sz - 8, True)]"

definition version_cells :: "int \<Rightarrow> int \<Rightarrow> cell list" where
  "version_cells ver sz =
     (if ver < 7 then []
      else concat (map (\<lambda>i. [(sz - 11 + i mod 3, i div 3, getBit (version_bits ver) i),
                             (i div 3, sz - 11 + i mod 3, getBit (version_bits ver) i)]) [0..17]))"

definition timing_cells :: "int \<Rightarrow> cell list" where
  "timing_cells sz = concat (map (\<lambda>i. [(6, i, i mod 2 = 0), (i, 6, i mod 2 = 0)]) [0..sz - 1])"

definition alignment_centers :: "int list \<Rightarrow> (int \<times> int) list" where
  "alignment_centers ps =
     (let n = length ps
      in concat (map (\<lambda>i. concat (map (\<lambda>j.
           if \<not> (i = 0 \<and> j = 0 \<or> i = 0 \<and> j = n - 1 \<or> i = n - 1 \<and> j = 0)
           then [(ps ! i, ps ! j)] else []) [0..<n])) [0..<n]))"

definition function_cells :: "int \<Rightarrow> ecc \<Rightarrow> cell list" where
  "function_cells ver ecl =
     (let sz = ver * 4 + 17
      in timing_cells sz @ finder_cells sz 3 3 @ finder_cells sz (sz - 4) 3 @ finder_cells sz 3 (sz - 4)
         @ concat (map (\<lambda>(x, y). alignment_cells x y) (alignment_centers (getAlignmentPatternPositions ver sz)))
         @ format_cells sz (format_bits ecl 0) @ version_cells ver sz)"

lemma foldE_map_paint:
  assumes "\<And>a qr. a \<in> set as \<Longrightarrow> f a qr = paint [g a] qr"
  shows "foldE f as qr = paint (map g as) qr"
proof -
  have "concat (map (\<lambda>a. [g a]) as) = map g as" by (induction as) simp_all
  then show ?thesis using foldE_paint[of as f "\<lambda>a. [g a]" qr] assms by simp
qed

lemma foldE_paint_size:
  assumes "\<And>a qr'. a \<in> set as \<Longrightarrow> same_code qr qr' \<Longrightarrow> f a qr' = paint (g a) qr'"
  shows "foldE f as qr = paint (concat (map g as)) qr"
  using assms
proof (induction as arbitrary: qr)
  case (Cons a as)
  have "bindE (paint (g a) qr) (foldE f as) = paint (g a @ concat (map g as)) qr"
  proof (rule bind_paint)
    fix qr' assume "same_code qr qr'"
    then show "foldE f as qr' = paint (concat (map g as)) qr'"
      using Cons.prems by (intro Cons.IH) (auto simp: same_code_def)
  qed
  then show ?case using Cons.prems[of a qr] by simp
qed simp

lemma drawFinderPattern_paint: "drawFinderPattern x y qr = paint (finder_cells (qr_size qr) x y) qr"
  unfolding drawFinderPattern_def finder_cells_def
proof (intro foldE_paint_size)
  fix dy qr' dx qr'' assume "same_code qr qr'" "same_code qr' qr''"
  then have sz: "qr_size qr'' = qr_size qr" by (simp add: same_code_def)
  show "(let dist = max \<bar>dx\<bar> \<bar>dy\<bar>; xx = x + dx; yy = y + dy
         in if 0 \<le> xx \<and> xx < qr_size qr'' \<and> 0 \<le> yy \<and> yy < qr_size qr''
            then setFunctionModule xx yy (dist \<noteq> 2 \<and> dist \<noteq> 4) qr'' else Inr qr'')
      = paint (let dist = max \<bar>dx\<bar> \<bar>dy\<bar>; xx = x + dx; yy = y + dy
         in if 0 \<le> xx \<and> xx < qr_size qr \<and> 0 \<le> yy \<and> yy < qr_size qr
            then [(xx, yy, dist \<noteq> 2 \<and> dist \<noteq> 4)] else []) qr''"
    unfolding sz Let_def by (simp add: paint_one del: paint_simps(2))
qed

lemma drawAlignmentPattern_paint: "drawAlignmentPattern x y qr = paint (alignment_cells x y) qr"
  unfolding drawAlignmentPattern_def alignment_cells_def
  by (intro foldE_paint foldE_map_paint paint_one)

lemma drawFormatBits_paint:
  "js_ushr (format_bits (qr_ecl qr) msk) 15 = 0 \<Longrightarrow>
     drawFormatBits msk qr = paint (format_cells (qr_size qr) (format_bits (qr_ecl qr) msk)) qr"
  unfolding drawFormatBits_def format_cells_def Let_def foldE_map_paint[OF paint_one] paint_one
  by (simp only: simp_thms assertE_simps bindE.simps paint_append [symmetric] append.simps)

lemma drawVersion_paint:
  assumes "7 \<le> qr_version qr \<Longrightarrow> js_ushr (version_bits (qr_version qr)) 18 = 0"
  shows "drawVersion qr = paint (version_cells (qr_version qr) (qr_size qr)) qr"
proof (cases "qr_version qr < 7")
  case True
  then show ?thesis by (simp add: drawVersion_def version_cells_def)
next
  case False
  have two: "bindE (setFunctionModule a b c q) (setFunctionModule b a c) = paint [(a, b, c), (b, a, c)] q" for a b c q
    unfolding paint_one by (simp only: paint_append [symmetric] append.simps)
  show ?thesis
    using False assms unfolding drawVersion_def version_cells_def Let_def two
    by (simp add: foldE_paint[OF refl] del: paint_simps)
qed

lemma paint_skip: "Inr qr = paint [] qr"
  by simp

lemma drawAlignmentPatterns_paint:
  "drawAlignmentPatterns ps qr = paint (concat (map (\<lambda>(x, y). alignment_cells x y) (alignment_centers ps))) qr"
proof -
  let ?n = "length ps"
  let ?corner = "\<lambda>i j. i = 0 \<and> j = 0 \<or> i = 0 \<and> j = ?n - 1 \<or> i = ?n - 1 \<and> j = 0"
  have "drawAlignmentPatterns ps qr = paint (concat (map (\<lambda>i. concat (map (\<lambda>j.
      if \<not> ?corner i j then alignment_cells (ps ! i) (ps ! j) else []) [0..<?n])) [0..<?n])) qr"
    unfolding drawAlignmentPatterns_def Let_def
  proof (intro foldE_paint)
    fix i j q
    show "(if \<not> ?corner i j then drawAlignmentPattern (ps ! i) (ps ! j) else Inr) q
        = paint (if \<not> ?corner i j then alignment_cells (ps ! i) (ps ! j) else []) q"
      by (cases "?corner i j") (simp_all only: not_True_eq_False not_False_eq_True if_True if_False
          drawAlignmentPattern_paint paint_skip)
  qed
  moreover have "concat (map (\<lambda>(x, y). alignment_cells x y) (alignment_centers ps))
      = concat (map (\<lambda>i. concat (map (\<lambda>j.
          if \<not> ?corner i j then alignment_cells (ps ! i) (ps ! j) else []) [0..<?n])) [0..<?n])"
  proof -
    have c: "concat (map h (concat (map f xs))) = concat (map (\<lambda>x. concat (map h (f x))) xs)"
      for h :: "int \<times> int \<Rightarrow> cell list" and f :: "nat \<Rightarrow> (int \<times> int) list" and xs
      by (induction xs) simp_all
    show ?thesis unfolding alignment_centers_def Let_def c
      by (intro arg_cong[where f = concat] map_cong refl) simp
  qed
  ultimately show ?thesis by simp
qed

section \<open>Format and version information\<close>

text \<open>The assertions of \<^verbatim>\<open>drawFormatBits\<close> and \<^verbatim>\<open>drawVersion\<close> never fail.\<close>

definition format_ok :: "ecc \<Rightarrow> int \<Rightarrow> bool" where
  "format_ok ecl msk \<longleftrightarrow> 0 \<le> format_bits ecl msk \<and> format_bits ecl msk < 2 ^ 15"

definition format_level_ok :: "ecc \<Rightarrow> bool" where
  "format_level_ok ecl \<longleftrightarrow> list_all (format_ok ecl) [0, 1, 2, 3, 4, 5, 6, 7]"

lemma format_bits_all: "list_all format_level_ok levels"
  by code_simp

lemma format_bits_bounds:
  assumes "0 \<le> msk" "msk \<le> 7"
  shows "0 \<le> format_bits ecl msk" "format_bits ecl msk < 2 ^ 15" "js_ushr (format_bits ecl msk) 15 = 0"
proof -
  have "msk \<in> {0, 1, 2, 3, 4, 5, 6, 7}" using assms by auto
  then show b: "0 \<le> format_bits ecl msk" "format_bits ecl msk < 2 ^ 15"
    using format_bits_all in_levels[of ecl]
    unfolding list_all_iff format_level_ok_def format_ok_def by auto
  then show "js_ushr (format_bits ecl msk) 15 = 0" by (simp add: js_ushr_nonneg)
qed

definition version_ok :: "int \<Rightarrow> bool" where
  "version_ok ver \<longleftrightarrow> 0 \<le> version_bits ver \<and> version_bits ver < 2 ^ 18"

lemma version_bits_all: "list_all version_ok versions"
  by code_simp

lemma version_bits_ok:
  assumes "7 \<le> ver" "ver \<le> 40"
  shows "js_ushr (version_bits ver) 18 = 0"
proof -
  have "0 \<le> version_bits ver" "version_bits ver < 2 ^ 18"
    using version_bits_all assms in_versions[of ver] by (auto simp: list_all_iff version_ok_def)
  then show ?thesis by (simp add: js_ushr_nonneg)
qed

lemma drawFunctionPatterns_paint:
  assumes "qr_version qr \<le> 40" "qr_size qr = qr_version qr * 4 + 17"
  shows "drawFunctionPatterns qr = paint (function_cells (qr_version qr) (qr_ecl qr)) qr"
proof -
  have timing: "foldE (\<lambda>i qr. bindE (setFunctionModule 6 i (i mod 2 = 0) qr) (setFunctionModule i 6 (i mod 2 = 0)))
      is q = paint (concat (map (\<lambda>i. [(6, i, i mod 2 = 0), (i, 6, i mod 2 = 0)]) is)) q" for "is" q
    by (rule foldE_paint) (simp only: paint_fun paint_append [symmetric] append.simps)
  have fmt: "drawFormatBits 0 q = paint (format_cells (qr_size q) (format_bits (qr_ecl q) 0)) q" for q
    by (rule drawFormatBits_paint) (simp add: format_bits_bounds)
  have ver: "drawVersion q = paint (version_cells (qr_version q) (qr_size q)) q" if "same_code qr q" for q
    by (rule drawVersion_paint) (use that assms version_bits_ok[of "qr_version q"] in \<open>auto simp: same_code_def\<close>)
  define V E S where ves: "V = qr_version qr" "E = qr_ecl qr" "S = qr_size qr"
  have S: "S = V * 4 + 17" using assms(2) by (simp add: ves)
  have same: "qr_version q = V" "qr_ecl q = E" "qr_size q = S"
    if "same_code qr q" for q using that by (simp_all add: same_code_def ves)
  show ?thesis
    unfolding drawFunctionPatterns_def Let_def timing drawFinderPattern_paint drawAlignmentPatterns_paint fmt
      function_cells_def assms(2)[symmetric] timing_cells_def[symmetric] ves [symmetric]
    by (intro bind_paint_from[of qr]) (simp_all only: same ver same_code_refl S)
qed

end
