(* ===== verification/FunctionModules.thy ===== *)
theory FunctionModules
  imports Matrix
begin

text \<open>
  What the function patterns leave on the grid. \<^verbatim>\<open>paint_effect\<close> gives the grid after painting a
  list of cells; the cells of all function patterns together are a union of disjoint rectangles
  (\<^verbatim>\<open>function_rects\<close>), so they can be counted: what they leave free is exactly the number
  \<^verbatim>\<open>getNumRawDataModules\<close> computes from its closed formula, for each of the 40 versions.
\<close>

section \<open>Grids\<close>

definition wf_grid :: "nat \<Rightarrow> grid \<Rightarrow> bool" where
  "wf_grid n g \<longleftrightarrow> length g = n \<and> (\<forall>row \<in> set g. length row = n)"

definition grid_at :: "grid \<Rightarrow> int \<Rightarrow> int \<Rightarrow> bool" where
  "grid_at g x y = g ! nat y ! nat x"

definition in_sq :: "int \<Rightarrow> int \<Rightarrow> int \<Rightarrow> bool" where
  "in_sq n x y \<longleftrightarrow> 0 \<le> x \<and> x < n \<and> 0 \<le> y \<and> y < n"

lemma wf_grid_row: "wf_grid n g \<Longrightarrow> i < n \<Longrightarrow> length (g ! i) = n"
  by (simp add: wf_grid_def)

lemma grid_get_at: "wf_grid n g \<Longrightarrow> in_sq (int n) x y \<Longrightarrow> grid_get g x y = Inr (grid_at g x y)"
  using wf_grid_row[of n g "nat y"]
  by (auto simp: grid_get_def grid_at_def in_sq_def wf_grid_def)

lemma grid_set_at:
  assumes "wf_grid n g" "in_sq (int n) x y"
  shows "\<exists>g'. grid_set g x y c = Inr g' \<and> wf_grid n g' \<and>
    (\<forall>u v. in_sq (int n) u v \<longrightarrow> grid_at g' u v = (if u = x \<and> v = y then c else grid_at g u v))"
proof -
  let ?g = "g[nat y := (g ! nat y)[nat x := c]]"
  have y: "nat y < n" "length g = n" "length (g ! nat y) = n" and x: "nat x < n"
    using assms wf_grid_row[of n g "nat y"] by (auto simp: in_sq_def wf_grid_def)
  have "grid_set g x y c = Inr ?g" using assms y by (auto simp: grid_set_def in_sq_def)
  moreover have "wf_grid n ?g"
    using assms(1) y set_update_subset_insert[of g "nat y" "(g ! nat y)[nat x := c]"]
    by (auto simp: wf_grid_def dest!: subsetD)
  moreover have "grid_at ?g u v = (if u = x \<and> v = y then c else grid_at g u v)" if "in_sq (int n) u v" for u v
    using that assms(2) x y by (auto simp: grid_at_def in_sq_def nth_list_update)
  ultimately show ?thesis by blast
qed

lemma grid_eqI:
  assumes "wf_grid n g" "wf_grid n h" "\<And>x y. in_sq (int n) x y \<Longrightarrow> grid_at g x y = grid_at h x y"
  shows "g = h"
proof (rule nth_equalityI)
  show "length g = length h" using assms(1,2) by (simp add: wf_grid_def)
  fix j assume j: "j < length g"
  then have jn: "j < n" using assms(1) by (simp add: wf_grid_def)
  show "g ! j = h ! j"
  proof (rule nth_equalityI)
    show "length (g ! j) = length (h ! j)" using assms(1,2) jn by (simp add: wf_grid_row)
    fix i assume "i < length (g ! j)"
    then have "i < n" using assms(1) jn by (simp add: wf_grid_row)
    then show "g ! j ! i = h ! j ! i"
      using assms(3)[of "int i" "int j"] jn by (simp add: in_sq_def grid_at_def)
  qed
qed

definition wf_qr :: "nat \<Rightarrow> qrcode \<Rightarrow> bool" where
  "wf_qr n qr \<longleftrightarrow> qr_size qr = int n \<and> wf_grid n (modules qr) \<and> wf_grid n (isFunction qr)"

section \<open>The effect of painting\<close>

definition covered :: "cell list \<Rightarrow> int \<Rightarrow> int \<Rightarrow> bool" where
  "covered cs x y \<longleftrightarrow> (\<exists>d. (x, y, d) \<in> set cs)"

definition colour :: "cell list \<Rightarrow> int \<Rightarrow> int \<Rightarrow> bool \<Rightarrow> bool" where
  "colour cs x y c = fold (\<lambda>(a, b, d) c. if a = x \<and> b = y then d else c) cs c"

definition cells_in :: "int \<Rightarrow> cell list \<Rightarrow> bool" where
  "cells_in n cs \<longleftrightarrow> (\<forall>(x, y, d) \<in> set cs. in_sq n x y)"

lemma covered_simps [simp]:
  "\<not> covered [] x y"
  "covered ((a, b, d) # cs) x y \<longleftrightarrow> a = x \<and> b = y \<or> covered cs x y"
  "covered (cs @ ds) x y \<longleftrightarrow> covered cs x y \<or> covered ds x y"
  by (auto simp: covered_def)

lemma colour_simps [simp]:
  "colour [] x y c = c"
  "colour ((a, b, d) # cs) x y c = colour cs x y (if a = x \<and> b = y then d else c)"
  "colour (cs @ ds) x y c = colour ds x y (colour cs x y c)"
  by (simp_all add: colour_def)

lemma colour_uncovered: "\<not> covered cs x y \<Longrightarrow> colour cs x y c = c"
  by (induction cs arbitrary: c) auto

lemma colour_covered: "covered cs x y \<Longrightarrow> colour cs x y c = colour cs x y c'"
proof (induction cs arbitrary: c c')
  case (Cons p cs)
  then show ?case by (cases p; cases "covered cs x y") (auto simp: colour_uncovered)
qed simp

lemma paint_effect:
  assumes "wf_qr n qr" "cells_in (int n) cs"
  shows "\<exists>qr'. paint cs qr = Inr qr' \<and> wf_qr n qr' \<and> same_code qr qr' \<and>
    (\<forall>x y. in_sq (int n) x y \<longrightarrow>
       grid_at (modules qr') x y = colour cs x y (grid_at (modules qr) x y) \<and>
       grid_at (isFunction qr') x y = (covered cs x y \<or> grid_at (isFunction qr) x y))"
  using assms
proof (induction cs arbitrary: qr)
  case (Cons p cs)
  obtain a b d where p: "p = (a, b, d)" by (cases p)
  have ab: "in_sq (int n) a b" and cs: "cells_in (int n) cs"
    using Cons.prems(2) by (auto simp: cells_in_def p)
  obtain m where m: "grid_set (modules qr) a b d = Inr m" "wf_grid n m"
    "\<And>u v. in_sq (int n) u v \<Longrightarrow> grid_at m u v = (if u = a \<and> v = b then d else grid_at (modules qr) u v)"
    using grid_set_at[OF _ ab, of "modules qr" d] Cons.prems(1) by (auto simp: wf_qr_def)
  obtain f where f: "grid_set (isFunction qr) a b True = Inr f" "wf_grid n f"
    "\<And>u v. in_sq (int n) u v \<Longrightarrow> grid_at f u v = (if u = a \<and> v = b then True else grid_at (isFunction qr) u v)"
    using grid_set_at[OF _ ab, of "isFunction qr" True] Cons.prems(1) by (auto simp: wf_qr_def)
  let ?q = "qr\<lparr>modules := m, isFunction := f\<rparr>"
  have "wf_qr n ?q" using Cons.prems(1) m(2) f(2) by (simp add: wf_qr_def)
  from Cons.IH[OF this cs] obtain qr' where qr': "paint cs ?q = Inr qr'" "wf_qr n qr'" "same_code ?q qr'"
    "\<forall>x y. in_sq (int n) x y \<longrightarrow> grid_at (modules qr') x y = colour cs x y (grid_at m x y) \<and>
       grid_at (isFunction qr') x y = (covered cs x y \<or> grid_at f x y)" by auto
  have "same_code qr qr'" using qr'(3) by (simp add: same_code_def)
  moreover have "setFunctionModule a b d qr = Inr ?q" by (simp add: setFunctionModule_def m(1) f(1))
  ultimately show ?case
    using qr' m(3) f(3) by (auto simp: p)
qed simp

section \<open>The cells of each pattern\<close>

lemma covered_concat: "covered (concat css) x y \<longleftrightarrow> (\<exists>cs \<in> set css. covered cs x y)"
  by (auto simp: covered_def)

lemma covered_timing:
  "covered (timing_cells sz) x y \<longleftrightarrow> x = 6 \<and> 0 \<le> y \<and> y < sz \<or> y = 6 \<and> 0 \<le> x \<and> x < sz"
  by (auto simp: timing_cells_def covered_concat)

lemma covered_finder:
  "covered (finder_cells sz cx cy) x y \<longleftrightarrow> in_sq sz x y \<and> \<bar>x - cx\<bar> \<le> 4 \<and> \<bar>y - cy\<bar> \<le> 4"
  (is "?l \<longleftrightarrow> ?r")
proof -
  let ?f = "\<lambda>dx dy. let dist = max \<bar>dx\<bar> \<bar>dy\<bar>; xx = cx + dx; yy = cy + dy
       in if 0 \<le> xx \<and> xx < sz \<and> 0 \<le> yy \<and> yy < sz then [(xx, yy, dist \<noteq> 2 \<and> dist \<noteq> 4)] else []"
  have f: "covered (?f dx dy) x y \<longleftrightarrow> x = cx + dx \<and> y = cy + dy \<and> in_sq sz x y" for dx dy
    by (auto simp: Let_def in_sq_def)
  have "?l \<longleftrightarrow> (\<exists>dy \<in> set [-4..4]. \<exists>dx \<in> set [-4..4]. covered (?f dx dy) x y)"
    unfolding finder_cells_def covered_concat set_map bex_simps by blast
  also have "\<dots> \<longleftrightarrow> (\<exists>dy \<in> {-4..4}. \<exists>dx \<in> {-4..4}. x = cx + dx \<and> y = cy + dy \<and> in_sq sz x y)"
    unfolding f set_upto ..
  also have "\<dots> \<longleftrightarrow> ?r"
  proof
    assume ?r
    then show "\<exists>dy \<in> {-4..4}. \<exists>dx \<in> {-4..4}. x = cx + dx \<and> y = cy + dy \<and> in_sq sz x y"
      by - (rule bexI[of _ "y - cy"], rule bexI[of _ "x - cx"], auto)
  qed auto
  finally show ?thesis .
qed

lemma covered_alignment:
  "covered (alignment_cells cx cy) x y \<longleftrightarrow> \<bar>x - cx\<bar> \<le> 2 \<and> \<bar>y - cy\<bar> \<le> 2" (is "?l \<longleftrightarrow> ?r")
proof -
  have "?l \<longleftrightarrow> (\<exists>dy \<in> set [-2..2]. \<exists>dx \<in> set [-2..2]. x = cx + dx \<and> y = cy + dy)"
    unfolding alignment_cells_def covered_concat by (fastforce simp: covered_def)
  also have "\<dots> \<longleftrightarrow> ?r"
  proof
    assume ?r
    then show "\<exists>dy \<in> set [-2..2]. \<exists>dx \<in> set [-2..2]. x = cx + dx \<and> y = cy + dy"
      unfolding set_upto by - (rule bexI[of _ "y - cy"], rule bexI[of _ "x - cx"], auto)
  qed auto
  finally show ?thesis .
qed

lemma covered_alignments:
  "covered (concat (map (\<lambda>(x, y). alignment_cells x y) cs)) x y
     \<longleftrightarrow> (\<exists>(cx, cy) \<in> set cs. \<bar>x - cx\<bar> \<le> 2 \<and> \<bar>y - cy\<bar> \<le> 2)"
  by (induction cs) (auto simp: covered_alignment)

lemma covered_map: "covered (map (\<lambda>i. (f i, g i, h i)) is) x y \<longleftrightarrow> (\<exists>i \<in> set is. x = f i \<and> y = g i)"
  by (auto simp: covered_def)

lemma covered_format:
  "covered (format_cells sz bits) x y \<longleftrightarrow>
     x = 8 \<and> (0 \<le> y \<and> y \<le> 5 \<or> 7 \<le> y \<and> y \<le> 8 \<or> sz - 8 \<le> y \<and> y < sz) \<or>
     y = 8 \<and> (0 \<le> x \<and> x \<le> 5 \<or> x = 7 \<or> sz - 8 \<le> x \<and> x < sz)" (is "?l \<longleftrightarrow> ?r")
proof -
  have "?l \<longleftrightarrow> (\<exists>i \<in> {0..5}. x = 8 \<and> y = i) \<or> x = 8 \<and> y = 7 \<or> x = 8 \<and> y = 8 \<or> x = 7 \<and> y = 8 \<or>
      (\<exists>i \<in> {9..14}. x = 14 - i \<and> y = 8) \<or> (\<exists>i \<in> {0..7}. x = sz - 1 - i \<and> y = 8) \<or>
      (\<exists>i \<in> {8..14}. x = 8 \<and> y = sz - 15 + i) \<or> x = 8 \<and> y = sz - 8"
    unfolding format_cells_def by (simp only: covered_simps covered_map set_upto simp_thms) blast
  also have "\<dots> \<longleftrightarrow> ?r"
  proof -
    have "(\<exists>i \<in> {9..14}. x = 14 - i \<and> y = 8) \<longleftrightarrow> y = 8 \<and> 0 \<le> x \<and> x \<le> 5"
      by (auto intro!: bexI[of _ "14 - x"])
    moreover have "(\<exists>i \<in> {0..7}. x = sz - 1 - i \<and> y = 8) \<longleftrightarrow> y = 8 \<and> sz - 8 \<le> x \<and> x < sz"
      by (auto intro!: bexI[of _ "sz - 1 - x"])
    moreover have "(\<exists>i \<in> {8..14}. x = 8 \<and> y = sz - 15 + i) \<longleftrightarrow> x = 8 \<and> sz - 7 \<le> y \<and> y < sz"
      by (auto intro!: bexI[of _ "y - sz + 15"])
    moreover have "(\<exists>i \<in> {0..5}. x = 8 \<and> y = i) \<longleftrightarrow> x = 8 \<and> 0 \<le> y \<and> y \<le> 5" by auto
    moreover have "y = 7 \<or> y = 8 \<longleftrightarrow> 7 \<le> y \<and> y \<le> 8"
      "y = sz - 8 \<or> sz - 7 \<le> y \<and> y < sz \<longleftrightarrow> sz - 8 \<le> y \<and> y < sz" by linarith+
    ultimately show ?thesis by meson
  qed
  finally show ?thesis .
qed

lemma covered_version:
  "covered (version_cells ver sz) x y \<longleftrightarrow> 7 \<le> ver \<and>
     (sz - 11 \<le> x \<and> x \<le> sz - 9 \<and> 0 \<le> y \<and> y \<le> 5 \<or> sz - 11 \<le> y \<and> y \<le> sz - 9 \<and> 0 \<le> x \<and> x \<le> 5)"
proof (cases "ver < 7")
  case False
  have "covered (version_cells ver sz) x y \<longleftrightarrow>
      (\<exists>i \<in> {0..17}. x = sz - 11 + i mod 3 \<and> y = i div 3 \<or> y = sz - 11 + i mod 3 \<and> x = i div 3)"
    using False by (auto simp: version_cells_def covered_concat)
  moreover have "(\<exists>i \<in> {0..17}. a = sz - 11 + i mod 3 \<and> b = i div 3) \<longleftrightarrow>
      sz - 11 \<le> a \<and> a \<le> sz - 9 \<and> 0 \<le> b \<and> b \<le> 5" for a b :: int
  proof
    assume "sz - 11 \<le> a \<and> a \<le> sz - 9 \<and> 0 \<le> b \<and> b \<le> 5"
    then show "\<exists>i \<in> {0..17}. a = sz - 11 + i mod 3 \<and> b = i div 3"
      by (intro bexI[of _ "3 * b + (a - (sz - 11))"]) auto
  qed auto
  ultimately show ?thesis using False by (auto simp: bex_disj_distrib)
qed (simp add: version_cells_def)

section \<open>All function modules as disjoint rectangles\<close>

type_synonym rect = "int \<times> int \<times> int \<times> int"

definition alignment_rects :: "int \<times> int \<Rightarrow> rect list" where
  "alignment_rects c =
     (let (x, y) = c
      in if x = 6 then [(4, 5, y - 2, y + 2), (7, 8, y - 2, y + 2)]
         else if y = 6 then [(x - 2, x + 2, 4, 5), (x - 2, x + 2, 7, 8)]
         else [(x - 2, x + 2, y - 2, y + 2)])"

definition function_rects :: "int \<Rightarrow> rect list" where
  "function_rects ver =
     (let s = ver * 4 + 17
      in [(0, 8, 0, 8), (s - 8, s - 1, 0, 8), (0, 8, s - 8, s - 1), (9, s - 9, 6, 6), (6, 6, 9, s - 9)]
         @ (if ver < 7 then [] else [(s - 11, s - 9, 0, 5), (0, 5, s - 11, s - 9)])
         @ concat (map alignment_rects (alignment_centers (getAlignmentPatternPositions ver s))))"

fun apart :: "rect \<Rightarrow> rect \<Rightarrow> bool" where
  "apart (a, b, c, d) (a', b', c', d') \<longleftrightarrow> b < a' \<or> b' < a \<or> d < c' \<or> d' < c"

fun all_apart :: "rect list \<Rightarrow> bool" where
  "all_apart [] \<longleftrightarrow> True"
| "all_apart (r # rs) \<longleftrightarrow> list_all (apart r) rs \<and> all_apart rs"

fun within :: "int \<Rightarrow> rect \<Rightarrow> bool" where
  "within s (a, b, c, d) \<longleftrightarrow> 0 \<le> a \<and> a \<le> b + 1 \<and> b < s \<and> 0 \<le> c \<and> c \<le> d + 1 \<and> d < s"

fun area :: "rect \<Rightarrow> int" where
  "area (a, b, c, d) = (b - a + 1) * (d - c + 1)"

definition rects_ok :: "int \<Rightarrow> bool" where
  "rects_ok ver \<longleftrightarrow>
     (let s = ver * 4 + 17; rs = function_rects ver
      in list_all (within s) rs \<and> all_apart rs \<and> s * s - sum_list (map area rs) = raw_modules ver)"

fun in_rect :: "int \<Rightarrow> int \<Rightarrow> rect \<Rightarrow> bool" where
  "in_rect x y (a, b, c, d) \<longleftrightarrow> a \<le> x \<and> x \<le> b \<and> c \<le> y \<and> y \<le> d"

definition is_fn :: "int \<Rightarrow> int \<Rightarrow> int \<Rightarrow> bool" where
  "is_fn ver x y \<longleftrightarrow> list_ex (in_rect x y) (function_rects ver)"

lemma rects_ok_all: "list_all rects_ok versions"
  by code_simp

lemma rects_ok: "1 \<le> ver \<Longrightarrow> ver \<le> 40 \<Longrightarrow> rects_ok ver"
  using rects_ok_all by (auto simp: list_all_iff in_versions)

lemma is_fn_iff:
  fixes ver :: int
  defines "s \<equiv> ver * 4 + 17"
  shows "is_fn ver x y \<longleftrightarrow>
     0 \<le> x \<and> x \<le> 8 \<and> 0 \<le> y \<and> y \<le> 8 \<or> s - 8 \<le> x \<and> x \<le> s - 1 \<and> 0 \<le> y \<and> y \<le> 8 \<or>
     0 \<le> x \<and> x \<le> 8 \<and> s - 8 \<le> y \<and> y \<le> s - 1 \<or> 9 \<le> x \<and> x \<le> s - 9 \<and> y = 6 \<or>
     x = 6 \<and> 9 \<le> y \<and> y \<le> s - 9 \<or>
     7 \<le> ver \<and> (s - 11 \<le> x \<and> x \<le> s - 9 \<and> 0 \<le> y \<and> y \<le> 5 \<or> 0 \<le> x \<and> x \<le> 5 \<and> s - 11 \<le> y \<and> y \<le> s - 9) \<or>
     (\<exists>c \<in> set (alignment_centers (getAlignmentPatternPositions ver s)). list_ex (in_rect x y) (alignment_rects c))"
proof -
  have v: "7 \<le> ver \<longleftrightarrow> \<not> ver < 7" by auto
  have e: "6 \<le> y \<and> y \<le> 6 \<longleftrightarrow> y = 6" "6 \<le> x \<and> x \<le> 6 \<and> P \<longleftrightarrow> x = 6 \<and> P" for P by auto
  have c: "list_ex f (concat (map g xs)) \<longleftrightarrow> (\<exists>c \<in> set xs. list_ex f (g c))"
    for f and g :: "int \<times> int \<Rightarrow> rect list" and xs
    by (induction xs) auto
  show ?thesis
    unfolding is_fn_def function_rects_def Let_def s_def [symmetric] list_ex_append c
    by (cases "ver < 7") (simp_all only: if_True if_False list_ex_Nil_iff list_ex_Cons_iff in_rect.simps e v not_True_eq_False not_False_eq_True simp_thms disj_assoc, simp?)
qed

lemma alignment_rect_covered: "list_ex (in_rect x y) (alignment_rects (cx, cy)) \<Longrightarrow> \<bar>x - cx\<bar> \<le> 2 \<and> \<bar>y - cy\<bar> \<le> 2"
  by (auto simp: alignment_rects_def Let_def split: if_splits)

lemma alignment_covered_rect:
  "\<bar>x - cx\<bar> \<le> 2 \<Longrightarrow> \<bar>y - cy\<bar> \<le> 2 \<Longrightarrow> list_ex (in_rect x y) (alignment_rects (cx, cy)) \<or> x = 6 \<or> y = 6"
  by (auto simp: alignment_rects_def Let_def)

lemma covered_function_cells:
  assumes "1 \<le> ver" "in_sq (ver * 4 + 17) x y"
  shows "covered (function_cells ver ecl) x y \<longleftrightarrow> is_fn ver x y"
proof -
  define s where "s = ver * 4 + 17"
  define C where "C = set (alignment_centers (getAlignmentPatternPositions ver s))"
  have s: "21 \<le> s" and sq: "0 \<le> x" "x < s" "0 \<le> y" "y < s"
    using assms by (simp_all add: s_def in_sq_def)
  have insq: "in_sq s x y" using assms(2) by (simp add: s_def)
  have "covered (function_cells ver ecl) x y \<longleftrightarrow>
      x = 6 \<or> y = 6 \<or> \<bar>x - 3\<bar> \<le> 4 \<and> \<bar>y - 3\<bar> \<le> 4 \<or> \<bar>x - (s - 4)\<bar> \<le> 4 \<and> \<bar>y - 3\<bar> \<le> 4 \<or>
      \<bar>x - 3\<bar> \<le> 4 \<and> \<bar>y - (s - 4)\<bar> \<le> 4 \<or> (\<exists>(cx, cy) \<in> C. \<bar>x - cx\<bar> \<le> 2 \<and> \<bar>y - cy\<bar> \<le> 2) \<or>
      covered (format_cells s (format_bits ecl 0)) x y \<or> covered (version_cells ver s) x y"
    unfolding function_cells_def Let_def s_def [symmetric]
    by (simp only: covered_simps covered_timing covered_finder covered_alignments C_def sq insq simp_thms disj_assoc)
  also have "\<dots> \<longleftrightarrow> is_fn ver x y"
  proof -
    define FM V where "FM = covered (format_cells s (format_bits ecl 0)) x y"
      and "V = covered (version_cells ver s) x y"
    define TL TR BL where "TL \<longleftrightarrow> 0 \<le> x \<and> x \<le> 8 \<and> 0 \<le> y \<and> y \<le> 8"
      and "TR \<longleftrightarrow> s - 8 \<le> x \<and> x \<le> s - 1 \<and> 0 \<le> y \<and> y \<le> 8"
      and "BL \<longleftrightarrow> 0 \<le> x \<and> x \<le> 8 \<and> s - 8 \<le> y \<and> y \<le> s - 1"
    define F1 F2 F3 where "F1 \<longleftrightarrow> \<bar>x - 3\<bar> \<le> 4 \<and> \<bar>y - 3\<bar> \<le> 4"
      and "F2 \<longleftrightarrow> \<bar>x - (s - 4)\<bar> \<le> 4 \<and> \<bar>y - 3\<bar> \<le> 4" and "F3 \<longleftrightarrow> \<bar>x - 3\<bar> \<le> 4 \<and> \<bar>y - (s - 4)\<bar> \<le> 4"
    define VR where "VR \<longleftrightarrow> 7 \<le> ver \<and>
      (s - 11 \<le> x \<and> x \<le> s - 9 \<and> 0 \<le> y \<and> y \<le> 5 \<or> 0 \<le> x \<and> x \<le> 5 \<and> s - 11 \<le> y \<and> y \<le> s - 9)"
    define AC AR where "AC \<longleftrightarrow> (\<exists>(cx, cy) \<in> C. \<bar>x - cx\<bar> \<le> 2 \<and> \<bar>y - cy\<bar> \<le> 2)"
      and "AR \<longleftrightarrow> (\<exists>c \<in> C. list_ex (in_rect x y) (alignment_rects c))"
    have fn: "is_fn ver x y \<longleftrightarrow> TL \<or> TR \<or> BL \<or> (9 \<le> x \<and> x \<le> s - 9 \<and> y = 6) \<or>
        (x = 6 \<and> 9 \<le> y \<and> y \<le> s - 9) \<or> VR \<or> AR"
      unfolding is_fn_iff s_def [symmetric] C_def [symmetric] TL_def TR_def BL_def VR_def AR_def
      by (simp only: disj_assoc)
    have V: "V \<longleftrightarrow> VR" unfolding V_def VR_def covered_version by blast
    have corners: "TL \<Longrightarrow> x = 6 \<or> y = 6 \<or> F1 \<or> FM" "TR \<Longrightarrow> F2 \<or> FM" "BL \<Longrightarrow> F3 \<or> FM"
      unfolding TL_def TR_def BL_def F1_def F2_def F3_def FM_def covered_format by linarith+
    have shape: "F1 \<Longrightarrow> TL" "F2 \<Longrightarrow> TR" "F3 \<Longrightarrow> BL" "FM \<Longrightarrow> TL \<or> TR \<or> BL"
      unfolding TL_def TR_def BL_def F1_def F2_def F3_def FM_def covered_format using sq s by linarith+
    have six: "x = 6 \<or> y = 6 \<Longrightarrow> is_fn ver x y"
      unfolding fn TL_def TR_def BL_def using sq s by linarith
    have "AR \<Longrightarrow> AC" unfolding AR_def AC_def using alignment_rect_covered by fastforce
    moreover have "AC \<Longrightarrow> AR \<or> x = 6 \<or> y = 6" unfolding AR_def AC_def using alignment_covered_rect by fastforce
    ultimately show ?thesis
      unfolding FM_def [symmetric] V_def [symmetric] F1_def [symmetric] F2_def [symmetric] F3_def [symmetric]
        AC_def [symmetric]
      using fn V corners shape six by blast
  qed
  finally show ?thesis .
qed

lemma cells_in_covered: "cells_in n cs \<longleftrightarrow> (\<forall>x y. covered cs x y \<longrightarrow> in_sq n x y)"
  by (auto simp: cells_in_def covered_def)

lemma center_within:
  "21 \<le> s \<Longrightarrow> list_all (within s) (alignment_rects (cx, cy)) \<Longrightarrow> 2 \<le> cx \<and> cx < s - 2 \<and> 2 \<le> cy \<and> cy < s - 2"
  by (auto simp: alignment_rects_def Let_def split: if_splits)

lemma cells_in_function_cells:
  assumes "1 \<le> ver" "ver \<le> 40"
  shows "cells_in (ver * 4 + 17) (function_cells ver ecl)"
proof -
  define s where "s = ver * 4 + 17"
  have s: "21 \<le> s" "7 \<le> ver \<longrightarrow> 45 \<le> s" using assms by (simp_all add: s_def)
  have "list_all (within s) (function_rects ver)"
    using rects_ok[OF assms] by (simp add: rects_ok_def Let_def s_def)
  then have centers: "2 \<le> cx \<and> cx < s - 2 \<and> 2 \<le> cy \<and> cy < s - 2"
    if "(cx, cy) \<in> set (alignment_centers (getAlignmentPatternPositions ver s))" for cx cy
    using that s(1) by (intro center_within) (auto simp: function_rects_def Let_def s_def list_all_iff)
  have al: "in_sq s x y" if "\<exists>(cx, cy) \<in> set (alignment_centers (getAlignmentPatternPositions ver s)).
      \<bar>x - cx\<bar> \<le> 2 \<and> \<bar>y - cy\<bar> \<le> 2" for x y
    using that centers by (fastforce simp: in_sq_def abs_le_iff)
  have fm: "covered (format_cells s bits) x y \<Longrightarrow> in_sq s x y" for bits x y
    unfolding covered_format in_sq_def using s by linarith
  have vr: "covered (version_cells ver s) x y \<Longrightarrow> in_sq s x y" for x y
    unfolding covered_version in_sq_def using s by linarith
  have tm: "covered (timing_cells s) x y \<Longrightarrow> in_sq s x y" for x y
    unfolding covered_timing in_sq_def using s by linarith
  show ?thesis
    unfolding function_cells_def Let_def cells_in_covered s_def [symmetric]
      covered_simps covered_finder covered_alignments
    using al fm vr tm by blast
qed

section \<open>Counting\<close>

definition rect_set :: "rect list \<Rightarrow> (int \<times> int) set" where
  "rect_set rs = {(x, y). list_ex (in_rect x y) rs}"

lemma rect_set_Cons: "rect_set ((a, b, c, d) # rs) = {a..b} \<times> {c..d} \<union> rect_set rs"
  by (auto simp: rect_set_def)

lemma rect_set_Nil [simp]: "rect_set [] = {}"
  by (simp add: rect_set_def)

lemma finite_rect_set [simp]: "finite (rect_set rs)"
proof (induction rs)
  case (Cons r rs)
  then show ?case by (cases r) (simp add: rect_set_Cons)
qed simp

lemma apart_disjoint:
  assumes "list_all (apart (a, b, c, d)) rs"
  shows "({a..b} \<times> {c..d}) \<inter> rect_set rs = {}"
  using assms
proof (induction rs)
  case (Cons r rs)
  then show ?case by (cases r) (auto simp: rect_set_Cons)
qed simp

lemma card_rect_set:
  assumes "all_apart rs" "list_all (within s) rs"
  shows "int (card (rect_set rs)) = sum_list (map area rs)"
  using assms
proof (induction rs)
  case (Cons r rs)
  obtain a b c d where r: "r = (a, b, c, d)" by (cases r)
  have "card (rect_set (r # rs)) = card ({a..b} \<times> {c..d}) + card (rect_set rs)"
    unfolding r rect_set_Cons using Cons.prems(1) apart_disjoint[of a b c d rs]
    by (intro card_Un_disjoint) (simp_all add: r)
  moreover have "int (card ({a..b} \<times> {c..d})) = area r"
    using Cons.prems(2) by (simp add: r card_cartesian_product)
  ultimately show ?case using Cons by simp
qed simp

lemma rect_set_within: "list_all (within s) rs \<Longrightarrow> rect_set rs \<subseteq> {0..<s} \<times> {0..<s}"
proof (induction rs)
  case (Cons r rs)
  then show ?case by (cases r) (auto simp: rect_set_Cons)
qed simp

definition free_modules :: "int \<Rightarrow> (int \<times> int) set" where
  "free_modules ver = {(x, y). in_sq (ver * 4 + 17) x y \<and> \<not> is_fn ver x y}"

lemma finite_free_modules [simp]: "finite (free_modules ver)"
  by (rule finite_subset[of _ "{0..<ver * 4 + 17} \<times> {0..<ver * 4 + 17}"])
     (auto simp: free_modules_def in_sq_def)

lemma card_free_modules:
  assumes "1 \<le> ver" "ver \<le> 40"
  shows "int (card (free_modules ver)) = raw_modules ver"
proof -
  define s where "s = ver * 4 + 17"
  let ?rs = "function_rects ver"
  have s: "0 \<le> s" using assms by (simp add: s_def)
  have ok: "list_all (within s) ?rs" "all_apart ?rs" "s * s - sum_list (map area ?rs) = raw_modules ver"
    using rects_ok[OF assms] by (simp_all add: rects_ok_def Let_def s_def)
  have sub: "rect_set ?rs \<subseteq> {0..<s} \<times> {0..<s}" by (rule rect_set_within[OF ok(1)])
  have "free_modules ver = {0..<s} \<times> {0..<s} - rect_set ?rs"
    by (auto simp: free_modules_def in_sq_def s_def rect_set_def is_fn_def)
  then have "card (free_modules ver) = card ({0..<s} \<times> {0..<s}) - card (rect_set ?rs)"
    using sub by (simp add: card_Diff_subset)
  moreover have "card (rect_set ?rs) \<le> card ({0..<s} \<times> {0..<s})"
    by (rule card_mono[OF _ sub]) simp
  moreover have "int (card ({0..<s} \<times> {0..<s})) = s * s" using s by (simp add: card_cartesian_product)
  ultimately show ?thesis
    using card_rect_set[OF ok(2,1)] ok(3) by (simp add: of_nat_diff)
qed

section \<open>The state after drawing the function patterns\<close>

definition blank :: "int \<Rightarrow> ecc \<Rightarrow> qrcode" where
  "blank ver ecl =
     (let n = nat (ver * 4 + 17); g = replicate n (replicate n False)
      in \<lparr>qr_version = ver, qr_ecl = ecl, qr_size = ver * 4 + 17, modules = g, isFunction = g, qr_mask = None\<rparr>)"

lemma wf_blank:
  assumes "1 \<le> ver"
  shows "wf_qr (nat (ver * 4 + 17)) (blank ver ecl)"
  using assms by (auto simp: wf_qr_def blank_def Let_def wf_grid_def)

lemma blank_at: "in_sq (ver * 4 + 17) x y \<Longrightarrow> \<not> grid_at (modules (blank ver ecl)) x y \<and> \<not> grid_at (isFunction (blank ver ecl)) x y"
  by (simp add: blank_def Let_def grid_at_def in_sq_def nat_less_iff)

text \<open>A symbol under construction: the function modules are marked, and the grids are square.\<close>

definition marked :: "int \<Rightarrow> ecc \<Rightarrow> qrcode \<Rightarrow> bool" where
  "marked ver ecl qr \<longleftrightarrow>
     qr_version qr = ver \<and> qr_ecl qr = ecl \<and> qr_size qr = ver * 4 + 17 \<and> wf_qr (nat (ver * 4 + 17)) qr \<and>
     (\<forall>x y. in_sq (ver * 4 + 17) x y \<longrightarrow> grid_at (isFunction qr) x y = is_fn ver x y)"

lemma drawFunctionPatterns_effect:
  assumes "1 \<le> ver" "ver \<le> 40"
  shows "\<exists>qr. drawFunctionPatterns (blank ver ecl) = Inr qr \<and> marked ver ecl qr \<and> qr_mask qr = None \<and>
    (\<forall>x y. in_sq (ver * 4 + 17) x y \<longrightarrow> grid_at (modules qr) x y = colour (function_cells ver ecl) x y False)"
proof -
  let ?n = "nat (ver * 4 + 17)" and ?cs = "function_cells ver ecl"
  have n: "int ?n = ver * 4 + 17" using assms by simp
  have f: "qr_version (blank ver ecl) = ver" "qr_ecl (blank ver ecl) = ecl" "qr_size (blank ver ecl) = ver * 4 + 17"
    "qr_mask (blank ver ecl) = None"
    by (simp_all add: blank_def Let_def)
  have "drawFunctionPatterns (blank ver ecl) = paint ?cs (blank ver ecl)"
    using drawFunctionPatterns_paint[of "blank ver ecl"] assms(2) f by simp
  moreover obtain qr where qr: "paint ?cs (blank ver ecl) = Inr qr" "wf_qr ?n qr" "same_code (blank ver ecl) qr"
    "\<forall>x y. in_sq (ver * 4 + 17) x y \<longrightarrow>
       grid_at (modules qr) x y = colour ?cs x y (grid_at (modules (blank ver ecl)) x y) \<and>
       grid_at (isFunction qr) x y = (covered ?cs x y \<or> grid_at (isFunction (blank ver ecl)) x y)"
    using paint_effect[OF wf_blank[OF assms(1)], of ?cs ecl] cells_in_function_cells[OF assms, of ecl] n by auto
  ultimately show ?thesis
    using covered_function_cells[OF assms(1)] blank_at f by (auto simp: marked_def same_code_def)
qed

section \<open>Properties\<close>

text \<open>
  C14: For every version and level \<^verbatim>\<open>drawFunctionPatterns\<close> stays inside the grid and throws nothing, and
  the modules it leaves free for data are exactly as many as \<^verbatim>\<open>getNumRawDataModules\<close> computes from
  its formula.
\<close>
theorem function_patterns_leave_raw_modules:
  assumes "1 \<le> ver" "ver \<le> 40"
  shows "\<exists>qr. drawFunctionPatterns (blank ver ecl) = Inr qr \<and>
    getNumRawDataModules ver
      = Inr (int (card {(x, y). in_sq (qr_size qr) x y \<and> \<not> grid_at (isFunction qr) x y}))"
proof -
  obtain qr where qr: "drawFunctionPatterns (blank ver ecl) = Inr qr" "marked ver ecl qr"
    using drawFunctionPatterns_effect[OF assms] by blast
  have "{(x, y). in_sq (qr_size qr) x y \<and> \<not> grid_at (isFunction qr) x y} = free_modules ver"
    using qr(2) by (auto simp: marked_def free_modules_def)
  then show ?thesis
    using qr(1) card_free_modules[OF assms] assms by (simp add: getNumRawDataModules_eq)
qed

theorem function_patterns_leave_raw_modules_witness:
  "\<exists>qr. drawFunctionPatterns (blank 7 LOW) = Inr qr \<and>
     card {(x, y). in_sq (qr_size qr) x y \<and> \<not> grid_at (isFunction qr) x y} = 1568"
proof -
  have "getNumRawDataModules 7 = Inr 1568" by code_simp
  then show ?thesis using function_patterns_leave_raw_modules[of 7 LOW] by auto
qed

end
