(* ===== verification/FormatInfo.thy ===== *)
theory FormatInfo
  imports FunctionModules
begin

text \<open>
  The format and version information that \<^verbatim>\<open>drawFormatBits\<close> and \<^verbatim>\<open>drawVersion\<close> of
  \<^verbatim>\<open>frontend/js/qrcodegen.js\<close> write: both copies of the format information can be read off the
  grid, and the words are far enough apart to survive three wrong modules.
\<close>

section \<open>Words as lists of modules\<close>

definition word_bits :: "nat \<Rightarrow> int \<Rightarrow> bool list" where
  "word_bits n w = map (\<lambda>i. getBit w (int i)) [0..<n]"

definition format_info :: "ecc \<times> int \<Rightarrow> bool list" where
  "format_info p = word_bits 15 (format_bits (fst p) (snd p))"

definition version_info :: "int \<Rightarrow> bool list" where
  "version_info v = word_bits 18 (version_bits v)"

fun distance :: "bool list \<Rightarrow> bool list \<Rightarrow> nat" where
  "distance (a # as) (b # bs) = (if a = b then distance as bs else Suc (distance as bs))"
| "distance _ _ = 0"

lemma distance_sym: "distance xs ys = distance ys xs"
  by (induction xs ys rule: distance.induct) auto

lemma distance_triangle:
  "length xs = length ys \<Longrightarrow> length ys = length zs \<Longrightarrow> distance xs zs \<le> distance xs ys + distance ys zs"
proof (induction xs ys arbitrary: zs rule: list_induct2)
  case (Cons x xs y ys)
  then obtain z zs' where "zs = z # zs'" "length ys = length zs'" by (cases zs) auto
  then show ?case using Cons.IH[of zs'] by auto
qed simp

fun all_distant :: "nat \<Rightarrow> bool list list \<Rightarrow> bool" where
  "all_distant d [] \<longleftrightarrow> True"
| "all_distant d (w # ws) \<longleftrightarrow> list_all (\<lambda>v. d \<le> distance w v) ws \<and> all_distant d ws"

lemma all_distantD:
  "all_distant d (map f xs) \<Longrightarrow> x \<in> set xs \<Longrightarrow> y \<in> set xs \<Longrightarrow> x \<noteq> y \<Longrightarrow> d \<le> distance (f x) (f y)"
  by (induction xs) (auto simp: list_all_iff distance_sym)

lemma nearest_unique:
  assumes "all_distant d (map f xs)" "x \<in> set xs" "y \<in> set xs"
    "length w = length (f x)" "length w = length (f y)" "distance w (f x) + distance w (f y) < d"
  shows "x = y"
proof (rule ccontr)
  assume "x \<noteq> y"
  then have "d \<le> distance (f x) (f y)" using all_distantD assms(1-3) by metis
  also have "\<dots> \<le> distance (f x) w + distance w (f y)"
    using assms(4,5) by (intro distance_triangle) simp_all
  finally show False using assms(6) by (simp add: distance_sym)
qed

definition infos :: "(ecc \<times> int) list" where
  "infos = List.product levels [0, 1, 2, 3, 4, 5, 6, 7]"

lemma in_infos: "0 \<le> m \<Longrightarrow> m \<le> 7 \<Longrightarrow> (l, m) \<in> set infos"
proof -
  assume "0 \<le> m" "m \<le> 7"
  then have "m \<in> {0, 1, 2, 3, 4, 5, 6, 7}" by auto
  then show ?thesis by (simp add: infos_def)
qed

lemma format_distant: "all_distant 7 (map format_info infos)"
  by code_simp

definition large_versions :: "int list" where
  "large_versions = map int [7..<41]"

lemma in_large_versions: "7 \<le> v \<Longrightarrow> v \<le> 40 \<Longrightarrow> v \<in> set large_versions"
  unfolding large_versions_def set_map
  by (rule image_eqI[of _ _ "nat v"], simp, simp only: set_upt atLeastLessThan_iff, linarith)

lemma version_distant: "all_distant 8 (map version_info large_versions)"
  by code_simp

lemma length_info [simp]: "length (format_info p) = 15" "length (version_info v) = 18"
  by (simp_all add: format_info_def version_info_def word_bits_def)

section \<open>Reading the format information off the grid\<close>

definition format_places :: "int \<Rightarrow> (int \<times> int) list \<times> (int \<times> int) list" where
  "format_places sz =
     (map (\<lambda>y. (8, y)) [0, 1, 2, 3, 4, 5, 7, 8] @ map (\<lambda>x. (x, 8)) [7, 5, 4, 3, 2, 1, 0],
      map (\<lambda>i. (sz - 1 - i, 8)) [0, 1, 2, 3, 4, 5, 6, 7] @ map (\<lambda>i. (8, sz - 15 + i)) [8, 9, 10, 11, 12, 13, 14])"

definition read_modules :: "qrcode \<Rightarrow> (int \<times> int) list \<Rightarrow> bool list" where
  "read_modules qr ps = map (\<lambda>(x, y). grid_at (modules qr) x y) ps"

lemma colour_distinct:
  "distinct (map (\<lambda>(x, y, d). (x, y)) cs) \<Longrightarrow> (x, y, d) \<in> set cs \<Longrightarrow> colour cs x y c = d"
proof (induction cs arbitrary: c)
  case (Cons p cs)
  obtain a b e where p: "p = (a, b, e)" by (cases p)
  show ?case
  proof (cases "(x, y, d) \<in> set cs")
    case True
    then show ?thesis using Cons by (simp add: p)
  next
    case False
    then have "a = x" "b = y" "e = d" using Cons.prems(2) by (auto simp: p)
    moreover have "\<not> covered cs x y"
      using Cons.prems(1) calculation by (force simp: p covered_def)
    ultimately show ?thesis by (simp add: p colour_uncovered)
  qed
qed simp

lemma format_cells_list:
  "format_cells sz bits = map (\<lambda>((x, y), i). (x, y, getBit bits i))
     (zip (fst (format_places sz) @ snd (format_places sz))
          ([0, 1, 2, 3, 4, 5, 6, 7, 8, 9, 10, 11, 12, 13, 14] @ [0, 1, 2, 3, 4, 5, 6, 7, 8, 9, 10, 11, 12, 13, 14]))
   @ [(8, sz - 8, True)]"
proof -
  have u: "[0..5] = [0, 1, 2, 3, 4, 5 :: int]" "[9..14] = [9, 10, 11, 12, 13, 14 :: int]"
    "[0..7] = [0, 1, 2, 3, 4, 5, 6, 7 :: int]" "[8..14] = [8, 9, 10, 11, 12, 13, 14 :: int]"
    by (simp_all add: upto_rec1)
  show ?thesis by (simp add: format_cells_def format_places_def u)
qed

lemma format_cells_distinct: "21 \<le> sz \<Longrightarrow> distinct (map (\<lambda>(x, y, d). (x, y)) (format_cells sz bits))"
  by (simp add: format_cells_list format_places_def)

lemma cells_in_format: "17 \<le> sz \<Longrightarrow> cells_in sz (format_cells sz bits)"
  unfolding cells_in_covered covered_format in_sq_def by (intro allI impI) linarith

text \<open>A grid on which the format cells are drawn shows the format information in both copies.\<close>

lemma format_cells_read:
  assumes "21 \<le> sz"
    "\<forall>x y. in_sq sz x y \<longrightarrow> grid_at g x y = colour (format_cells sz (format_bits ecl m)) x y (c x y)"
  shows "map (\<lambda>(x, y). grid_at g x y) (fst (format_places sz)) = format_info (ecl, m)"
    "map (\<lambda>(x, y). grid_at g x y) (snd (format_places sz)) = format_info (ecl, m)"
proof -
  let ?b = "format_bits ecl m"
  have cell: "grid_at g x y = d" if "(x, y, d) \<in> set (format_cells sz ?b)" for x y d
  proof -
    have "in_sq sz x y" using that cells_in_format[of sz ?b] assms(1) by (auto simp: cells_in_def)
    then show ?thesis using assms(2) colour_distinct[OF format_cells_distinct[OF assms(1)] that] by simp
  qed
  have info: "format_info (ecl, m) = map (getBit ?b) [0, 1, 2, 3, 4, 5, 6, 7, 8, 9, 10, 11, 12, 13, 14]"
    by (simp add: format_info_def word_bits_def upt_rec)
  show "map (\<lambda>(x, y). grid_at g x y) (fst (format_places sz)) = format_info (ecl, m)"
    "map (\<lambda>(x, y). grid_at g x y) (snd (format_places sz)) = format_info (ecl, m)"
    unfolding info by (simp_all add: format_places_def cell format_cells_list)
qed

lemma marked_wf: "marked ver ecl qr \<Longrightarrow> wf_qr (nat (ver * 4 + 17)) qr"
  by (simp add: marked_def)

lemma drawFormatBits_effect:
  assumes "marked ver ecl qr" "1 \<le> ver" "0 \<le> m" "m \<le> 7"
  shows "\<exists>qr'. drawFormatBits m qr = Inr qr' \<and> marked ver ecl qr' \<and> qr_mask qr' = qr_mask qr \<and>
    (\<forall>x y. in_sq (ver * 4 + 17) x y \<longrightarrow>
       grid_at (modules qr') x y = colour (format_cells (ver * 4 + 17) (format_bits ecl m)) x y (grid_at (modules qr) x y))"
proof -
  let ?sz = "ver * 4 + 17" and ?b = "format_bits ecl m"
  have sz: "int (nat ?sz) = ?sz" "21 \<le> ?sz" using assms(2) by simp_all
  have q: "qr_ecl qr = ecl" "qr_size qr = ?sz" using assms(1) by (simp_all add: marked_def)
  have "drawFormatBits m qr = paint (format_cells ?sz ?b) qr"
    using drawFormatBits_paint[of qr m] format_bits_bounds(3)[OF assms(3,4)] q by simp
  moreover obtain qr' where qr': "paint (format_cells ?sz ?b) qr = Inr qr'" "wf_qr (nat ?sz) qr'" "same_code qr qr'"
    "\<forall>x y. in_sq ?sz x y \<longrightarrow> grid_at (modules qr') x y = colour (format_cells ?sz ?b) x y (grid_at (modules qr) x y) \<and>
       grid_at (isFunction qr') x y = (covered (format_cells ?sz ?b) x y \<or> grid_at (isFunction qr) x y)"
    using paint_effect[OF marked_wf[OF assms(1)], of "format_cells ?sz ?b"] cells_in_format[of ?sz ?b] sz by auto
  moreover have "is_fn ver x y" if "in_sq ?sz x y" "covered (format_cells ?sz ?b) x y" for x y
  proof -
    have "covered (format_cells ?sz (format_bits ecl 0)) x y" using that(2) by (simp only: covered_format)
    then have "covered (function_cells ver ecl) x y" by (simp add: function_cells_def Let_def)
    then show ?thesis using covered_function_cells[OF assms(2) that(1)] by simp
  qed
  ultimately show ?thesis
    using assms(1) by (auto simp: marked_def same_code_def)
qed

section \<open>Properties\<close>

text \<open>
  C36: Drawing the format information for a mask on a symbol under construction succeeds, leaves every
  module outside the two copies and the dark module as it was, and both copies read back the
  same fifteen bits, those of the level and the mask.
\<close>
theorem drawFormatBits_readable:
  assumes "marked ver ecl qr" "1 \<le> ver" "0 \<le> m" "m \<le> 7"
  shows "\<exists>qr'. drawFormatBits m qr = Inr qr' \<and>
    read_modules qr' (fst (format_places (qr_size qr))) = format_info (ecl, m) \<and>
    read_modules qr' (snd (format_places (qr_size qr))) = format_info (ecl, m) \<and>
    (\<forall>x y. in_sq (qr_size qr) x y \<longrightarrow>
       (x, y) \<in> set (fst (format_places (qr_size qr)) @ snd (format_places (qr_size qr)) @ [(8, qr_size qr - 8)]) \<or>
       grid_at (modules qr') x y = grid_at (modules qr) x y)"
proof -
  define sz where "sz = ver * 4 + 17"
  have sz: "qr_size qr = sz" "21 \<le> sz" using assms(1,2) by (simp_all add: marked_def sz_def)
  let ?b = "format_bits ecl m"
  let ?cs = "format_cells sz ?b"
  obtain qr' where qr': "drawFormatBits m qr = Inr qr'"
    "\<forall>x y. in_sq sz x y \<longrightarrow> grid_at (modules qr') x y = colour ?cs x y (grid_at (modules qr) x y)"
    using drawFormatBits_effect[OF assms] unfolding sz_def [symmetric] by blast
  have "read_modules qr' (fst (format_places sz)) = format_info (ecl, m)"
    "read_modules qr' (snd (format_places sz)) = format_info (ecl, m)"
    using format_cells_read[OF sz(2) qr'(2)] by (simp_all add: read_modules_def)
  moreover have "grid_at (modules qr') x y = grid_at (modules qr) x y"
    if "in_sq sz x y" "(x, y) \<notin> set (fst (format_places sz) @ snd (format_places sz) @ [(8, sz - 8)])" for x y
  proof -
    have "\<not> covered ?cs x y" using that(2) unfolding covered_def format_cells_list
      by (auto dest!: set_zip_leftD)
    then show ?thesis using qr'(2) that(1) by (simp add: colour_uncovered)
  qed
  ultimately show ?thesis using qr'(1) unfolding sz(1) by blast
qed

theorem drawFormatBits_readable_witness:
  "\<exists>qr qr'. drawFunctionPatterns (blank 1 HIGH) = Inr qr \<and> drawFormatBits 3 qr = Inr qr' \<and>
    read_modules qr' (fst (format_places 21)) = format_info (HIGH, 3)"
proof -
  obtain qr where qr: "drawFunctionPatterns (blank 1 HIGH) = Inr qr" "marked 1 HIGH qr"
    using drawFunctionPatterns_effect[of 1 HIGH] by auto
  moreover have "qr_size qr = 21" using qr(2) by (simp add: marked_def)
  ultimately show ?thesis using drawFormatBits_readable[OF qr(2), of 3] by auto
qed

text \<open>
  C37: The fifteen format bits of a symbol can be recovered from a copy with up to three wrong modules:
  no word is that close to the format information of two different pairs of level and mask.
\<close>
theorem format_info_survives_three_errors:
  assumes "0 \<le> m1" "m1 \<le> 7" "0 \<le> m2" "m2 \<le> 7" "length w = 15"
    "distance w (word_bits 15 (format_bits e1 m1)) \<le> 3" "distance w (word_bits 15 (format_bits e2 m2)) \<le> 3"
  shows "e1 = e2 \<and> m1 = m2"
  using nearest_unique[OF format_distant in_infos[OF assms(1,2), of e1] in_infos[OF assms(3,4), of e2], of w] assms(5-7)
  by (simp add: format_info_def word_bits_def)

theorem format_info_survives_three_errors_witness:
  "distance (word_bits 15 (format_bits MEDIUM 5)) (word_bits 15 (format_bits MEDIUM 5)) \<le> 3 \<and>
   \<not> distance (word_bits 15 (format_bits MEDIUM 5)) (word_bits 15 (format_bits HIGH 5)) \<le> 3"
proof -
  have d: "distance xs xs = 0" for xs by (induction xs) simp_all
  have "length (word_bits 15 (format_bits MEDIUM 5)) = 15" by (simp add: word_bits_def)
  from format_info_survives_three_errors[OF _ _ _ _ this, of 5 5 MEDIUM HIGH] show ?thesis by (auto simp: d)
qed

text \<open>
  C21: The eighteen version bits of a symbol of version 7 or more can be recovered from a copy with up
  to three wrong modules.
\<close>
theorem version_info_survives_three_errors:
  assumes "7 \<le> v1" "v1 \<le> 40" "7 \<le> v2" "v2 \<le> 40" "length w = 18"
    "distance w (word_bits 18 (version_bits v1)) \<le> 3" "distance w (word_bits 18 (version_bits v2)) \<le> 3"
  shows "v1 = v2"
  using nearest_unique[OF version_distant in_large_versions[OF assms(1,2)] in_large_versions[OF assms(3,4)], of w] assms(5-7)
  by (simp add: version_info_def word_bits_def)

theorem version_info_survives_three_errors_witness:
  "distance (word_bits 18 (version_bits 7)) (word_bits 18 (version_bits 7)) \<le> 3 \<and>
   \<not> distance (word_bits 18 (version_bits 7)) (word_bits 18 (version_bits 8)) \<le> 3"
proof -
  have d: "distance xs xs = 0" for xs by (induction xs) simp_all
  have "length (word_bits 18 (version_bits 7)) = 18" by (simp add: word_bits_def)
  from version_info_survives_three_errors[OF _ _ _ _ this, of 7 8] show ?thesis by (auto simp: d)
qed

end
