(* ===== verification/DataModules.thy ===== *)
theory DataModules
  imports FunctionModules JsString
begin

text \<open>
  The data area of a symbol: \<^verbatim>\<open>drawCodewords\<close> and \<^verbatim>\<open>applyMask\<close> of \<^verbatim>\<open>frontend/js/qrcodegen.js\<close>.

  The zigzag scan visits every module outside the vertical timing column once, so it meets all
  free modules (\<^verbatim>\<open>data_cells\<close>); what \<^verbatim>\<open>drawCodewords\<close> writes there can be read back, and applying a
  mask twice changes nothing.
\<close>

section \<open>The code\<close>

text \<open>The body of the scan at one module; the state is the symbol and the bit index \<^verbatim>\<open>i\<close>.\<close>

definition place_bit :: "int list \<Rightarrow> int \<Rightarrow> int \<Rightarrow> qrcode \<times> int \<Rightarrow> (qrcode \<times> int) js" where
  "place_bit data x y st =
     (let (qr, i) = st
      in bindE (grid_get (isFunction qr) x y) (\<lambda>f.
         if \<not> f \<and> i < int (length data) * 8
         then bindE (grid_set (modules qr) x y (getBit (data ! nat (js_ushr i 3)) (7 - js_and i 7))) (\<lambda>m.
              Inr (qr\<lparr>modules := m\<rparr>, i + 1))
         else Inr (qr, i)))"

definition scan_cell :: "int \<Rightarrow> int \<Rightarrow> int \<Rightarrow> int \<Rightarrow> int \<times> int" where
  "scan_cell sz right vert j =
     (let x = right - j; upward = js_and (right + 1) 2 = 0; y = (if upward then sz - 1 - vert else vert)
      in (x, y))"

function scan_loop :: "int list \<Rightarrow> int \<Rightarrow> int \<Rightarrow> qrcode \<times> int \<Rightarrow> (qrcode \<times> int) js" where
  "scan_loop data sz right st =
     (if right \<ge> 1
      then let right = (if right = 6 then 5 else right)
           in bindE (foldE (\<lambda>vert. foldE (\<lambda>j st.
                       let (x, y) = scan_cell sz right vert j in place_bit data x y st) [0, 1])
                     [0..sz - 1] st)
                (scan_loop data sz (right - 2))
      else Inr st)"
  by pat_completeness auto
termination
  by (relation "measure (\<lambda>(_, _, r, _). nat r)") auto

declare scan_loop.simps [simp del]

definition drawCodewords :: "int list \<Rightarrow> qrcode \<Rightarrow> qrcode js" where
  "drawCodewords data qr =
     bindE (getNumRawDataModules (qr_version qr)) (\<lambda>raw.
     if int (length data) \<noteq> raw div 8 then Inl (RangeError ''Invalid argument'')
     else bindE (scan_loop data (qr_size qr) (qr_size qr - 1) (qr, 0)) (\<lambda>(qr, i).
          bindE (assertE (i = int (length data) * 8)) (\<lambda>_. Inr qr)))"

definition mask_invert :: "int \<Rightarrow> int \<Rightarrow> int \<Rightarrow> bool js" where
  "mask_invert msk x y =
     (if msk = 0 then Inr ((x + y) mod 2 = 0)
      else if msk = 1 then Inr (y mod 2 = 0)
      else if msk = 2 then Inr (x mod 3 = 0)
      else if msk = 3 then Inr ((x + y) mod 3 = 0)
      else if msk = 4 then Inr ((x div 3 + y div 2) mod 2 = 0)
      else if msk = 5 then Inr (x * y mod 2 + x * y mod 3 = 0)
      else if msk = 6 then Inr ((x * y mod 2 + x * y mod 3) mod 2 = 0)
      else if msk = 7 then Inr (((x + y) mod 2 + x * y mod 3) mod 2 = 0)
      else Inl (ErrorMsg (lit ''Unreachable'')))"

definition mask_cell :: "int \<Rightarrow> int \<Rightarrow> int \<Rightarrow> qrcode \<Rightarrow> qrcode js" where
  "mask_cell msk y x qr =
     bindE (mask_invert msk x y) (\<lambda>invert.
     bindE (grid_get (isFunction qr) x y) (\<lambda>f.
     if \<not> f \<and> invert
     then bindE (grid_get (modules qr) x y) (\<lambda>c.
          bindE (grid_set (modules qr) x y (\<not> c)) (\<lambda>m. Inr (qr\<lparr>modules := m\<rparr>)))
     else Inr qr))"

definition applyMask :: "int \<Rightarrow> qrcode \<Rightarrow> qrcode js" where
  "applyMask msk qr =
     (if msk < 0 \<or> msk > 7 then Inl (RangeError ''Mask value out of range'')
      else foldE (\<lambda>y. foldE (mask_cell msk y) [0..qr_size qr - 1]) [0..qr_size qr - 1] qr)"

section \<open>The zigzag scan\<close>

function scan_columns :: "int \<Rightarrow> int list" where
  "scan_columns right =
     (if right \<ge> 1 then let right = (if right = 6 then 5 else right) in right # scan_columns (right - 2)
      else [])"
  by pat_completeness auto
termination
  by (relation "measure nat") auto

declare scan_columns.simps [simp del]

definition column_cells :: "int \<Rightarrow> int \<Rightarrow> (int \<times> int) list" where
  "column_cells sz right = concat (map (\<lambda>vert. map (scan_cell sz right vert) [0, 1]) [0..sz - 1])"

definition zigzag :: "int \<Rightarrow> (int \<times> int) list" where
  "zigzag sz = concat (map (column_cells sz) (scan_columns (sz - 1)))"

lemma scan_loop_foldE:
  "scan_loop data sz right st
     = foldE (\<lambda>(x, y). place_bit data x y) (concat (map (column_cells sz) (scan_columns right))) st"
proof (induction data sz right st rule: scan_loop.induct)
  case (1 data sz right st)
  define r where "r = (if right = 6 then 5 else right)"
  show ?case
  proof (cases "right \<ge> 1")
    case True
    have "foldE (\<lambda>vert. foldE (\<lambda>j st. let (x, y) = scan_cell sz r vert j in place_bit data x y st) [0, 1]) [0..sz - 1] st
        = foldE (\<lambda>(x, y). place_bit data x y) (column_cells sz r) st"
      unfolding column_cells_def foldE_nest [symmetric] foldE_map
      by (intro foldE_cong refl) (simp add: split_def Let_def)
    then show ?thesis
      using True "1.IH"[OF True] r_def
      by (subst scan_loop.simps, subst scan_columns.simps) (simp add: Let_def foldE_append cong: bindE_cong)
  next
    case False
    then show ?thesis by (subst scan_loop.simps, subst scan_columns.simps) simp
  qed
qed

lemma scan_columns_even: "scan_columns (2 * int n + 6) = map (\<lambda>k. 2 * int k) (rev [4..<n + 4]) @ [5, 3, 1]"
proof (induction n)
  case 0
  then show ?case by (simp add: scan_columns.simps)
next
  case (Suc n)
  have "scan_columns (2 * int (Suc n) + 6) = (2 * int n + 8) # scan_columns (2 * int n + 6)"
    by (subst scan_columns.simps) (simp add: Let_def algebra_simps)
  moreover have "[4..<Suc n + 4] = [4..<n + 4] @ [n + 4]"
    unfolding add_Suc by (rule upt_Suc_append) simp
  ultimately show ?case unfolding Suc.IH by (simp only: rev_append list.map map_append) simp
qed

lemma column_cells_set: "set (column_cells sz right) = {right - 1, right} \<times> {0..<sz}"
proof -
  have "(\<exists>vert \<in> {0..sz - 1}. p = scan_cell sz right vert 0 \<or> p = scan_cell sz right vert 1) \<longleftrightarrow>
      p \<in> {right - 1, right} \<times> {0..<sz}" for p
  proof (cases "js_and (right + 1) 2 = 0")
    case True
    then show ?thesis
      by (cases p) (auto simp: scan_cell_def Let_def intro: bexI[of _ "sz - 1 - snd p"])
  qed (cases p, auto simp: scan_cell_def Let_def)
  then show ?thesis by (auto simp: column_cells_def)
qed

lemma column_cells_distinct: "distinct (column_cells sz right)"
proof -
  have "distinct (concat (map (\<lambda>vert. map (scan_cell sz right vert) [0, 1]) vs))" if "distinct vs" for vs
    using that
    by (induction vs) (auto simp: scan_cell_def Let_def split: if_splits)
  then show ?thesis by (simp add: column_cells_def)
qed

lemma zigzag_facts:
  assumes "sz = 2 * int n + 7"
  shows "distinct (zigzag sz)" "set (zigzag sz) = ({0..<sz} - {6}) \<times> {0..<sz}"
proof -
  have cols: "scan_columns (sz - 1) = map (\<lambda>k. 2 * int k) (rev [4..<n + 4]) @ [5, 3, 1]"
    using scan_columns_even[of n] assms by (simp del: upt_Suc add: algebra_simps)
  have spaced: "r = s \<or> r + 2 \<le> s \<or> s + 2 \<le> r"
    if "r \<in> set (scan_columns (sz - 1))" "s \<in> set (scan_columns (sz - 1))" for r s
    using that unfolding cols by auto
  have "distinct (scan_columns (sz - 1))"
    unfolding cols by (auto simp: distinct_map inj_on_def simp del: upt_Suc)
  then have "distinct (concat (map (column_cells sz) cs))" if "distinct cs" "set cs \<subseteq> set (scan_columns (sz - 1))" for cs
    using that
  proof (induction cs)
    case (Cons c cs)
    have "set (column_cells sz c) \<inter> set (column_cells sz d) = {}" if "d \<in> set cs" for d
      using spaced[of c d] that Cons.prems by (auto simp: column_cells_set)
    then show ?case using Cons by (auto simp: column_cells_distinct)
  qed simp
  then show "distinct (zigzag sz)"
    unfolding zigzag_def using \<open>distinct (scan_columns (sz - 1))\<close> by blast
  have "(\<exists>r \<in> set (scan_columns (sz - 1)). x \<in> {r - 1, r}) \<longleftrightarrow> x \<in> {0..<sz} - {6}" for x
  proof
    assume "x \<in> {0..<sz} - {6}"
    then consider "x \<in> {4, 5}" | "x \<in> {2, 3}" | "x \<in> {0, 1}" | "7 \<le> x" "x < sz" by force
    then show "\<exists>r \<in> set (scan_columns (sz - 1)). x \<in> {r - 1, r}"
    proof cases
      case 4
      define k where "k = nat ((x + 1) div 2)"
      have "x \<in> {2 * int k - 1, 2 * int k}" using 4 by (auto simp: k_def)
      moreover have "2 * int k \<in> set (scan_columns (sz - 1))"
      proof -
        have "k \<in> set (rev [4..<n + 4])" using 4 assms by (auto simp: k_def)
        then show ?thesis unfolding cols set_append set_map by blast
      qed
      ultimately show ?thesis by blast
    qed (auto simp: cols)
  next
    assume "\<exists>r \<in> set (scan_columns (sz - 1)). x \<in> {r - 1, r}"
    then show "x \<in> {0..<sz} - {6}" unfolding cols using assms by (auto simp del: upt_Suc, presburger)
  qed
  then show "set (zigzag sz) = ({0..<sz} - {6}) \<times> {0..<sz}"
    unfolding zigzag_def set_concat set_map image_image column_cells_set by blast
qed

definition data_cells :: "int \<Rightarrow> (int \<times> int) list" where
  "data_cells ver = filter (\<lambda>(x, y). \<not> is_fn ver x y) (zigzag (ver * 4 + 17))"

lemma is_fn_column6: "in_sq (ver * 4 + 17) 6 y \<Longrightarrow> 1 \<le> ver \<Longrightarrow> is_fn ver 6 y"
  unfolding is_fn_iff in_sq_def by linarith

lemma data_cells_facts:
  assumes "1 \<le> ver" "ver \<le> 40"
  shows "distinct (data_cells ver)" "set (data_cells ver) = free_modules ver"
    "int (length (data_cells ver)) = raw_modules ver"
proof -
  define n where "n = nat (2 * ver + 5)"
  have n: "ver * 4 + 17 = 2 * int n + 7" using assms by (simp add: n_def)
  note z = zigzag_facts[OF n]
  show d: "distinct (data_cells ver)" using z(1) by (simp add: data_cells_def)
  show s: "set (data_cells ver) = free_modules ver"
    using is_fn_column6[OF _ assms(1)]
    by (auto simp: data_cells_def z(2) free_modules_def in_sq_def)
  show "int (length (data_cells ver)) = raw_modules ver"
    using distinct_card[OF d] card_free_modules[OF assms] by (simp add: s)
qed

section \<open>What the scan writes\<close>

definition data_bits :: "int list \<Rightarrow> bool list" where
  "data_bits data = map (\<lambda>b. b = 1) (bytes_bits data)"

lemma length_bytes_bits_8: "length (bytes_bits data) = 8 * length data"
  by (induction data) (simp_all add: bytes_bits_def)

lemma length_data_bits [simp]: "length (data_bits data) = 8 * length data"
  by (simp add: data_bits_def length_bytes_bits_8)

lemma nth_bytes_bits: "i < length data \<Longrightarrow> j < 8 \<Longrightarrow> bytes_bits data ! (8 * i + j) = bits_of 8 (data ! i) ! j"
proof (induction data arbitrary: i)
  case (Cons w ws)
  then show ?case by (cases i) (simp_all add: bytes_bits_def nth_append)
qed simp

lemma data_bit:
  assumes "k < 8 * length data" "length data \<le> 10000" "\<forall>b \<in> set data. 0 \<le> b \<and> b < 256"
  shows "getBit (data ! nat (js_ushr (int k) 3)) (7 - js_and (int k) 7) = data_bits data ! k"
proof -
  have k: "int k < 2 ^ 31" using assms(1,2) by simp
  have idx: "nat (js_ushr (int k) 3) = k div 8" using k by (simp add: js_ushr_nonneg nat_div_distrib)
  have sh: "7 - js_and (int k) 7 = int (7 - k mod 8)" using k by (simp add: js_and_7 zmod_int of_nat_diff)
  have lt: "k div 8 < length data" using assms(1) by simp
  then have b: "0 \<le> data ! (k div 8)" "data ! (k div 8) < 256" using assms(3) by auto
  have "data_bits data ! k \<longleftrightarrow> bytes_bits data ! (8 * (k div 8) + k mod 8) = 1"
    using assms(1) by (simp add: data_bits_def length_bytes_bits_8)
  also have "\<dots> \<longleftrightarrow> bits_of 8 (data ! (k div 8)) ! (k mod 8) = 1"
    using nth_bytes_bits[OF lt, of "k mod 8"] by simp
  also have "\<dots> \<longleftrightarrow> bit (data ! (k div 8)) (7 - k mod 8)"
    by (simp add: bits_of_def rev_nth)
  also have "\<dots> \<longleftrightarrow> getBit (data ! (k div 8)) (int (7 - k mod 8))"
    using b by (subst getBit_bit) simp_all
  finally show ?thesis by (simp add: idx sh)
qed

definition bytes_ok :: "int list \<Rightarrow> bool" where
  "bytes_ok data \<longleftrightarrow> length data \<le> 10000 \<and> (\<forall>b \<in> set data. 0 \<le> b \<and> b < 256)"

text \<open>The symbols that differ only in the colours of free modules.\<close>

definition recoloured :: "qrcode \<Rightarrow> grid \<Rightarrow> qrcode" where
  "recoloured qr g = qr\<lparr>modules := g\<rparr>"

lemma place_bits:
  assumes "marked ver ecl qr" "bytes_ok data" "distinct ps" "\<forall>(x, y) \<in> set ps. in_sq (ver * 4 + 17) x y"
    "i \<le> 8 * length data"
  defines "D \<equiv> filter (\<lambda>(x, y). \<not> is_fn ver x y) ps"
  shows "\<exists>g. foldE (\<lambda>(x, y). place_bit data x y) ps (qr, int i)
        = Inr (recoloured qr g, int (min (8 * length data) (i + length D))) \<and>
      wf_grid (nat (ver * 4 + 17)) g \<and>
      (\<forall>x y. in_sq (ver * 4 + 17) x y \<longrightarrow> grid_at g x y =
         (case map_of (zip D (drop i (data_bits data))) (x, y) of Some b \<Rightarrow> b | None \<Rightarrow> grid_at (modules qr) x y))"
  using assms(1,3-5) unfolding D_def
proof (induction ps arbitrary: qr i)
  case Nil
  then show ?case
    by (intro exI[of _ "modules qr"]) (simp add: marked_def wf_qr_def recoloured_def)
next
  case (Cons p ps)
  obtain a b where p: "p = (a, b)" by (cases p)
  let ?n = "nat (ver * 4 + 17)" and ?D = "filter (\<lambda>(x, y). \<not> is_fn ver x y) ps"
  have ab: "in_sq (ver * 4 + 17) a b" using Cons.prems(3) by (simp add: p)
  then have n: "int ?n = ver * 4 + 17" by (simp add: in_sq_def)
  have wf: "wf_grid ?n (modules qr)" "wf_grid ?n (isFunction qr)"
    using Cons.prems(1) by (simp_all add: marked_def wf_qr_def)
  have get: "grid_get (isFunction qr) a b = Inr (is_fn ver a b)"
    using grid_get_at[OF wf(2)] ab Cons.prems(1) n by (simp add: marked_def)
  have ps: "distinct ps" "\<forall>(x, y) \<in> set ps. in_sq (ver * 4 + 17) x y" "(a, b) \<notin> set ps"
    using Cons.prems(2,3) by (simp_all add: p)
  show ?case
  proof (cases "\<not> is_fn ver a b \<and> i < 8 * length data")
    case False
    have step: "place_bit data a b (qr, int i) = Inr (qr, int i)"
      using False get by (auto simp: place_bit_def)
    have "is_fn ver a b \<or> i = 8 * length data" using False Cons.prems(4) by linarith
    then show ?thesis
      using Cons.IH[OF Cons.prems(1) ps(1,2) Cons.prems(4)] step by (auto simp: p min_def)
  next
    case True
    obtain g where g: "grid_set (modules qr) a b (data_bits data ! i) = Inr g" "wf_grid ?n g"
      "\<And>u v. in_sq (ver * 4 + 17) u v \<Longrightarrow>
         grid_at g u v = (if u = a \<and> v = b then data_bits data ! i else grid_at (modules qr) u v)"
      using grid_set_at[OF wf(1), of a b "data_bits data ! i"] ab n by auto
    have step: "place_bit data a b (qr, int i) = Inr (recoloured qr g, int (Suc i))"
      using True get g(1) data_bit[of i data] assms(2)
      by (simp add: place_bit_def recoloured_def bytes_ok_def)
    have m: "marked ver ecl (recoloured qr g)"
      using Cons.prems(1) g(2) by (simp add: marked_def wf_qr_def recoloured_def)
    have i: "Suc i \<le> 8 * length data" using True by simp
    obtain h where h: "foldE (\<lambda>(x, y). place_bit data x y) ps (recoloured qr g, int (Suc i))
          = Inr (recoloured (recoloured qr g) h, int (min (8 * length data) (Suc i + length ?D)))"
      "wf_grid ?n h"
      "\<forall>x y. in_sq (ver * 4 + 17) x y \<longrightarrow> grid_at h x y =
         (case map_of (zip ?D (drop (Suc i) (data_bits data))) (x, y) of Some b \<Rightarrow> b
          | None \<Rightarrow> grid_at (modules (recoloured qr g)) x y)"
      using Cons.IH[OF m ps(1,2) i] by blast
    have dr: "drop i (data_bits data) = data_bits data ! i # drop (Suc i) (data_bits data)"
      using True by (simp add: Cons_nth_drop_Suc)
    have "map_of (zip ?D bs) (a, b) = None" for bs :: "bool list"
      using ps(3) by (auto simp: map_of_eq_None_iff dest!: set_zip_leftD)
    then show ?thesis
      using True h g(3) step by (intro exI[of _ h]) (auto simp: p dr recoloured_def split: option.splits)
  qed
qed

lemma drawCodewords_effect:
  assumes "1 \<le> ver" "ver \<le> 40" "marked ver ecl qr" "bytes_ok data" "int (length data) = raw_modules ver div 8"
  shows "\<exists>g. drawCodewords data qr = Inr (recoloured qr g) \<and> wf_grid (nat (ver * 4 + 17)) g \<and>
    (\<forall>x y. in_sq (ver * 4 + 17) x y \<longrightarrow> grid_at g x y =
       (case map_of (zip (data_cells ver) (data_bits data)) (x, y) of Some b \<Rightarrow> b | None \<Rightarrow> grid_at (modules qr) x y))"
proof -
  define n where "n = nat (2 * ver + 5)"
  have n: "ver * 4 + 17 = 2 * int n + 7" using assms by (simp add: n_def)
  note z = zigzag_facts[OF n] and d = data_cells_facts[OF assms(1,2)]
  have sq: "\<forall>(x, y) \<in> set (zigzag (ver * 4 + 17)). in_sq (ver * 4 + 17) x y"
    by (auto simp: z(2) in_sq_def)
  have q: "qr_version qr = ver" "qr_size qr = ver * 4 + 17" using assms(3) by (simp_all add: marked_def)
  have "int (8 * length data) \<le> raw_modules ver" using assms(5) by simp
  then have le: "8 * length data \<le> length (data_cells ver)" using d(3) by linarith
  obtain g where g: "foldE (\<lambda>(x, y). place_bit data x y) (zigzag (ver * 4 + 17)) (qr, int 0)
        = Inr (recoloured qr g, int (min (8 * length data) (0 + length (data_cells ver))))"
      "wf_grid (nat (ver * 4 + 17)) g"
      "\<forall>x y. in_sq (ver * 4 + 17) x y \<longrightarrow> grid_at g x y =
         (case map_of (zip (data_cells ver) (drop 0 (data_bits data))) (x, y) of Some b \<Rightarrow> b | None \<Rightarrow> grid_at (modules qr) x y)"
    using place_bits[OF assms(3,4) z(1) sq, of 0] unfolding data_cells_def by auto
  have "scan_loop data (qr_size qr) (qr_size qr - 1) (qr, 0) = Inr (recoloured qr g, int (8 * length data))"
    using g(1) le by (simp add: q scan_loop_foldE zigzag_def min_def)
  then have "drawCodewords data qr = Inr (recoloured qr g)"
    using assms(1,2,5) by (simp add: drawCodewords_def q getNumRawDataModules_eq)
  then show ?thesis using g by auto
qed

section \<open>Reading the data modules\<close>

definition read_bits :: "int \<Rightarrow> nat \<Rightarrow> grid \<Rightarrow> bits" where
  "read_bits ver n g = map (\<lambda>(x, y). of_bool (grid_at g x y)) (take n (data_cells ver))"

lemma of_bool_data_bits: "map of_bool (data_bits data) = bytes_bits data"
proof -
  have "is_bits (bytes_bits data)" by (induction data) (simp_all add: bytes_bits_def)
  then show ?thesis
    unfolding data_bits_def map_map by (intro map_idI) (auto simp: is_bits_def)
qed

lemma map_of_zip_nth:
  "distinct xs \<Longrightarrow> k < length xs \<Longrightarrow> k < length ys \<Longrightarrow> map_of (zip xs ys) (xs ! k) = Some (ys ! k)"
proof (induction xs arbitrary: ys k)
  case (Cons x xs)
  then show ?case by (cases ys; cases k) auto
qed simp

lemma drawn_codewords_read:
  assumes "1 \<le> ver" "ver \<le> 40" "8 * length data \<le> length (data_cells ver)"
    "\<forall>x y. in_sq (ver * 4 + 17) x y \<longrightarrow> grid_at g x y =
       (case map_of (zip (data_cells ver) (data_bits data)) (x, y) of Some b \<Rightarrow> b | None \<Rightarrow> c x y)"
  shows "read_bits ver (8 * length data) g = bytes_bits data"
proof -
  note d = data_cells_facts[OF assms(1,2)]
  let ?n = "8 * length data"
  have "map (\<lambda>(x, y). grid_at g x y) (take ?n (data_cells ver)) = data_bits data"
  proof (rule nth_equalityI)
    show "length (map (\<lambda>(x, y). grid_at g x y) (take ?n (data_cells ver))) = length (data_bits data)"
      using assms(3) by simp
    fix k assume "k < length (map (\<lambda>(x, y). grid_at g x y) (take ?n (data_cells ver)))"
    then have k: "k < ?n" "k < length (data_cells ver)" by simp_all
    obtain x y where xy: "data_cells ver ! k = (x, y)" by (cases "data_cells ver ! k")
    then have "(x, y) \<in> set (data_cells ver)" using k(2) nth_mem by metis
    then have "in_sq (ver * 4 + 17) x y" by (simp add: d(2) free_modules_def)
    moreover have "map_of (zip (data_cells ver) (data_bits data)) (x, y) = Some (data_bits data ! k)"
      using map_of_zip_nth[OF d(1) k(2), of "data_bits data"] k(1) xy by simp
    ultimately show "map (\<lambda>(x, y). grid_at g x y) (take ?n (data_cells ver)) ! k = data_bits data ! k"
      using k xy assms(4) by simp
  qed
  then have "map of_bool (map (\<lambda>(x, y). grid_at g x y) (take ?n (data_cells ver))) = bytes_bits data"
    using of_bool_data_bits[of data] by simp
  then show ?thesis by (simp add: read_bits_def comp_def split_def)
qed

section \<open>Masks\<close>

definition inverts :: "int \<Rightarrow> int \<Rightarrow> int \<Rightarrow> bool" where
  "inverts msk x y = (case mask_invert msk x y of Inr b \<Rightarrow> b | Inl _ \<Rightarrow> False)"

lemma mask_invert_ok: "0 \<le> msk \<Longrightarrow> msk \<le> 7 \<Longrightarrow> mask_invert msk x y = Inr (inverts msk x y)"
proof -
  assume "0 \<le> msk" "msk \<le> 7"
  then have "msk \<in> {0, 1, 2, 3, 4, 5, 6, 7}" by auto
  then show ?thesis by (auto simp: inverts_def mask_invert_def)
qed

definition row_cells :: "int \<Rightarrow> (int \<times> int) list" where
  "row_cells sz = concat (map (\<lambda>y. map (\<lambda>x. (x, y)) [0..sz - 1]) [0..sz - 1])"

lemma row_cells_facts: "set (row_cells sz) = {0..<sz} \<times> {0..<sz}" "distinct (row_cells sz)"
proof -
  show "set (row_cells sz) = {0..<sz} \<times> {0..<sz}" by (auto simp: row_cells_def)
  have "distinct (concat (map (\<lambda>y. map (\<lambda>x. (x, y)) [0..sz - 1]) ys))" if "distinct ys" for ys
    using that by (induction ys) (auto simp: distinct_map inj_on_def)
  from this[OF distinct_upto] show "distinct (row_cells sz)" unfolding row_cells_def .
qed

lemma mask_cells:
  assumes "marked ver ecl qr" "0 \<le> msk" "msk \<le> 7" "distinct ps" "\<forall>(x, y) \<in> set ps. in_sq (ver * 4 + 17) x y"
  shows "\<exists>g. foldE (\<lambda>(x, y). mask_cell msk y x) ps qr = Inr (recoloured qr g) \<and> wf_grid (nat (ver * 4 + 17)) g \<and>
    (\<forall>x y. in_sq (ver * 4 + 17) x y \<longrightarrow> grid_at g x y =
       (grid_at (modules qr) x y \<noteq> ((x, y) \<in> set ps \<and> \<not> is_fn ver x y \<and> inverts msk x y)))"
  using assms(1,4,5)
proof (induction ps arbitrary: qr)
  case Nil
  then show ?case by (intro exI[of _ "modules qr"]) (simp add: marked_def wf_qr_def recoloured_def)
next
  case (Cons p ps)
  obtain a b where p: "p = (a, b)" by (cases p)
  let ?n = "nat (ver * 4 + 17)"
  have ab: "in_sq (ver * 4 + 17) a b" using Cons.prems(3) by (simp add: p)
  then have n: "int ?n = ver * 4 + 17" by (simp add: in_sq_def)
  have wf: "wf_grid ?n (modules qr)" "wf_grid ?n (isFunction qr)"
    using Cons.prems(1) by (simp_all add: marked_def wf_qr_def)
  have get: "grid_get (isFunction qr) a b = Inr (is_fn ver a b)"
    "grid_get (modules qr) a b = Inr (grid_at (modules qr) a b)"
    using grid_get_at[OF wf(2)] grid_get_at[OF wf(1)] ab Cons.prems(1) n by (simp_all add: marked_def)
  define flip where "flip \<longleftrightarrow> \<not> is_fn ver a b \<and> inverts msk a b"
  obtain g where g: "grid_set (modules qr) a b (\<not> grid_at (modules qr) a b) = Inr g" "wf_grid ?n g"
    "\<And>u v. in_sq (ver * 4 + 17) u v \<Longrightarrow>
       grid_at g u v = (if u = a \<and> v = b then \<not> grid_at (modules qr) a b else grid_at (modules qr) u v)"
    using grid_set_at[OF wf(1), of a b "\<not> grid_at (modules qr) a b"] ab n by auto
  define g' where "g' = (if flip then g else modules qr)"
  have step: "mask_cell msk b a qr = Inr (recoloured qr g')"
    using get g(1) by (simp add: mask_cell_def mask_invert_ok[OF assms(2,3)] g'_def flip_def recoloured_def)
  have g': "wf_grid ?n g'" "\<And>u v. in_sq (ver * 4 + 17) u v \<Longrightarrow>
      grid_at g' u v = (grid_at (modules qr) u v \<noteq> (u = a \<and> v = b \<and> flip))"
    using g wf by (auto simp: g'_def)
  have m: "marked ver ecl (recoloured qr g')"
    using Cons.prems(1) g'(1) by (simp add: marked_def wf_qr_def recoloured_def)
  have ps: "distinct ps" "\<forall>(x, y) \<in> set ps. in_sq (ver * 4 + 17) x y" "(a, b) \<notin> set ps"
    using Cons.prems(2,3) by (simp_all add: p)
  obtain h where h: "foldE (\<lambda>(x, y). mask_cell msk y x) ps (recoloured qr g') = Inr (recoloured (recoloured qr g') h)"
    "wf_grid ?n h" "\<forall>x y. in_sq (ver * 4 + 17) x y \<longrightarrow> grid_at h x y =
       (grid_at (modules (recoloured qr g')) x y \<noteq> ((x, y) \<in> set ps \<and> \<not> is_fn ver x y \<and> inverts msk x y))"
    using Cons.IH[OF m ps(1,2)] by blast
  have hat: "grid_at h x y = (grid_at (modules qr) x y \<noteq> ((x, y) \<in> set (p # ps) \<and> \<not> is_fn ver x y \<and> inverts msk x y))"
    if "in_sq (ver * 4 + 17) x y" for x y
    using h(3) g'(2) ps(3) that by (cases "x = a \<and> y = b") (auto simp: recoloured_def p flip_def)
  show ?case using h(1,2) hat step by (intro exI[of _ h]) (simp add: p recoloured_def)
qed

lemma applyMask_effect:
  assumes "marked ver ecl qr" "0 \<le> msk" "msk \<le> 7"
  shows "\<exists>g. applyMask msk qr = Inr (recoloured qr g) \<and> wf_grid (nat (ver * 4 + 17)) g \<and>
    (\<forall>x y. in_sq (ver * 4 + 17) x y \<longrightarrow>
       grid_at g x y = (grid_at (modules qr) x y \<noteq> (\<not> is_fn ver x y \<and> inverts msk x y)))"
proof -
  have q: "qr_size qr = ver * 4 + 17" using assms(1) by (simp add: marked_def)
  have "applyMask msk qr = foldE (\<lambda>(x, y). mask_cell msk y x) (row_cells (ver * 4 + 17)) qr"
    using assms(2,3) by (simp add: applyMask_def q row_cells_def foldE_nest [symmetric] foldE_map)
  moreover have "\<forall>(x, y) \<in> set (row_cells (ver * 4 + 17)). in_sq (ver * 4 + 17) x y"
    by (auto simp: row_cells_facts(1) in_sq_def)
  moreover have "(x, y) \<in> set (row_cells (ver * 4 + 17)) \<longleftrightarrow> in_sq (ver * 4 + 17) x y" for x y
    by (auto simp: row_cells_facts(1) in_sq_def)
  ultimately show ?thesis
    using mask_cells[OF assms row_cells_facts(2)[of "ver * 4 + 17"]] by auto
qed

section \<open>Properties\<close>

text \<open>
  C38: On a symbol whose function modules are marked, \<^verbatim>\<open>drawCodewords\<close> accepts exactly the right number
  of codewords, neither throws nor fails its assertion, touches no function module, and reading the
  free modules along the zigzag gives back the bits of the codewords, in order.
\<close>
theorem drawCodewords_roundtrip:
  assumes "1 \<le> ver" "ver \<le> 40" "marked ver ecl qr" "\<forall>b \<in> set data. 0 \<le> b \<and> b < 256"
  shows "if int (length data) \<noteq> raw_modules ver div 8
    then drawCodewords data qr = Inl (RangeError ''Invalid argument'')
    else \<exists>qr'. drawCodewords data qr = Inr qr' \<and> isFunction qr' = isFunction qr \<and>
           read_bits ver (8 * length data) (modules qr') = bytes_bits data \<and>
           (\<forall>x y. in_sq (qr_size qr) x y \<and> grid_at (isFunction qr) x y \<longrightarrow>
              grid_at (modules qr') x y = grid_at (modules qr) x y)"
proof (cases "int (length data) = raw_modules ver div 8")
  case False
  moreover have "qr_version qr = ver" using assms(3) by (simp add: marked_def)
  ultimately show ?thesis using assms(1,2) by (simp add: drawCodewords_def getNumRawDataModules_eq)
next
  case True
  note d = data_cells_facts[OF assms(1,2)]
  have "raw_modules ver \<le> 29648" by (rule raw_modules_bounds(2)[OF assms(1,2)])
  then have ok: "bytes_ok data" using True assms(4) by (simp add: bytes_ok_def)
  obtain g where g: "drawCodewords data qr = Inr (recoloured qr g)"
    "\<forall>x y. in_sq (ver * 4 + 17) x y \<longrightarrow> grid_at g x y =
       (case map_of (zip (data_cells ver) (data_bits data)) (x, y) of Some b \<Rightarrow> b | None \<Rightarrow> grid_at (modules qr) x y)"
    using drawCodewords_effect[OF assms(1-3) ok True] by blast
  have "8 * length data \<le> length (data_cells ver)" using True d(3) by linarith
  from drawn_codewords_read[OF assms(1,2) this g(2)]
  have "read_bits ver (8 * length data) g = bytes_bits data" .
  moreover have "grid_at g x y = grid_at (modules qr) x y" if "in_sq (ver * 4 + 17) x y" "is_fn ver x y" for x y
  proof -
    have "(x, y) \<notin> set (data_cells ver)" using that by (simp add: d(2) free_modules_def)
    then have "map_of (zip (data_cells ver) (data_bits data)) (x, y) = None"
      by (auto simp: map_of_eq_None_iff dest!: set_zip_leftD)
    then show ?thesis using g(2) that(1) by simp
  qed
  ultimately show ?thesis
    using True g(1) assms(3) by (auto simp: recoloured_def marked_def)
qed

theorem drawCodewords_roundtrip_witness:
  "\<exists>qr qr'. drawFunctionPatterns (blank 1 LOW) = Inr qr \<and> drawCodewords (replicate 26 165) qr = Inr qr' \<and>
     read_bits 1 208 (modules qr') = bytes_bits (replicate 26 165)"
proof -
  obtain qr where qr: "drawFunctionPatterns (blank 1 LOW) = Inr qr" "marked 1 LOW qr"
    using drawFunctionPatterns_effect[of 1 LOW] by auto
  have "raw_modules 1 = 208" by (simp add: raw_modules_def)
  then show ?thesis using drawCodewords_roundtrip[OF _ _ qr(2), of "replicate 26 165"] qr(1) by auto
qed

text \<open>
  A mask out of range is rejected; any other mask inverts exactly the free modules its pattern
  names, never a function module, and applying it a second time restores the symbol.
\<close>
theorem applyMask_involution:
  assumes "marked ver ecl qr"
  shows "if msk < 0 \<or> msk > 7 then applyMask msk qr = Inl (RangeError ''Mask value out of range'')
    else \<exists>qr'. applyMask msk qr = Inr qr' \<and> applyMask msk qr' = Inr qr \<and> isFunction qr' = isFunction qr \<and>
           (\<forall>x y. in_sq (qr_size qr) x y \<longrightarrow> grid_at (modules qr') x y =
              (grid_at (modules qr) x y \<noteq> (\<not> grid_at (isFunction qr) x y \<and> inverts msk x y)))"
proof (cases "msk < 0 \<or> msk > 7")
  case True
  then show ?thesis by (simp add: applyMask_def)
next
  case False
  then have r: "0 \<le> msk" "msk \<le> 7" by simp_all
  let ?n = "nat (ver * 4 + 17)"
  obtain g where g: "applyMask msk qr = Inr (recoloured qr g)" "wf_grid ?n g"
    "\<forall>x y. in_sq (ver * 4 + 17) x y \<longrightarrow>
       grid_at g x y = (grid_at (modules qr) x y \<noteq> (\<not> is_fn ver x y \<and> inverts msk x y))"
    using applyMask_effect[OF assms r] by blast
  have m: "marked ver ecl (recoloured qr g)"
    using assms g(2) by (simp add: marked_def wf_qr_def recoloured_def)
  obtain h where h: "applyMask msk (recoloured qr g) = Inr (recoloured (recoloured qr g) h)" "wf_grid ?n h"
    "\<forall>x y. in_sq (ver * 4 + 17) x y \<longrightarrow>
       grid_at h x y = (grid_at g x y \<noteq> (\<not> is_fn ver x y \<and> inverts msk x y))"
    using applyMask_effect[OF m r] by (auto simp: recoloured_def)
  have wf: "wf_grid ?n (modules qr)" and sz: "int ?n = ver * 4 + 17"
    using assms unfolding marked_def wf_qr_def by metis+
  have "h = modules qr"
  proof (rule grid_eqI[OF h(2) wf])
    show "grid_at h x y = grid_at (modules qr) x y" if "in_sq (int ?n) x y" for x y
      using that h(3) g(3) unfolding sz by auto
  qed
  then have "recoloured (recoloured qr g) h = qr" by (simp add: recoloured_def)
  then show ?thesis
    using False g(1,3) h(1) assms by (auto simp: recoloured_def marked_def)
qed

theorem applyMask_involution_witness:
  "\<exists>qr qr'. drawFunctionPatterns (blank 2 HIGH) = Inr qr \<and> applyMask 5 qr = Inr qr' \<and> applyMask 5 qr' = Inr qr"
proof -
  obtain qr where qr: "drawFunctionPatterns (blank 2 HIGH) = Inr qr" "marked 2 HIGH qr"
    using drawFunctionPatterns_effect[of 2 HIGH] by auto
  then show ?thesis using applyMask_involution[OF qr(2), of 5] by auto
qed

end
