(* ===== verification/Penalty.thy ===== *)
theory Penalty
  imports FunctionModules
begin

text \<open>
  \<^verbatim>\<open>QrCode.getPenaltyScore\<close> of \<^verbatim>\<open>frontend/js/qrcodegen.js\<close> with its three \<^verbatim>\<open>finderPenalty\<close> helpers.
  The score of a line is computed by a small state machine (the colour and length of the current
  run and a history of seven run lengths); \<^verbatim>\<open>line_inv\<close> is its invariant. It gives the bounds the
  code asserts: the score of every square symbol is between 0 and 2568888, so the automatic choice
  of a mask always finds one below its starting value.
\<close>

section \<open>The code\<close>

definition PENALTY_N1 :: int where "PENALTY_N1 = 3"
definition PENALTY_N2 :: int where "PENALTY_N2 = 3"
definition PENALTY_N3 :: int where "PENALTY_N3 = 40"
definition PENALTY_N4 :: int where "PENALTY_N4 = 10"

definition finderPenaltyCountPatterns :: "int \<Rightarrow> int list \<Rightarrow> int js" where
  "finderPenaltyCountPatterns sz runHistory =
     (let n = runHistory ! 1 in
      bindE (assertE (n \<le> sz * 3)) (\<lambda>_.
        let core = (n > 0 \<and> runHistory ! 2 = n \<and> runHistory ! 3 = n * 3 \<and> runHistory ! 4 = n \<and> runHistory ! 5 = n)
        in Inr ((if core \<and> runHistory ! 0 \<ge> n * 4 \<and> runHistory ! 6 \<ge> n then 1 else 0)
              + (if core \<and> runHistory ! 6 \<ge> n * 4 \<and> runHistory ! 0 \<ge> n then 1 else 0))))"

definition finderPenaltyAddHistory :: "int \<Rightarrow> int \<Rightarrow> int list \<Rightarrow> int list" where
  "finderPenaltyAddHistory sz currentRunLength runHistory =
     (let currentRunLength = (if runHistory ! 0 = 0 then currentRunLength + sz else currentRunLength)
      in currentRunLength # butlast runHistory)"

definition finderPenaltyTerminateAndCount :: "int \<Rightarrow> bool \<Rightarrow> int \<Rightarrow> int list \<Rightarrow> int js" where
  "finderPenaltyTerminateAndCount sz currentRunColor currentRunLength runHistory =
     (let (len, hist) = (if currentRunColor
                         then (0, finderPenaltyAddHistory sz currentRunLength runHistory)
                         else (currentRunLength, runHistory));
          len = len + sz
      in finderPenaltyCountPatterns sz (finderPenaltyAddHistory sz len hist))"

text \<open>The loop body over one line: score, colour and length of the current run, run history.\<close>

type_synonym line_state = "int \<times> bool \<times> int \<times> int list"

definition line_step :: "int \<Rightarrow> bool \<Rightarrow> line_state \<Rightarrow> line_state js" where
  "line_step sz c st =
     (let (result, runColor, run, runHistory) = st
      in if c = runColor
         then let run = run + 1
              in Inr (if run = 5 then result + PENALTY_N1 else if run > 5 then result + 1 else result,
                      runColor, run, runHistory)
         else let runHistory = finderPenaltyAddHistory sz run runHistory
              in bindE (if \<not> runColor
                        then bindE (finderPenaltyCountPatterns sz runHistory) (\<lambda>k. Inr (result + k * PENALTY_N3))
                        else Inr result) (\<lambda>result.
                 Inr (result, c, 1, runHistory)))"

definition penalty_line :: "int \<Rightarrow> (int \<Rightarrow> bool js) \<Rightarrow> int \<Rightarrow> int js" where
  "penalty_line sz get result =
     bindE (foldE (\<lambda>i st. bindE (get i) (\<lambda>c. line_step sz c st)) [0..sz - 1]
              (result, False, 0, [0, 0, 0, 0, 0, 0, 0])) (\<lambda>(result, runColor, run, runHistory).
     bindE (finderPenaltyTerminateAndCount sz runColor run runHistory) (\<lambda>k.
     Inr (result + k * PENALTY_N3)))"

definition block_cell :: "grid \<Rightarrow> int \<Rightarrow> int \<Rightarrow> int \<Rightarrow> int js" where
  "block_cell g y x result =
     bindE (grid_get g x y) (\<lambda>color.
     bindE (grid_get g (x + 1) y) (\<lambda>a.
     if color \<noteq> a then Inr result
     else bindE (grid_get g x (y + 1)) (\<lambda>b.
          if color \<noteq> b then Inr result
          else bindE (grid_get g (x + 1) (y + 1)) (\<lambda>c.
               Inr (if color = c then result + PENALTY_N2 else result)))))"

definition count_dark :: "grid \<Rightarrow> int" where
  "count_dark g = fold (\<lambda>row dark. fold (\<lambda>color s. s + (if color then 1 else 0)) row dark) g 0"

definition balance_k :: "int \<Rightarrow> int \<Rightarrow> int" where
  "balance_k dark tot = ceil_div \<bar>dark * 20 - tot * 10\<bar> tot - 1"

definition getPenaltyScore :: "qrcode \<Rightarrow> int js" where
  "getPenaltyScore qr =
     (let sz = qr_size qr; g = modules qr in
      bindE (foldE (\<lambda>y. penalty_line sz (\<lambda>x. grid_get g x y)) [0..sz - 1] 0) (\<lambda>result.
      bindE (foldE (\<lambda>x. penalty_line sz (\<lambda>y. grid_get g x y)) [0..sz - 1] result) (\<lambda>result.
      bindE (foldE (\<lambda>y. foldE (block_cell g y) [0..sz - 2]) [0..sz - 2] result) (\<lambda>result.
        let dark = count_dark g; tot = sz * sz; k = balance_k dark tot in
      bindE (assertE (0 \<le> k \<and> k \<le> 9)) (\<lambda>_.
        let result = result + k * PENALTY_N4 in
      bindE (assertE (0 \<le> result \<and> result \<le> 2568888)) (\<lambda>_. Inr result))))))"

section \<open>One line\<close>

text \<open>
  After \<open>x\<close> cells the score has grown by \<open>a + 40 * m\<close>. Cells of dark runs that may still become the
  middle of a counted pattern are not charged to \<open>m\<close> yet.
\<close>

definition run_bound :: "int \<Rightarrow> int \<Rightarrow> int \<Rightarrow> bool" where
  "run_bound x a run \<longleftrightarrow> 0 \<le> a \<and> 0 \<le> run \<and> run \<le> x \<and> a \<le> x - (if run < 5 then run else 2)"

definition hist_ok :: "int \<Rightarrow> bool \<Rightarrow> int \<Rightarrow> int list \<Rightarrow> bool" where
  "hist_ok sz c run hist \<longleftrightarrow> length hist = 7 \<and> list_all (\<lambda>h. 0 \<le> h \<and> h \<le> 2 * sz) hist \<and>
     (c \<longrightarrow> 0 < hist ! 0) \<and> (0 < hist ! 0 \<longrightarrow> 0 < run)"

definition pending :: "bool \<Rightarrow> int \<Rightarrow> int list \<Rightarrow> int" where
  "pending c run hist = (if c then run + hist ! 1 else hist ! 0 + hist ! 2)"

definition line_inv :: "int \<Rightarrow> int \<Rightarrow> int \<Rightarrow> line_state \<Rightarrow> bool" where
  "line_inv sz res0 x st \<longleftrightarrow> (case st of (result, c, run, hist) \<Rightarrow>
     \<exists>a m. result = res0 + a + 40 * m \<and> 0 \<le> m \<and> run_bound x a run \<and> hist_ok sz c run hist \<and>
       3 * m + 2 * pending c run hist \<le> 2 * x)"

lemma line_invI:
  "0 \<le> m \<Longrightarrow> run_bound x a run \<Longrightarrow> hist_ok sz c run hist \<Longrightarrow> 3 * m + 2 * pending c run hist \<le> 2 * x \<Longrightarrow>
     line_inv sz res0 x (res0 + a + 40 * m, c, run, hist)"
  unfolding line_inv_def by blast

lemma hist_cases:
  assumes "hist_ok sz c run hist"
  obtains h0 h1 h2 h3 h4 h5 h6 where "hist = [h0, h1, h2, h3, h4, h5, h6]"
  using assms by (auto simp: hist_ok_def numeral_eq_Suc length_Suc_conv)

lemma run_bound_step:
  "run_bound x a run \<Longrightarrow> run_bound (x + 1) (if run + 1 = 5 then a + 3 else if run + 1 > 5 then a + 1 else a) (run + 1)"
  by (auto simp: run_bound_def split: if_splits)

lemma run_bound_new: "run_bound x a run \<Longrightarrow> 0 \<le> x \<Longrightarrow> run_bound (x + 1) a 1"
  by (auto simp: run_bound_def split: if_splits)

lemma count_bounds:
  assumes "h1 \<le> sz * 3"
  obtains k where "finderPenaltyCountPatterns sz [h0, h1, h2, h3, h4, h5, h6] = Inr k"
    "0 \<le> k" "k \<le> 2" "k = 0 \<or> 3 \<le> h3"
proof -
  define core where "core \<longleftrightarrow> h1 > 0 \<and> h2 = h1 \<and> h3 = h1 * 3 \<and> h4 = h1 \<and> h5 = h1"
  define k :: int where "k = (if core \<and> h0 \<ge> h1 * 4 \<and> h6 \<ge> h1 then 1 else 0)
      + (if core \<and> h6 \<ge> h1 * 4 \<and> h0 \<ge> h1 then 1 else 0)"
  have "finderPenaltyCountPatterns sz [h0, h1, h2, h3, h4, h5, h6] = Inr k"
    using assms by (simp add: finderPenaltyCountPatterns_def Let_def k_def core_def numeral_eq_Suc)
  moreover have "0 \<le> k" "k \<le> 2" by (simp_all add: k_def)
  moreover have "k = 0 \<or> 3 \<le> h3" by (auto simp: k_def core_def)
  ultimately show thesis by (rule that)
qed

lemma add_history:
  "finderPenaltyAddHistory sz r [h0, h1, h2, h3, h4, h5, h6] = [if h0 = 0 then r + sz else r, h0, h1, h2, h3, h4, h5]"
  by (simp add: finderPenaltyAddHistory_def)

lemma line_step_inv:
  assumes "line_inv sz res0 x st" "0 \<le> x" "x < sz"
  shows "\<exists>st'. line_step sz c st = Inr st' \<and> line_inv sz res0 (x + 1) st'"
proof -
  obtain result col run hist where st: "st = (result, col, run, hist)" by (cases st)
  obtain a m where i: "result = res0 + a + 40 * m" "0 \<le> m" "run_bound x a run" "hist_ok sz col run hist"
    "3 * m + 2 * pending col run hist \<le> 2 * x"
    using assms(1) by (auto simp: st line_inv_def)
  obtain h0 h1 h2 h3 h4 h5 h6 where hist: "hist = [h0, h1, h2, h3, h4, h5, h6]"
    by (rule hist_cases[OF i(4)])
  have run: "0 \<le> run" "run \<le> x" using i(3) by (simp_all add: run_bound_def)
  define r where "r = (if h0 = 0 then run + sz else run)"
  have r: "0 < r" "r \<le> 2 * sz" using i(4) run assms(2,3) by (auto simp: r_def hist hist_ok_def)
  have add: "finderPenaltyAddHistory sz run hist = [r, h0, h1, h2, h3, h4, h5]"
    by (simp add: hist add_history r_def)
  have ok: "hist_ok sz c 1 [r, h0, h1, h2, h3, h4, h5]"
    using i(4) r by (simp add: hist_ok_def hist)
  consider "c = col" | "c \<noteq> col" "col" | "c \<noteq> col" "\<not> col" by blast
  then show ?thesis
  proof cases
    case 1
    let ?a = "if run + 1 = 5 then a + 3 else if run + 1 > 5 then a + 1 else a"
    have "line_step sz c st = Inr (res0 + ?a + 40 * m, col, run + 1, hist)"
      using 1 by (simp add: line_step_def st i(1) PENALTY_N1_def)
    moreover have "hist_ok sz col (run + 1) hist" using i(4) run(1) by (auto simp: hist_ok_def)
    moreover have "3 * m + 2 * pending col (run + 1) hist \<le> 2 * (x + 1)" using i(5) by (simp add: pending_def split: if_splits)
    ultimately show ?thesis using run_bound_step[OF i(3)] i(2) line_invI by blast
  next
    case 2
    then have "line_step sz c st = Inr (res0 + a + 40 * m, c, 1, [r, h0, h1, h2, h3, h4, h5])"
      by (auto simp: line_step_def st add i(1))
    moreover have "r = run" using i(4) 2 by (simp add: hist_ok_def hist r_def)
    then have "3 * m + 2 * pending c 1 [r, h0, h1, h2, h3, h4, h5] \<le> 2 * (x + 1)"
      using i(5) 2 by (simp add: pending_def hist)
    ultimately show ?thesis using run_bound_new[OF i(3) assms(2)] i(2) ok line_invI by blast
  next
    case 3
    have "h0 \<le> sz * 3" using i(4) assms(2,3) by (simp add: hist_ok_def hist)
    then obtain k where k: "finderPenaltyCountPatterns sz [r, h0, h1, h2, h3, h4, h5] = Inr k"
      "0 \<le> k" "k \<le> 2" "k = 0 \<or> 3 \<le> h2" by (rule count_bounds)
    have "line_step sz c st = Inr (res0 + a + 40 * (m + k), c, 1, [r, h0, h1, h2, h3, h4, h5])"
      using 3 k(1) by (simp add: line_step_def st add i(1) PENALTY_N3_def)
    moreover have "0 \<le> h2" using i(4) by (simp add: hist_ok_def hist)
    then have "3 * (m + k) + 2 * pending c 1 [r, h0, h1, h2, h3, h4, h5] \<le> 2 * (x + 1)"
      using i(5) 3 k by (auto simp: pending_def hist)
    moreover have "0 \<le> m + k" using i(2) k(2) by simp
    ultimately show ?thesis using run_bound_new[OF i(3) assms(2)] ok line_invI by blast
  qed
qed

lemma line_inv_start: "0 \<le> sz \<Longrightarrow> line_inv sz res0 0 (res0, False, 0, [0, 0, 0, 0, 0, 0, 0])"
  using line_invI[of 0 0 0 0 sz False "[0, 0, 0, 0, 0, 0, 0]" res0]
  by (simp add: run_bound_def hist_ok_def pending_def)

lemma foldE_upto_invariant:
  assumes "P m s" "m \<le> n" "\<And>i s. m \<le> i \<Longrightarrow> i < n \<Longrightarrow> P i s \<Longrightarrow> \<exists>s'. f i s = Inr s' \<and> P (i + 1) s'"
  shows "\<exists>s'. foldE f [m..n - 1] s = Inr s' \<and> P (n :: int) s'"
  using assms
proof (induction "nat (n - m)" arbitrary: m s)
  case 0
  then show ?case by simp
next
  case (Suc k)
  then have lt: "m < n" by simp
  then obtain s' where s': "f m s = Inr s'" "P (m + 1) s'" using Suc.prems(1,3) by blast
  have "\<exists>s''. foldE f [m + 1..n - 1] s' = Inr s'' \<and> P n s''"
    using Suc.hyps(2) Suc.prems s' lt by (intro Suc.hyps(1)) auto
  then show ?case using s' lt by (simp add: upto_rec1)
qed

lemma penalty_line_bounds:
  assumes "0 < sz" "\<And>i. 0 \<le> i \<Longrightarrow> i < sz \<Longrightarrow> \<exists>c. get i = Inr c"
  shows "\<exists>result. penalty_line sz get res0 = Inr result \<and> res0 \<le> result \<and> result \<le> res0 + 28 * sz"
proof -
  have "\<exists>st. foldE (\<lambda>i st. bindE (get i) (\<lambda>c. line_step sz c st)) [0..sz - 1] (res0, False, 0, [0, 0, 0, 0, 0, 0, 0])
      = Inr st \<and> line_inv sz res0 sz st"
  proof (rule foldE_upto_invariant[where P = "line_inv sz res0"])
    show "line_inv sz res0 0 (res0, False, 0, [0, 0, 0, 0, 0, 0, 0])" using assms(1) by (intro line_inv_start) simp
    fix i st assume "0 \<le> i" "i < sz" "line_inv sz res0 i st"
    then show "\<exists>st'. bindE (get i) (\<lambda>c. line_step sz c st) = Inr st' \<and> line_inv sz res0 (i + 1) st'"
      using assms(2)[of i] line_step_inv by fastforce
  qed (use assms in simp)
  then obtain result c run hist where st:
    "foldE (\<lambda>i st. bindE (get i) (\<lambda>c. line_step sz c st)) [0..sz - 1] (res0, False, 0, [0, 0, 0, 0, 0, 0, 0])
      = Inr (result, c, run, hist)" "line_inv sz res0 sz (result, c, run, hist)" by auto
  obtain a m where i: "result = res0 + a + 40 * m" "0 \<le> m" "run_bound sz a run" "hist_ok sz c run hist"
    "3 * m + 2 * pending c run hist \<le> 2 * sz"
    using st(2) by (auto simp: line_inv_def)
  obtain h0 h1 h2 h3 h4 h5 h6 where hist: "hist = [h0, h1, h2, h3, h4, h5, h6]"
    by (rule hist_cases[OF i(4)])
  have run: "0 \<le> run" "run \<le> sz" "0 \<le> a" "a \<le> sz" using i(3) by (auto simp: run_bound_def split: if_splits)
  have h: "0 \<le> h0" "h0 \<le> 2 * sz" "0 \<le> h1" "0 \<le> h2" using i(4) by (simp_all add: hist_ok_def hist)
  have "\<exists>k. finderPenaltyTerminateAndCount sz c run hist = Inr k \<and> 0 \<le> k \<and> 3 * (m + k) \<le> 2 * sz"
  proof (cases c)
    case True
    then have "h0 \<noteq> 0" "0 < run" using i(4) by (auto simp: hist_ok_def hist)
    then have t: "finderPenaltyTerminateAndCount sz c run hist = finderPenaltyCountPatterns sz [sz, run, h0, h1, h2, h3, h4]"
      using True by (simp add: finderPenaltyTerminateAndCount_def hist add_history)
    have "run \<le> sz * 3" using run assms(1) by simp
    then obtain k where "finderPenaltyCountPatterns sz [sz, run, h0, h1, h2, h3, h4] = Inr k"
      "0 \<le> k" "k \<le> 2" "k = 0 \<or> 3 \<le> h1" by (rule count_bounds)
    moreover have "3 * m + 2 * (run + h1) \<le> 2 * sz" using i(5) True by (simp add: pending_def hist)
    ultimately show ?thesis using t run(1) h(3) by auto
  next
    case False
    define r where "r = (if h0 = 0 then run + sz + sz else run + sz)"
    have t: "finderPenaltyTerminateAndCount sz c run hist = finderPenaltyCountPatterns sz [r, h0, h1, h2, h3, h4, h5]"
      using False by (simp add: finderPenaltyTerminateAndCount_def hist add_history r_def)
    have "h0 \<le> sz * 3" using h by linarith
    then obtain k where "finderPenaltyCountPatterns sz [r, h0, h1, h2, h3, h4, h5] = Inr k"
      "0 \<le> k" "k \<le> 2" "k = 0 \<or> 3 \<le> h2" by (rule count_bounds)
    moreover have "3 * m + 2 * (h0 + h2) \<le> 2 * sz" using i(5) False by (simp add: pending_def hist)
    ultimately show ?thesis using t h by auto
  qed
  then obtain k where k: "finderPenaltyTerminateAndCount sz c run hist = Inr k" "0 \<le> k" "3 * (m + k) \<le> 2 * sz" by blast
  have "penalty_line sz get res0 = Inr (res0 + a + 40 * (m + k))"
    by (simp add: penalty_line_def st(1) k(1) i(1) PENALTY_N3_def)
  moreover have "a + 40 * (m + k) \<le> 28 * sz" using run(4) k(3) assms(1) by linarith
  ultimately show ?thesis using run(3) i(2) k(2) by auto
qed

section \<open>Blocks and balance\<close>

text \<open>A loop whose every pass adds between 0 and \<open>b\<close>.\<close>

lemma foldE_adds:
  assumes "\<And>x r. x \<in> set xs \<Longrightarrow> \<exists>r'. f x r = Inr r' \<and> r \<le> r' \<and> r' \<le> r + b"
  shows "\<exists>r'. foldE f xs r = Inr r' \<and> r \<le> r' \<and> r' \<le> r + int (length xs) * b"
  using assms
proof (induction xs arbitrary: r)
  case (Cons x xs)
  obtain r1 where r1: "f x r = Inr r1" "r \<le> r1" "r1 \<le> r + b" using Cons.prems[of x r] by auto
  obtain r2 where "foldE f xs r1 = Inr r2" "r1 \<le> r2" "r2 \<le> r1 + int (length xs) * b"
    using Cons.IH[of r1] Cons.prems by auto
  then show ?case using r1 by (auto simp: algebra_simps)
qed simp

lemma block_cell_adds:
  assumes "wf_grid n g" "in_sq (int n) x y" "in_sq (int n) (x + 1) (y + 1)"
  shows "\<exists>r'. block_cell g y x r = Inr r' \<and> r \<le> r' \<and> r' \<le> r + 3"
proof -
  have "in_sq (int n) (x + 1) y" "in_sq (int n) x (y + 1)" using assms(2,3) by (auto simp: in_sq_def)
  then show ?thesis
    using assms by (simp add: block_cell_def grid_get_at PENALTY_N2_def)
qed

lemma count_row: "fold (\<lambda>color s. s + (if color then 1 else 0)) row d = d + int (length (filter id row))"
  by (induction row arbitrary: d) auto

lemma count_dark_eq: "count_dark g = (\<Sum>row\<leftarrow>g. int (length (filter id row)))"
proof -
  have "fold (\<lambda>row d. fold (\<lambda>color s. s + (if color then 1 else 0)) row d) g d
      = d + (\<Sum>row\<leftarrow>g. int (length (filter id row)))" for d :: int
    by (induction g arbitrary: d) (simp_all add: count_row)
  then show ?thesis by (simp add: count_dark_def)
qed

lemma count_dark_bounds:
  assumes "wf_grid n g"
  shows "0 \<le> count_dark g" "count_dark g \<le> int n * int n"
proof -
  define f where "f row = int (length (filter id row))" for row
  have "length (filter id row) \<le> n" if "row \<in> set g" for row
    using that assms length_filter_le[of id row] by (metis wf_grid_def)
  then have "\<forall>row \<in> set g. 0 \<le> f row \<and> f row \<le> int n"
    by (simp add: f_def)
  then have "0 \<le> (\<Sum>row\<leftarrow>g. f row) \<and> (\<Sum>row\<leftarrow>g. f row) \<le> int (length g) * int n"
    by (induction g) (auto simp: algebra_simps)
  then show "0 \<le> count_dark g" "count_dark g \<le> int n * int n"
    using assms by (simp_all add: count_dark_eq wf_grid_def f_def)
qed

lemma ceil_div_le:
  assumes "0 < b"
  shows "ceil_div a b \<le> k \<longleftrightarrow> a \<le> k * b"
proof -
  define q r where "q = (- a) div b" and "r = (- a) mod b"
  have "q * b + r = - a" by (simp only: q_def r_def div_mult_mod_eq)
  then have a: "a = (- q) * b - r" by simp
  have r: "0 \<le> r" "r < b" using assms by (simp_all add: r_def)
  show ?thesis
  proof
    assume "ceil_div a b \<le> k"
    then have "(- q) * b \<le> k * b" using assms by (intro mult_right_mono) (simp_all add: ceil_div_def q_def)
    then show "a \<le> k * b" using a r by linarith
  next
    assume "a \<le> k * b"
    then have "(- q - k) * b < 1 * b" using a r by (simp add: algebra_simps)
    then have "- q - k < 1" using assms by (simp only: mult_less_cancel_right)
    then show "ceil_div a b \<le> k" by (simp add: ceil_div_def q_def)
  qed
qed

text \<open>The dark modules of a square of odd size never balance the light ones exactly.\<close>

lemma balance_k_le:
  "0 < tot \<Longrightarrow> balance_k dark tot \<le> k \<longleftrightarrow> \<bar>dark * 20 - tot * 10\<bar> \<le> (k + 1) * tot"
  using ceil_div_le[of tot "\<bar>dark * 20 - tot * 10\<bar>" "k + 1"] by (auto simp: balance_k_def)

lemma balance_k_bounds:
  assumes "odd tot" "0 < tot" "0 \<le> dark" "dark \<le> tot"
  shows "0 \<le> balance_k dark tot" "balance_k dark tot \<le> 9"
proof -
  have "\<bar>dark * 20 - tot * 10\<bar> \<le> tot * 10" using assms(3,4) by linarith
  then show "balance_k dark tot \<le> 9" using balance_k_le[OF assms(2), of dark 9] by simp
  have "dark * 20 - tot * 10 \<noteq> 0" using assms(1) by presburger
  then have "\<not> balance_k dark tot \<le> -1" using balance_k_le[OF assms(2), of dark "-1"] by simp
  then show "0 \<le> balance_k dark tot" by simp
qed

section \<open>The score\<close>

lemma getPenaltyScore_ok:
  assumes "wf_qr n qr" "odd n" "n \<le> 177"
  shows "\<exists>score. getPenaltyScore qr = Inr score \<and> 0 \<le> score \<and> score \<le> 2568888"
proof -
  let ?sz = "int n" and ?g = "modules qr"
  have sz: "qr_size qr = ?sz" and g: "wf_grid n ?g" using assms(1) by (simp_all add: wf_qr_def)
  have n: "0 < ?sz" using assms(2) by (simp add: odd_pos)
  have get: "\<exists>c. grid_get ?g x y = Inr c" if "0 \<le> x" "x < ?sz" "0 \<le> y" "y < ?sz" for x y
    using grid_get_at[OF g] that by (simp add: in_sq_def)
  have len: "length [0..?sz - 1] = n" by simp
  define m where "m = length [0..?sz - 2]"
  have m: "int m \<le> 176" using n assms(3) by (simp add: m_def)
  have rows: "\<exists>r'. penalty_line ?sz (\<lambda>x. grid_get ?g x y) r = Inr r' \<and> r \<le> r' \<and> r' \<le> r + 28 * ?sz"
    if "y \<in> set [0..?sz - 1]" for y r
    by (rule penalty_line_bounds[OF n]) (use that get in auto)
  have cols: "\<exists>r'. penalty_line ?sz (\<lambda>y. grid_get ?g x y) r = Inr r' \<and> r \<le> r' \<and> r' \<le> r + 28 * ?sz"
    if "x \<in> set [0..?sz - 1]" for x r
    by (rule penalty_line_bounds[OF n]) (use that get in auto)
  obtain r1 where r1: "foldE (\<lambda>y. penalty_line ?sz (\<lambda>x. grid_get ?g x y)) [0..?sz - 1] 0 = Inr r1"
    "0 \<le> r1" "r1 \<le> ?sz * (28 * ?sz)"
    using foldE_adds[of "[0..?sz - 1]" "\<lambda>y. penalty_line ?sz (\<lambda>x. grid_get ?g x y)" "28 * ?sz" 0] rows len by auto
  obtain r2 where r2: "foldE (\<lambda>x. penalty_line ?sz (\<lambda>y. grid_get ?g x y)) [0..?sz - 1] r1 = Inr r2"
    "r1 \<le> r2" "r2 \<le> r1 + ?sz * (28 * ?sz)"
    using foldE_adds[of "[0..?sz - 1]" "\<lambda>x. penalty_line ?sz (\<lambda>y. grid_get ?g x y)" "28 * ?sz" r1] cols len by auto
  have cell: "\<exists>r'. block_cell ?g y x r = Inr r' \<and> r \<le> r' \<and> r' \<le> r + 3"
    if "x \<in> set [0..?sz - 2]" "y \<in> set [0..?sz - 2]" for x y r
    by (rule block_cell_adds[OF g]) (use that in \<open>auto simp: in_sq_def\<close>)
  have row: "\<exists>r'. foldE (block_cell ?g y) [0..?sz - 2] r = Inr r' \<and> r \<le> r' \<and> r' \<le> r + int m * 3"
    if "y \<in> set [0..?sz - 2]" for y r
    using foldE_adds[of "[0..?sz - 2]" "block_cell ?g y" 3 r] cell[OF _ that] unfolding m_def by blast
  obtain r3 where r3: "foldE (\<lambda>y. foldE (block_cell ?g y) [0..?sz - 2]) [0..?sz - 2] r2 = Inr r3"
    "r2 \<le> r3" "r3 \<le> r2 + int m * (int m * 3)"
    using foldE_adds[of "[0..?sz - 2]" "\<lambda>y. foldE (block_cell ?g y) [0..?sz - 2]" "int m * 3" r2] row unfolding m_def by blast
  define k where "k = balance_k (count_dark ?g) (?sz * ?sz)"
  have k: "0 \<le> k" "k \<le> 9"
    using balance_k_bounds[of "?sz * ?sz" "count_dark ?g"] count_dark_bounds[OF g] n assms(2) by (simp_all add: k_def)
  have "?sz * ?sz \<le> 177 * 177" "int m * int m \<le> 176 * 176"
    using assms(3) m by (intro mult_mono; simp)+
  then have bnd: "0 \<le> r3 + k * 10" "r3 + k * 10 \<le> 2568888"
    using r1 r2 r3 k by linarith+
  have "getPenaltyScore qr = Inr (r3 + k * 10)"
    unfolding getPenaltyScore_def Let_def sz r1(1) r2(1) bindE.simps r3(1) k_def [symmetric] PENALTY_N4_def
    using k bnd by simp
  then show ?thesis using bnd by blast
qed

section \<open>Properties\<close>

text \<open>
  The balance term is the smallest \<open>k >= 0\<close> for which the share of dark modules lies between
  45 - 5k and 55 + 5k percent, for every count of dark modules in a square of odd size.
\<close>
theorem balance_k_smallest:
  assumes "odd tot" "0 < tot" "0 \<le> dark" "dark \<le> tot"
  shows "0 \<le> balance_k dark tot \<and> balance_k dark tot \<le> 9 \<and>
    (\<forall>k \<ge> 0. balance_k dark tot \<le> k \<longleftrightarrow>
       (45 - 5 * k) * tot \<le> 100 * dark \<and> 100 * dark \<le> (55 + 5 * k) * tot)"
proof -
  have "\<bar>dark * 20 - tot * 10\<bar> \<le> (k + 1) * tot \<longleftrightarrow>
      (45 - 5 * k) * tot \<le> 100 * dark \<and> 100 * dark \<le> (55 + 5 * k) * tot" for k
  proof -
    obtain p where p: "p = k * tot" by simp
    have "(k + 1) * tot = p + tot" "(45 - 5 * k) * tot = 45 * tot - 5 * p"
      "(55 + 5 * k) * tot = 55 * tot + 5 * p" by (simp_all add: p algebra_simps)
    then show ?thesis by (simp only:) linarith
  qed
  then show ?thesis using balance_k_bounds[OF assms] balance_k_le[OF assms(2), of dark] by auto
qed

theorem balance_k_smallest_witness: "balance_k 100 441 = 5 \<and> 0 \<le> balance_k 100 441"
proof -
  have "balance_k 100 441 = 5" by code_simp
  then show ?thesis using balance_k_smallest[of 441 100] by simp
qed

text \<open>
  C39: On every square grid of odd size up to 177, which includes all 40 versions, \<^verbatim>\<open>getPenaltyScore\<close>
  returns a score between 0 and 2568888: no read leaves the grid and none of its assertions fails,
  so every score is below the starting value 1000000000 of the search for a mask.
\<close>
theorem penalty_score_bounds:
  assumes "wf_qr n qr" "odd n" "n \<le> 177"
  shows "\<exists>score. getPenaltyScore qr = Inr score \<and> 0 \<le> score \<and> score \<le> 2568888"
  by (rule getPenaltyScore_ok[OF assms])

theorem penalty_score_bounds_witness:
  "\<exists>score. getPenaltyScore (blank 1 LOW) = Inr score \<and> 0 \<le> score \<and> score \<le> 2568888"
  using penalty_score_bounds[of 21 "blank 1 LOW"] wf_blank[of 1 LOW] by simp

end
