(* ===== verification/QrCode.thy ===== *)
theory QrCode
  imports Encode Interleave FormatInfo DataModules Penalty
begin

text \<open>
  The constructor and the factory functions of \<^verbatim>\<open>qrcodegen.QrCode\<close> in \<^verbatim>\<open>frontend/js/qrcodegen.js\<close>,
  composed from the other components of the generator.

  \<^item> \<^verbatim>\<open>new_QrCode_forced\<close> and \<^verbatim>\<open>new_QrCode_auto\<close> say what the constructor returns for a mask that is
    given and for the automatic choice.
  \<^item> \<^verbatim>\<open>read_symbol\<close> is a scanner: it reads the mask from the format modules, undoes it, collects the
    data modules, takes the blocks apart and reads the bit stream. The round trips end here, at
    the modules of the finished symbol.
\<close>

section \<open>The code\<close>

text \<open>One round of the search for a mask; the state is \<^verbatim>\<open>msk\<close>, \<^verbatim>\<open>minPenalty\<close> and the symbol.\<close>

definition mask_round :: "int \<Rightarrow> int \<times> int \<times> qrcode \<Rightarrow> (int \<times> int \<times> qrcode) js" where
  "mask_round i st =
     (let (msk, minPenalty, qr) = st
      in bindE (applyMask i qr) (\<lambda>qr.
         bindE (drawFormatBits i qr) (\<lambda>qr.
         bindE (getPenaltyScore qr) (\<lambda>penalty.
         let (msk, minPenalty) = (if penalty < minPenalty then (i, penalty) else (msk, minPenalty))
         in bindE (applyMask i qr) (\<lambda>qr. Inr (msk, minPenalty, qr))))))"

definition choose_mask :: "int \<Rightarrow> qrcode \<Rightarrow> (int \<times> qrcode) js" where
  "choose_mask msk qr =
     (if msk = -1
      then bindE (foldE mask_round [0..7] (msk, 1000000000, qr)) (\<lambda>(msk, _, qr). Inr (msk, qr))
      else Inr (msk, qr))"

definition new_QrCode :: "int \<Rightarrow> ecc \<Rightarrow> int list \<Rightarrow> int \<Rightarrow> qrcode js" where
  "new_QrCode ver ecl dataCodewords msk =
     (if ver < MIN_VERSION \<or> ver > MAX_VERSION then Inl (RangeError ''Version value out of range'')
      else if msk < -1 \<or> msk > 7 then Inl (RangeError ''Mask value out of range'')
      else bindE (drawFunctionPatterns (blank ver ecl)) (\<lambda>qr.
           bindE (addEccAndInterleave ver ecl dataCodewords) (\<lambda>allCodewords.
           bindE (drawCodewords allCodewords qr) (\<lambda>qr.
           bindE (choose_mask msk qr) (\<lambda>(msk, qr).
           bindE (assertE (0 \<le> msk \<and> msk \<le> 7)) (\<lambda>_.
           bindE (applyMask msk (qr\<lparr>qr_mask := Some msk\<rparr>)) (\<lambda>qr.
           bindE (drawFormatBits msk qr) (\<lambda>qr.
           Inr (qr\<lparr>isFunction := []\<rparr>)))))))))"

definition encodeSegments :: "segment list \<Rightarrow> ecc \<Rightarrow> int \<Rightarrow> int \<Rightarrow> int \<Rightarrow> bool \<Rightarrow> qrcode js" where
  "encodeSegments segs ecl minVersion maxVersion msk boostEcl =
     bindE (encode_data segs ecl minVersion maxVersion msk boostEcl)
       (\<lambda>(ver, ecl, dataCodewords). new_QrCode ver ecl dataCodewords msk)"

definition encodeText :: "jstr \<Rightarrow> ecc \<Rightarrow> qrcode js" where
  "encodeText txt ecl = bindE (makeSegments txt) (\<lambda>segs. encodeSegments segs ecl 1 40 (-1) True)"

definition encodeBinary :: "int list \<Rightarrow> ecc \<Rightarrow> qrcode js" where
  "encodeBinary data ecl = bindE (makeBytes data) (\<lambda>seg. encodeSegments [seg] ecl 1 40 (-1) True)"

section \<open>Masking\<close>

abbreviation masked :: "int \<Rightarrow> qrcode \<Rightarrow> qrcode js" where
  "masked i qr \<equiv> bindE (applyMask i qr) (drawFormatBits i)"

text \<open>What masking turns a module into: the format modules show the mask, the free ones are inverted.\<close>

definition masked_at :: "int \<Rightarrow> ecc \<Rightarrow> int \<Rightarrow> qrcode \<Rightarrow> int \<Rightarrow> int \<Rightarrow> bool" where
  "masked_at ver ecl i qr x y =
     colour (format_cells (ver * 4 + 17) (format_bits ecl i)) x y
       (grid_at (modules qr) x y \<noteq> (\<not> is_fn ver x y \<and> inverts i x y))"

lemma marked_recoloured: "marked ver ecl qr \<Longrightarrow> wf_grid (nat (ver * 4 + 17)) g \<Longrightarrow> marked ver ecl (recoloured qr g)"
  by (simp add: marked_def recoloured_def wf_qr_def)

lemma masked_effect:
  assumes "marked ver ecl qr" "1 \<le> ver" "0 \<le> i" "i \<le> 7"
  shows "\<exists>r. masked i qr = Inr r \<and> marked ver ecl r \<and> qr_mask r = qr_mask qr \<and>
    (\<forall>x y. in_sq (ver * 4 + 17) x y \<longrightarrow> grid_at (modules r) x y = masked_at ver ecl i qr x y)"
proof -
  obtain g where g: "applyMask i qr = Inr (recoloured qr g)" "wf_grid (nat (ver * 4 + 17)) g"
    "\<forall>x y. in_sq (ver * 4 + 17) x y \<longrightarrow>
       grid_at g x y = (grid_at (modules qr) x y \<noteq> (\<not> is_fn ver x y \<and> inverts i x y))"
    using applyMask_effect[OF assms(1,3,4)] by blast
  obtain r where "drawFormatBits i (recoloured qr g) = Inr r" "marked ver ecl r"
    "qr_mask r = qr_mask (recoloured qr g)"
    "\<forall>x y. in_sq (ver * 4 + 17) x y \<longrightarrow> grid_at (modules r) x y =
       colour (format_cells (ver * 4 + 17) (format_bits ecl i)) x y (grid_at (modules (recoloured qr g)) x y)"
    using drawFormatBits_effect[OF marked_recoloured[OF assms(1) g(2)] assms(2-4)] by blast
  then show ?thesis using g by (auto simp: masked_at_def recoloured_def)
qed

text \<open>Two symbols of the same size whose grids agree everywhere are equal up to the field \<^verbatim>\<open>mask\<close>.\<close>

lemma marked_eqI:
  assumes "marked ver ecl a" "marked ver ecl b" "1 \<le> ver"
    "\<And>x y. in_sq (ver * 4 + 17) x y \<Longrightarrow> grid_at (modules a) x y = grid_at (modules b) x y"
  shows "modules a = modules b" "qr_mask a = qr_mask b \<Longrightarrow> a = b"
proof -
  let ?n = "nat (ver * 4 + 17)"
  have n: "int ?n = ver * 4 + 17" using assms(3) by simp
  have wf: "wf_grid ?n (modules a)" "wf_grid ?n (modules b)" "wf_grid ?n (isFunction a)" "wf_grid ?n (isFunction b)"
    using assms(1,2) by (simp_all add: marked_def wf_qr_def)
  show m: "modules a = modules b"
    by (rule grid_eqI[OF wf(1,2)]) (simp only: n assms(4))
  have f: "isFunction a = isFunction b"
    using assms(1,2) by (intro grid_eqI[OF wf(3,4)]) (simp only: n marked_def)
  show "a = b" if "qr_mask a = qr_mask b"
    using assms(1,2) that m f by (auto simp: marked_def intro!: qrcode.equality)
qed

text \<open>The search changes nothing but the format modules, which each round draws anew.\<close>

definition same_data :: "int \<Rightarrow> ecc \<Rightarrow> qrcode \<Rightarrow> qrcode \<Rightarrow> bool" where
  "same_data ver ecl a b \<longleftrightarrow> marked ver ecl a \<and> marked ver ecl b \<and>
     (\<forall>x y. in_sq (ver * 4 + 17) x y \<longrightarrow> \<not> covered (format_cells (ver * 4 + 17) 0) x y \<longrightarrow>
        grid_at (modules a) x y = grid_at (modules b) x y)"

lemma covered_format_any: "covered (format_cells sz b) x y = covered (format_cells sz 0) x y"
  by (simp only: covered_format)

lemma masked_at_same:
  assumes "same_data ver ecl a b" "in_sq (ver * 4 + 17) x y"
  shows "masked_at ver ecl i a x y = masked_at ver ecl i b x y"
proof (cases "covered (format_cells (ver * 4 + 17) 0) x y")
  case True
  then show ?thesis unfolding masked_at_def
    by (intro colour_covered) (simp only: covered_format_any[of _ "format_bits ecl i"] not_False_eq_True)
next
  case False
  then show ?thesis using assms by (simp add: masked_at_def same_data_def)
qed

lemma format_is_fn:
  assumes "1 \<le> ver" "in_sq (ver * 4 + 17) x y" "covered (format_cells (ver * 4 + 17) b) x y"
  shows "is_fn ver x y"
proof -
  have "covered (format_cells (ver * 4 + 17) (format_bits LOW 0)) x y"
    using assms(3) by (simp only: covered_format)
  then have "covered (function_cells ver LOW) x y" by (simp add: function_cells_def Let_def)
  then show ?thesis using covered_function_cells[OF assms(1,2)] by simp
qed

lemma masked_at_uncovered:
  "\<not> covered (format_cells (ver * 4 + 17) 0) x y \<Longrightarrow>
     masked_at ver ecl i qr x y = (grid_at (modules qr) x y \<noteq> (\<not> is_fn ver x y \<and> inverts i x y))"
  unfolding masked_at_def by (intro colour_uncovered) (simp only: covered_format_any[of _ "format_bits ecl i"] not_False_eq_True)

lemma unmask:
  assumes "marked ver ecl qr" "1 \<le> ver" "0 \<le> i" "i \<le> 7" "masked i qr = Inr r"
  shows "\<exists>q. applyMask i r = Inr q \<and> same_data ver ecl q qr \<and> qr_mask q = qr_mask r"
proof -
  have r: "marked ver ecl r"
    "\<forall>x y. in_sq (ver * 4 + 17) x y \<longrightarrow> grid_at (modules r) x y = masked_at ver ecl i qr x y"
    using masked_effect[OF assms(1-4)] assms(5) by auto
  obtain g where g: "applyMask i r = Inr (recoloured r g)" "wf_grid (nat (ver * 4 + 17)) g"
    "\<forall>x y. in_sq (ver * 4 + 17) x y \<longrightarrow>
       grid_at g x y = (grid_at (modules r) x y \<noteq> (\<not> is_fn ver x y \<and> inverts i x y))"
    using applyMask_effect[OF r(1) assms(3,4)] by blast
  have "same_data ver ecl (recoloured r g) qr"
    using marked_recoloured[OF r(1) g(2)] assms(1) g(3) r(2)
    by (auto simp: same_data_def recoloured_def masked_at_uncovered)
  then show ?thesis using g(1) by (simp add: recoloured_def)
qed

lemma same_data_refl: "marked ver ecl qr \<Longrightarrow> same_data ver ecl qr qr"
  by (simp add: same_data_def)

lemma same_data_trans: "same_data ver ecl a b \<Longrightarrow> same_data ver ecl b c \<Longrightarrow> same_data ver ecl a c"
  by (auto simp: same_data_def)

lemma masked_same:
  assumes "same_data ver ecl a b" "1 \<le> ver" "0 \<le> i" "i \<le> 7" "masked i a = Inr r" "masked i b = Inr s"
  shows "modules r = modules s" "qr_mask a = qr_mask b \<Longrightarrow> r = s"
proof -
  have m: "marked ver ecl a" "marked ver ecl b" using assms(1) by (simp_all add: same_data_def)
  have r: "marked ver ecl r" "qr_mask r = qr_mask a"
      "\<And>x y. in_sq (ver * 4 + 17) x y \<Longrightarrow> grid_at (modules r) x y = masked_at ver ecl i a x y"
    using masked_effect[OF m(1) assms(2-4)] assms(5) by auto
  have s: "marked ver ecl s" "qr_mask s = qr_mask b"
      "\<And>x y. in_sq (ver * 4 + 17) x y \<Longrightarrow> grid_at (modules s) x y = masked_at ver ecl i b x y"
    using masked_effect[OF m(2) assms(2-4)] assms(6) by auto
  have e: "grid_at (modules r) x y = grid_at (modules s) x y" if "in_sq (ver * 4 + 17) x y" for x y
    using r(3)[OF that] s(3)[OF that] masked_at_same[OF assms(1) that] by simp
  show "modules r = modules s" by (rule marked_eqI(1)[OF r(1) s(1) assms(2) e])
  show "r = s" if "qr_mask a = qr_mask b"
    by (rule marked_eqI(2)[OF r(1) s(1) assms(2) e]) (simp_all only: r(2) s(2) that)
qed

section \<open>The constructor\<close>

lemma marked_mask [simp]: "marked ver ecl (qr\<lparr>qr_mask := m\<rparr>) \<longleftrightarrow> marked ver ecl qr"
  by (simp add: marked_def wf_qr_def)

lemma same_data_mask: "same_data ver ecl a b \<Longrightarrow> same_data ver ecl (a\<lparr>qr_mask := m\<rparr>) (b\<lparr>qr_mask := n\<rparr>)"
  by (simp add: same_data_def)

lemma getPenaltyScore_cong:
  "modules a = modules b \<Longrightarrow> qr_size a = qr_size b \<Longrightarrow> getPenaltyScore a = getPenaltyScore b"
  by (simp add: getPenaltyScore_def)

text \<open>The score of a symbol under a mask; every symbol the constructor builds has one.\<close>

definition score :: "qrcode \<Rightarrow> int" where
  "score qr = (case getPenaltyScore qr of Inr s \<Rightarrow> s | Inl _ \<Rightarrow> 0)"

lemma score_marked:
  assumes "marked ver ecl qr" "1 \<le> ver" "ver \<le> 40"
  shows "getPenaltyScore qr = Inr (score qr)" "0 \<le> score qr" "score qr < 1000000000"
proof -
  let ?n = "nat (ver * 4 + 17)"
  have "?n = 2 * (nat (ver * 2 + 8)) + 1" "?n \<le> 177" using assms(2,3) by simp_all
  then have "odd ?n" "?n \<le> 177" by simp_all
  from getPenaltyScore_ok[OF marked_wf[OF assms(1)] this]
  show "getPenaltyScore qr = Inr (score qr)" "0 \<le> score qr" "score qr < 1000000000"
    by (auto simp: score_def)
qed

definition masked_score :: "int \<Rightarrow> qrcode \<Rightarrow> int" where
  "masked_score i qr = (case masked i qr of Inr r \<Rightarrow> score r | Inl _ \<Rightarrow> 0)"

lemma masked_score_same:
  assumes "same_data ver ecl a b" "1 \<le> ver" "ver \<le> 40" "0 \<le> i" "i \<le> 7"
  shows "masked_score i a = masked_score i b"
proof -
  have m: "marked ver ecl a" "marked ver ecl b" using assms(1) by (simp_all add: same_data_def)
  obtain r s where r: "masked i a = Inr r" "marked ver ecl r" and s: "masked i b = Inr s" "marked ver ecl s"
    using masked_effect[OF m(1) assms(2,4,5)] masked_effect[OF m(2) assms(2,4,5)] by blast
  have "qr_size r = qr_size s" using r(2) s(2) by (simp add: marked_def)
  then have "score r = score s"
    using getPenaltyScore_cong[OF masked_same(1)[OF assms(1,2,4,5) r(1) s(1)]] by (simp add: score_def)
  then show ?thesis by (simp add: masked_score_def r(1) s(1))
qed

lemma mask_round_step:
  assumes "same_data ver ecl q q0" "1 \<le> ver" "ver \<le> 40" "0 \<le> i" "i \<le> 7"
  shows "\<exists>q'. mask_round i (k, mp, q)
      = Inr (if masked_score i q0 < mp then (i, masked_score i q0, q') else (k, mp, q')) \<and>
    same_data ver ecl q' q0 \<and> qr_mask q' = qr_mask q"
proof -
  have m: "marked ver ecl q" using assms(1) by (simp add: same_data_def)
  obtain r where r: "masked i q = Inr r" "marked ver ecl r" "qr_mask r = qr_mask q"
    using masked_effect[OF m assms(2,4,5)] by blast
  obtain q' where q': "applyMask i r = Inr q'" "same_data ver ecl q' q" "qr_mask q' = qr_mask r"
    using unmask[OF m assms(2,4,5) r(1)] by blast
  have sc: "getPenaltyScore r = Inr (masked_score i q0)"
    using score_marked(1)[OF r(2) assms(2,3)] masked_score_same[OF assms] r(1) by (simp add: masked_score_def)
  obtain g where g: "applyMask i q = Inr g" "drawFormatBits i g = Inr r"
    using r(1) by (auto simp: bindE_Inr_iff)
  have "mask_round i (k, mp, q)
      = Inr (if masked_score i q0 < mp then (i, masked_score i q0, q') else (k, mp, q'))"
    by (simp add: mask_round_def g sc q'(1))
  then show ?thesis using same_data_trans[OF q'(2) assms(1)] q'(3) r(3) by auto
qed

definition best_so_far :: "nat \<Rightarrow> (int \<Rightarrow> int) \<Rightarrow> int \<Rightarrow> int \<Rightarrow> bool" where
  "best_so_far n f k mp \<longleftrightarrow>
     (if n = 0 then mp = 1000000000
      else 0 \<le> k \<and> k < int n \<and> mp = f k \<and> (\<forall>m. 0 \<le> m \<and> m < int n \<longrightarrow> f k \<le> f m \<and> (m < k \<longrightarrow> f k < f m)))"

lemma best_so_far_step:
  assumes "best_so_far n f k mp" "f (int n) < 1000000000"
  shows "if f (int n) < mp then best_so_far (Suc n) f (int n) (f (int n)) else best_so_far (Suc n) f k mp"
proof -
  have m: "m < int (Suc n) \<longleftrightarrow> m < int n \<or> m = int n" for m by auto
  show ?thesis using assms unfolding best_so_far_def m by (auto split: if_splits)
qed

lemma choose_mask_auto:
  assumes "marked ver ecl q0" "1 \<le> ver" "ver \<le> 40"
  shows "\<exists>k q. choose_mask (-1) q0 = Inr (k, q) \<and> same_data ver ecl q q0 \<and> qr_mask q = qr_mask q0 \<and>
    best_so_far 8 (\<lambda>i. masked_score i q0) k (masked_score k q0)"
proof -
  let ?P = "\<lambda>n st. case st of (k, mp, q) \<Rightarrow> same_data ver ecl q q0 \<and> qr_mask q = qr_mask q0 \<and>
    best_so_far n (\<lambda>i. masked_score i q0) k mp"
  have eight: "[0..7] = map int [0..<8]" by (simp add: upt_rec upto_rec1)
  have "\<exists>st'. foldE (\<lambda>n. mask_round (int n)) [0..<8] (-1, 1000000000, q0) = Inr st' \<and> ?P 8 st'"
  proof (rule foldE_upt_invariant[where P = ?P])
    show "?P 0 (-1, 1000000000, q0)" using same_data_refl[OF assms(1)] by (simp add: best_so_far_def)
  next
    fix n :: nat and st assume n: "n < 8" and P: "?P n st"
    obtain k mp q where st: "st = (k, mp, q)" by (cases st)
    have sd: "same_data ver ecl q q0" "qr_mask q = qr_mask q0" "best_so_far n (\<lambda>i. masked_score i q0) k mp"
      using P by (simp_all add: st)
    have i: "0 \<le> int n" "int n \<le> 7" using n by simp_all
    obtain r where "masked (int n) q0 = Inr r" "marked ver ecl r"
      using masked_effect[OF assms(1,2) i] by blast
    then have "masked_score (int n) q0 < 1000000000"
      using score_marked(3)[OF _ assms(2,3)] by (simp add: masked_score_def)
    then show "\<exists>st'. mask_round (int n) st = Inr st' \<and> ?P (Suc n) st'"
      using mask_round_step[OF sd(1) assms(2,3) i, of k mp] best_so_far_step[OF sd(3)] sd(2)
      unfolding st by (auto split: if_splits)
  qed simp
  then obtain k mp q where "foldE mask_round [0..7] (-1, 1000000000, q0) = Inr (k, mp, q)"
    "same_data ver ecl q q0" "qr_mask q = qr_mask q0" "best_so_far 8 (\<lambda>i. masked_score i q0) k mp"
    unfolding eight foldE_map by auto
  moreover from this(4) have "mp = masked_score k q0" by (simp add: best_so_far_def)
  ultimately show ?thesis by (auto simp: choose_mask_def)
qed

text \<open>The symbol before masking, which depends on neither the mask nor the search.\<close>

definition codewords_ok :: "int \<Rightarrow> ecc \<Rightarrow> int list \<Rightarrow> bool" where
  "codewords_ok ver ecl dc \<longleftrightarrow>
     1 \<le> ver \<and> ver \<le> 40 \<and> list_all is_byte dc \<and> getNumDataCodewords ver ecl = Inr (int (length dc))"

definition unmasked :: "int \<Rightarrow> ecc \<Rightarrow> int list \<Rightarrow> qrcode js" where
  "unmasked ver ecl dc =
     bindE (drawFunctionPatterns (blank ver ecl)) (\<lambda>qr.
     bindE (addEccAndInterleave ver ecl dc) (\<lambda>cw. drawCodewords cw qr))"

lemma new_QrCode_unmasked:
  assumes "1 \<le> ver" "ver \<le> 40" "-1 \<le> msk" "msk \<le> 7"
  shows "new_QrCode ver ecl dc msk =
    bindE (unmasked ver ecl dc) (\<lambda>qr.
    bindE (choose_mask msk qr) (\<lambda>(msk, qr).
    bindE (assertE (0 \<le> msk \<and> msk \<le> 7)) (\<lambda>_.
    bindE (masked msk (qr\<lparr>qr_mask := Some msk\<rparr>)) (\<lambda>qr. Inr (qr\<lparr>isFunction := []\<rparr>)))))"
  using assms by (simp add: new_QrCode_def unmasked_def MIN_VERSION_def MAX_VERSION_def bindE_assoc split_def)

lemma unmasked_ok:
  assumes "codewords_ok ver ecl dc"
  shows "\<exists>q0 cw. unmasked ver ecl dc = Inr q0 \<and> marked ver ecl q0 \<and> qr_mask q0 = None \<and>
    addEccAndInterleave ver ecl dc = Inr cw \<and> int (length cw) = raw_codewords ver \<and>
    list_all is_byte cw \<and> read_bits ver (8 * length cw) (modules q0) = bytes_bits cw \<and>
    concat (map fst (deinterleave ver ecl cw)) = dc"
proof -
  have v: "1 \<le> ver" "ver \<le> 40" using assms by (simp_all add: codewords_ok_def)
  obtain cw where cw: "addEccAndInterleave ver ecl dc = Inr cw" "int (length cw) = raw_codewords ver"
    "list_all is_byte cw" "concat (map fst (deinterleave ver ecl cw)) = dc"
    using addEcc_recovers[of ver dc ecl] assms by (auto simp: codewords_ok_def raw_codewords_def)
  obtain qf where qf: "drawFunctionPatterns (blank ver ecl) = Inr qf" "marked ver ecl qf" "qr_mask qf = None"
    using drawFunctionPatterns_effect[OF v] by blast
  have bytes: "bytes_ok cw"
    using cw(2,3) raw_modules_bounds[OF v] by (auto simp: raw_codewords_def bytes_ok_def list_all_iff is_byte_def)
  have len: "int (length cw) = raw_modules ver div 8" using cw(2) by (simp add: raw_codewords_def)
  obtain g where g: "drawCodewords cw qf = Inr (recoloured qf g)" "wf_grid (nat (ver * 4 + 17)) g"
    "\<forall>x y. in_sq (ver * 4 + 17) x y \<longrightarrow> grid_at g x y =
       (case map_of (zip (data_cells ver) (data_bits cw)) (x, y) of Some b \<Rightarrow> b | None \<Rightarrow> grid_at (modules qf) x y)"
    using drawCodewords_effect[OF v qf(2) bytes len] by blast
  have "8 * length cw \<le> length (data_cells ver)"
    using data_cells_facts(3)[OF v] len by linarith
  then have "read_bits ver (8 * length cw) g = bytes_bits cw"
    by (rule drawn_codewords_read[OF v _ g(3)])
  then show ?thesis
    using cw qf(1,3) g(1) marked_recoloured[OF qf(2) g(2)] by (auto simp: unmasked_def recoloured_def)
qed

text \<open>
  The constructor on codewords of the right length: it succeeds, and what it returns is the
  unmasked symbol under the mask asked for, or under the best one.
\<close>

lemma new_QrCode_result:
  assumes "codewords_ok ver ecl dc" "-1 \<le> msk" "msk \<le> 7" "unmasked ver ecl dc = Inr q0"
    "marked ver ecl q0" "qr_mask q0 = None"
  shows "\<exists>k r. 0 \<le> k \<and> k \<le> 7 \<and> (if msk = -1 then best_so_far 8 (\<lambda>i. masked_score i q0) k (masked_score k q0) else k = msk) \<and>
    masked k (q0\<lparr>qr_mask := Some k\<rparr>) = Inr r \<and> new_QrCode ver ecl dc msk = Inr (r\<lparr>isFunction := []\<rparr>)"
proof -
  have v: "1 \<le> ver" "ver \<le> 40" using assms(1) by (simp_all add: codewords_ok_def)
  note eq = new_QrCode_unmasked[OF v assms(2,3), of ecl dc, unfolded assms(4) bindE.simps]
  have final: "\<exists>r. masked k (q0\<lparr>qr_mask := Some k\<rparr>) = Inr r \<and> masked k (q\<lparr>qr_mask := Some k\<rparr>) = Inr r"
    if same: "same_data ver ecl q q0" and k: "0 \<le> k" "k \<le> 7" for k q
  proof -
    have sd: "same_data ver ecl (q\<lparr>qr_mask := Some k\<rparr>) (q0\<lparr>qr_mask := Some k\<rparr>)" by (rule same_data_mask[OF same])
    then have m: "marked ver ecl (q\<lparr>qr_mask := Some k\<rparr>)" "marked ver ecl (q0\<lparr>qr_mask := Some k\<rparr>)"
      by (simp_all only: same_data_def)
    obtain r s where r: "masked k (q\<lparr>qr_mask := Some k\<rparr>) = Inr r" "masked k (q0\<lparr>qr_mask := Some k\<rparr>) = Inr s"
      using masked_effect[OF m(1) v(1) k] masked_effect[OF m(2) v(1) k] by blast
    have "r = s" by (rule masked_same(2)[OF sd v(1) k r]) simp
    then show ?thesis using r by blast
  qed
  show ?thesis
  proof (cases "msk = -1")
    case True
    obtain k q where k: "choose_mask (-1) q0 = Inr (k, q)" "same_data ver ecl q q0"
      "best_so_far 8 (\<lambda>i. masked_score i q0) k (masked_score k q0)"
      using choose_mask_auto[OF assms(5) v] by blast
    have k7: "0 \<le> k" "k \<le> 7" using k(3) by (simp_all add: best_so_far_def)
    obtain r where r: "masked k (q0\<lparr>qr_mask := Some k\<rparr>) = Inr r" "masked k (q\<lparr>qr_mask := Some k\<rparr>) = Inr r"
      using final[OF k(2) k7] by blast
    have "new_QrCode ver ecl dc msk = Inr (r\<lparr>isFunction := []\<rparr>)"
      unfolding True eq[unfolded True] k(1) bindE.simps prod.case r(2) using k7 by simp
    then show ?thesis using True k7 k(3) r(1) by auto
  next
    case False
    then have m: "0 \<le> msk" "msk \<le> 7" using assms(2,3) by simp_all
    obtain r where r: "masked msk (q0\<lparr>qr_mask := Some msk\<rparr>) = Inr r"
      using final[OF same_data_refl[OF assms(5)] m] by blast
    have "choose_mask msk q0 = Inr (msk, q0)" using False by (simp add: choose_mask_def)
    then have "new_QrCode ver ecl dc msk = Inr (r\<lparr>isFunction := []\<rparr>)"
      unfolding eq using m r by simp
    then show ?thesis using False m r by auto
  qed
qed

lemma final_score:
  assumes "marked ver ecl q0" "1 \<le> ver" "ver \<le> 40" "0 \<le> k" "k \<le> 7" "masked k (q0\<lparr>qr_mask := Some k\<rparr>) = Inr r"
  shows "getPenaltyScore (r\<lparr>isFunction := []\<rparr>) = Inr (masked_score k q0)"
proof -
  have sd: "same_data ver ecl (q0\<lparr>qr_mask := Some k\<rparr>) q0" using assms(1) by (simp add: same_data_def)
  have "marked ver ecl r" using masked_effect[of ver ecl "q0\<lparr>qr_mask := Some k\<rparr>" k] assms by auto
  then have "getPenaltyScore r = Inr (masked_score k (q0\<lparr>qr_mask := Some k\<rparr>))"
    using score_marked(1)[OF _ assms(2,3)] by (simp add: masked_score_def assms(6))
  moreover have "getPenaltyScore (r\<lparr>isFunction := []\<rparr>) = getPenaltyScore r" by (rule getPenaltyScore_cong) simp_all
  ultimately show ?thesis using masked_score_same[OF sd assms(2-5)] by simp
qed

section \<open>Scanning a symbol\<close>

definition read_format :: "grid \<Rightarrow> (ecc \<times> int) option" where
  "read_format g =
     List.find (\<lambda>p. format_info p = map (\<lambda>(x, y). grid_at g x y) (fst (format_places (int (length g))))) infos"

definition read_data :: "int \<Rightarrow> int \<Rightarrow> nat \<Rightarrow> grid \<Rightarrow> bits" where
  "read_data ver m n g = map (\<lambda>(x, y). of_bool (grid_at g x y \<noteq> inverts m x y)) (take n (data_cells ver))"

definition codewords_of :: "nat \<Rightarrow> bits \<Rightarrow> int list" where
  "codewords_of n bs = map (\<lambda>i. bits_val (take 8 (drop (8 * i) bs))) [0..<n]"

definition read_symbol :: "grid \<Rightarrow> (int \<times> ecc \<times> int \<times> int list) option" where
  "read_symbol g =
     (let ver = (int (length g) - 17) div 4; n = nat (raw_codewords ver)
      in map_option (\<lambda>(ecl, m).
           (ver, ecl, m, concat (map fst (deinterleave ver ecl (codewords_of n (read_data ver m (8 * n) g))))))
         (read_format g))"

definition read_contents :: "grid \<Rightarrow> payload list option" where
  "read_contents g = Option.bind (read_symbol g) (\<lambda>(ver, ecl, m, dc). read_codewords ver dc)"

lemma find_unique:
  assumes "x \<in> set xs" "P x" "\<And>y. y \<in> set xs \<Longrightarrow> P y \<Longrightarrow> y = x"
  shows "List.find P xs = Some x"
proof (cases "List.find P xs")
  case None
  then show ?thesis using assms(1,2) by (simp add: find_None_iff)
next
  case (Some y)
  then have "y \<in> set xs" "P y" by (auto simp: find_Some_iff)
  then show ?thesis using assms(3) Some by simp
qed

lemma find_format_info:
  assumes "0 \<le> m" "m \<le> 7"
  shows "List.find (\<lambda>p. format_info p = format_info (ecl, m)) infos = Some (ecl, m)"
proof (rule find_unique[OF in_infos[OF assms] refl])
  fix p assume p: "p \<in> set infos" "format_info p = format_info (ecl, m)"
  have d: "distance xs xs = 0" for xs by (induction xs) simp_all
  show "p = (ecl, m)"
    using nearest_unique[OF format_distant p(1) in_infos[OF assms], of "format_info p" ecl] p(2) by (simp add: d)
qed

lemma codewords_of_bytes: "list_all is_byte cw \<Longrightarrow> codewords_of (length cw) (bytes_bits cw) = cw"
proof (rule nth_equalityI)
  assume b: "list_all is_byte cw"
  fix i assume "i < length (codewords_of (length cw) (bytes_bits cw))"
  then have i: "i < length cw" by (simp add: codewords_of_def)
  have "take 8 (drop (8 * i) (bytes_bits cw)) = bits_of 8 (cw ! i)"
  proof (rule nth_equalityI)
    show "length (take 8 (drop (8 * i) (bytes_bits cw))) = length (bits_of 8 (cw ! i))"
      using i by (simp add: length_bytes_bits_8)
    show "take 8 (drop (8 * i) (bytes_bits cw)) ! j = bits_of 8 (cw ! i) ! j"
      if "j < length (take 8 (drop (8 * i) (bytes_bits cw)))" for j
      using that nth_bytes_bits[OF i, of j] i by (simp add: length_bytes_bits_8)
  qed
  moreover have "0 \<le> cw ! i \<and> cw ! i < 2 ^ 8" using b i by (simp add: list_all_length is_byte_def)
  ultimately show "codewords_of (length cw) (bytes_bits cw) ! i = cw ! i"
    using i by (simp add: codewords_of_def bits_val_bits_of_id)
qed (simp add: codewords_of_def)

lemma read_data_masked:
  assumes "1 \<le> ver" "ver \<le> 40"
    "\<forall>x y. in_sq (ver * 4 + 17) x y \<longrightarrow> grid_at g x y = masked_at ver ecl m q x y"
  shows "read_data ver m n g = read_bits ver n (modules q)"
proof -
  have "grid_at g x y \<noteq> inverts m x y \<longleftrightarrow> grid_at (modules q) x y" if "(x, y) \<in> set (take n (data_cells ver))" for x y
  proof -
    have f: "in_sq (ver * 4 + 17) x y" "\<not> is_fn ver x y"
      using set_take_subset[of n "data_cells ver"] that data_cells_facts(2)[OF assms(1,2)]
      by (auto simp: free_modules_def)
    then have "\<not> covered (format_cells (ver * 4 + 17) 0) x y" using format_is_fn[OF assms(1)] by blast
    then show ?thesis using assms(3) f masked_at_uncovered by blast
  qed
  then show ?thesis unfolding read_data_def read_bits_def by (intro map_cong refl) auto
qed

lemma read_symbol_masked:
  assumes "codewords_ok ver ecl dc" "unmasked ver ecl dc = Inr q0" "0 \<le> k" "k \<le> 7"
    "masked k (q0\<lparr>qr_mask := Some k\<rparr>) = Inr r"
  shows "read_symbol (modules r) = Some (ver, ecl, k, dc) \<and> qr_mask r = Some k"
proof -
  have v: "1 \<le> ver" "ver \<le> 40" using assms(1) by (simp_all add: codewords_ok_def)
  let ?sz = "ver * 4 + 17"
  obtain cw where q0: "marked ver ecl q0" and cw: "int (length cw) = raw_codewords ver" "list_all is_byte cw"
    "read_bits ver (8 * length cw) (modules q0) = bytes_bits cw" "concat (map fst (deinterleave ver ecl cw)) = dc"
    using unmasked_ok[OF assms(1)] assms(2) by auto
  have r: "marked ver ecl r" "qr_mask r = Some k"
    "\<forall>x y. in_sq ?sz x y \<longrightarrow> grid_at (modules r) x y = masked_at ver ecl k (q0\<lparr>qr_mask := Some k\<rparr>) x y"
    using masked_effect[of ver ecl "q0\<lparr>qr_mask := Some k\<rparr>" k] q0 v(1) assms(3-5) by auto
  have len: "int (length (modules r)) = ?sz" using r(1) v(1) by (simp add: marked_def wf_qr_def wf_grid_def)
  have "map (\<lambda>(x, y). grid_at (modules r) x y) (fst (format_places ?sz)) = format_info (ecl, k)"
    using v(1) by (intro format_cells_read(1)[OF _ r(3)[unfolded masked_at_def]]) simp
  then have fmt: "read_format (modules r) = Some (ecl, k)"
    using find_format_info[OF assms(3,4), of ecl] by (simp add: read_format_def len)
  have n: "nat (raw_codewords ver) = length cw" using cw(1) by simp
  have "read_data ver k (8 * length cw) (modules r) = bytes_bits cw"
    using read_data_masked[OF v r(3), of "8 * length cw"] cw(3) by simp
  then have "read_symbol (modules r) = Some (ver, ecl, k, dc)"
    using codewords_of_bytes[OF cw(2)] cw(4) by (simp add: read_symbol_def len fmt n)
  then show ?thesis using r(2) by simp
qed

text \<open>What the fields of a finished symbol say.\<close>

definition finished :: "int \<Rightarrow> ecc \<Rightarrow> int \<Rightarrow> qrcode \<Rightarrow> bool" where
  "finished ver ecl m qr \<longleftrightarrow>
     qr_version qr = ver \<and> qr_ecl qr = ecl \<and> qr_size qr = ver * 4 + 17 \<and> qr_mask qr = Some m \<and>
     0 \<le> m \<and> m \<le> 7 \<and> wf_grid (nat (ver * 4 + 17)) (modules qr)"

lemma new_QrCode_reads:
  assumes "codewords_ok ver ecl dc" "-1 \<le> msk" "msk \<le> 7"
  shows "\<exists>qr m. new_QrCode ver ecl dc msk = Inr qr \<and> finished ver ecl m qr \<and> (msk = -1 \<or> m = msk) \<and>
    read_symbol (modules qr) = Some (ver, ecl, m, dc)"
proof -
  obtain q0 where q0: "unmasked ver ecl dc = Inr q0" "marked ver ecl q0" "qr_mask q0 = None"
    using unmasked_ok[OF assms(1)] by blast
  obtain k r where k: "0 \<le> k" "k \<le> 7" "msk = -1 \<or> k = msk" "masked k (q0\<lparr>qr_mask := Some k\<rparr>) = Inr r"
    "new_QrCode ver ecl dc msk = Inr (r\<lparr>isFunction := []\<rparr>)"
    using new_QrCode_result[OF assms q0] by (auto split: if_splits)
  have "marked ver ecl r"
    using masked_effect[of ver ecl "q0\<lparr>qr_mask := Some k\<rparr>" k] q0(2) k(1,2,4) assms(1) by (auto simp: codewords_ok_def)
  then have "finished ver ecl k (r\<lparr>isFunction := []\<rparr>)"
    using read_symbol_masked[OF assms(1) q0(1) k(1,2,4)] k(1,2) by (simp add: finished_def marked_def wf_qr_def)
  then show ?thesis using read_symbol_masked[OF assms(1) q0(1) k(1,2,4)] k(3,5) by auto
qed

section \<open>The factory functions\<close>

definition too_long :: "segment list \<Rightarrow> int \<Rightarrow> int \<Rightarrow> ecc \<Rightarrow> bool" where
  "too_long segs minV maxV ecl \<longleftrightarrow> (\<forall>v \<in> {minV..maxV}. \<not> fits segs v ecl)"

lemma byte_valid_is_byte: "list_all byte_valid dc \<longleftrightarrow> list_all is_byte dc"
  by (auto simp: list_all_iff byte_valid_def is_byte_def)

lemma encodeSegments_spec:
  assumes "args_ok minV maxV msk" "\<forall>seg \<in> set segs. seg_ok seg"
  shows "case encodeSegments segs ecl minV maxV msk boostEcl of
      Inl e \<Rightarrow> e = RangeError ''Data too long'' \<and> too_long segs minV maxV ecl
    | Inr qr \<Rightarrow> \<not> too_long segs minV maxV ecl \<and> (\<exists>v l m dc. finished v l m qr \<and> (msk = -1 \<or> m = msk) \<and>
        encode_data segs ecl minV maxV msk boostEcl = Inr (v, l, dc) \<and>
        read_symbol (modules qr) = Some (v, l, m, dc))"
proof (cases "encode_data segs ecl minV maxV msk boostEcl")
  case (Inl e)
  then show ?thesis
    using encode_data_spec[OF assms, of ecl boostEcl] by (auto simp: encodeSegments_def too_long_def)
next
  case (Inr x)
  obtain v l dc where x: "x = (v, l, dc)" by (cases x)
  note spec = encode_data_spec[OF assms, of ecl boostEcl, unfolded Inr x sum.case prod.case]
  have args: "1 \<le> minV" "maxV \<le> 40" "-1 \<le> msk" "msk \<le> 7" using assms(1) by (auto simp: args_ok_def)
  have v: "minV \<le> v" "v \<le> maxV" "fits segs v ecl" using spec by blast+
  have "codewords_ok v l dc" using spec args v by (simp add: codewords_ok_def byte_valid_is_byte)
  from new_QrCode_reads[OF this args(3,4)] obtain qr m where qr: "new_QrCode v l dc msk = Inr qr" "finished v l m qr"
    "msk = -1 \<or> m = msk" "read_symbol (modules qr) = Some (v, l, m, dc)" by blast
  have "\<not> too_long segs minV maxV ecl" using v by (auto simp: too_long_def)
  then show ?thesis using qr by (auto simp: encodeSegments_def Inr x)
qed

lemma encodeSegments_reads:
  assumes "args_ok minV maxV msk" "list_all payload_ok ps"
  shows "case encodeSegments (map payload_segment ps) ecl minV maxV msk boostEcl of
      Inl e \<Rightarrow> e = RangeError ''Data too long'' \<and> too_long (map payload_segment ps) minV maxV ecl
    | Inr qr \<Rightarrow> \<not> too_long (map payload_segment ps) minV maxV ecl \<and> read_contents (modules qr) = Some ps"
proof -
  have ok: "\<forall>seg \<in> set (map payload_segment ps). seg_ok seg" using assms(2) by (auto simp: list_all_iff)
  show ?thesis
    using encodeSegments_spec[OF assms(1) ok, of ecl boostEcl] encode_data_reads[OF assms]
    by (auto simp: read_contents_def split: sum.splits)
qed

text \<open>The text of the contents read from a symbol.\<close>

fun payload_text :: "payload \<Rightarrow> jstr option" where
  "payload_text (Digits s) = Some s"
| "payload_text (Alnum s) = Some s"
| "payload_text (Bytes bs) = text_of_utf8 bs"
| "payload_text (EciValue v) = None"

fun contents_text :: "payload list \<Rightarrow> jstr option" where
  "contents_text [] = Some []"
| "contents_text (p # ps) = Option.bind (payload_text p) (\<lambda>a. map_option ((@) a) (contents_text ps))"

lemma makeSegments_payloads:
  assumes "makeSegments s = Inr segs"
  shows "\<exists>ps. segs = map payload_segment ps \<and> list_all payload_ok ps \<and> contents_text ps = Some s"
proof -
  consider "s = []" "segs = []" | "isNumeric s" "segs = [numeric_segment s]" | "isAlphanumeric s" "segs = [alnum_segment s]"
    | cps where "code_points s = Some cps" "segs = [byte_segment (concat (map utf8 cps))]"
    using assms by (auto simp: makeSegments_eq split: if_splits option.splits)
  then show ?thesis
  proof cases
    case 1
    then show ?thesis by (intro exI[of _ "[]"]) simp
  next
    case 2
    then show ?thesis by (intro exI[of _ "[Digits s]"]) simp
  next
    case 3
    then show ?thesis by (intro exI[of _ "[Alnum s]"]) simp
  next
    case (4 cps)
    have "text_of_utf8 (concat (map utf8 cps)) = Some s"
      using utf8_decode_concat[of cps] code_points_bounds[OF 4(1)] units_of_code_points[OF 4(1)]
      by (auto simp: text_of_utf8_def)
    then show ?thesis using 4 utf8_concat_valid[OF 4(1)]
      by (intro exI[of _ "[Bytes (concat (map utf8 cps))]"]) simp
  qed
qed

lemma encodeText_spec:
  "case encodeText txt ecl of
     Inl e \<Rightarrow> e = URIError \<and> code_points txt = None \<or>
       e = RangeError ''Data too long'' \<and> (\<exists>segs. makeSegments txt = Inr segs \<and> too_long segs 1 40 ecl)
   | Inr qr \<Rightarrow> (\<exists>segs. makeSegments txt = Inr segs \<and> \<not> too_long segs 1 40 ecl) \<and>
       Option.bind (read_contents (modules qr)) contents_text = Some txt"
proof (cases "makeSegments txt")
  case (Inl e)
  then have "e = URIError \<and> code_points txt = None"
    by (auto simp: makeSegments_eq split: if_splits option.splits)
  then show ?thesis by (simp add: encodeText_def Inl)
next
  case (Inr segs)
  obtain ps where ps: "segs = map payload_segment ps" "list_all payload_ok ps" "contents_text ps = Some txt"
    using makeSegments_payloads[OF Inr] by blast
  have "args_ok 1 40 (-1)" by (simp add: args_ok_def)
  from encodeSegments_reads[OF this ps(2), of ecl True] show ?thesis
    using ps(1,3) by (auto simp: encodeText_def Inr split: sum.splits)
qed

lemma encodeText_error:
  assumes "encodeText txt ecl = Inl e"
  shows "makeSegments txt = Inl e \<or> (\<exists>segs. makeSegments txt = Inr segs \<and> too_long segs 1 40 ecl)"
proof (cases "makeSegments txt")
  case (Inl e')
  then show ?thesis using assms by (simp add: encodeText_def)
next
  case (Inr segs)
  obtain ps where ps: "segs = map payload_segment ps" "list_all payload_ok ps"
    using makeSegments_payloads[OF Inr] by blast
  have "args_ok 1 40 (-1)" by (simp add: args_ok_def)
  from encodeSegments_reads[OF this ps(2), of ecl True] show ?thesis
    using assms ps(1) by (auto simp: encodeText_def Inr)
qed

lemma encodeText_finished:
  assumes "encodeText txt ecl = Inr qr"
  shows "\<exists>v l m. finished v l m qr \<and> 1 \<le> v"
proof -
  obtain segs where segs: "makeSegments txt = Inr segs" "encodeSegments segs ecl 1 40 (-1) True = Inr qr"
    using assms by (auto simp: encodeText_def bindE_Inr_iff)
  obtain ps where ps: "segs = map payload_segment ps" "list_all payload_ok ps"
    using makeSegments_payloads[OF segs(1)] by blast
  have ok: "args_ok 1 40 (-1)" "\<forall>seg \<in> set segs. seg_ok seg" using ps by (auto simp: args_ok_def list_all_iff)
  obtain v l m dc where "finished v l m qr" "encode_data segs ecl 1 40 (-1) True = Inr (v, l, dc)"
    using encodeSegments_spec[OF ok, of ecl True] segs(2) by auto
  then show ?thesis using encode_data_spec[OF ok, of ecl True] by auto
qed

section \<open>How much fits\<close>

lemma count_bits_bounds:
  "10 \<le> v \<Longrightarrow> v \<le> 40 \<Longrightarrow> numCharCountBits BYTE v = 16" "1 \<le> v \<Longrightarrow> v < 10 \<Longrightarrow> numCharCountBits BYTE v = 8"
  "numCharCountBits NUMERIC 40 = 14" "numCharCountBits ALPHANUMERIC 40 = 13" "numCharCountBits BYTE 40 = 16"
proof -
  have "nat ((v + 7) div 17) \<in> {1, 2}" if "10 \<le> v" "v \<le> 40"
  proof -
    have "1 \<le> (v + 7) div 17" "(v + 7) div 17 \<le> 2" using that by simp_all
    then show ?thesis by auto
  qed
  then show "10 \<le> v \<Longrightarrow> v \<le> 40 \<Longrightarrow> numCharCountBits BYTE v = 16" by (auto simp: numCharCountBits_def)
qed (auto simp: numCharCountBits_def)

lemma data_codewords_40: "data_codewords 40 LOW = 2956"
  by code_simp

lemma fits_single:
  "fits [seg] v ecl \<longleftrightarrow> numChars seg < 2 ^ count_bits v seg \<and>
     int (4 + count_bits v seg + length (bitData seg)) \<le> data_codewords v ecl * 8"
  by (auto simp: fits_def stream_def seg_bits_def)

lemma bytes_too_long: "too_long [byte_segment bs] 1 40 LOW \<longleftrightarrow> 2953 < length bs"
proof
  have "int (length bs) < 2 ^ 16 \<and> int (4 + 16 + 8 * length bs) \<le> 2956 * 8" if "length bs \<le> 2953"
    using that by simp
  then have "fits [byte_segment bs] 40 LOW" if "length bs \<le> 2953"
    using that by (simp add: fits_single count_bits_bounds data_codewords_40 length_bytes_bits_8)
  then show "2953 < length bs" if "too_long [byte_segment bs] 1 40 LOW"
    using that by (force simp: too_long_def)
next
  assume long: "2953 < length bs"
  have "\<not> fits [byte_segment bs] v LOW" if v: "1 \<le> v" "v \<le> 40" for v
  proof (cases "v < 10")
    case True
    then show ?thesis using long v by (simp add: fits_single count_bits_bounds)
  next
    case False
    then show ?thesis using long v data_codewords_mono[of v 40 LOW]
      by (simp add: fits_single count_bits_bounds length_bytes_bits_8 data_codewords_40)
  qed
  then show "too_long [byte_segment bs] 1 40 LOW" by (simp add: too_long_def)
qed

lemma length_utf8_le: "length (utf8 cp) \<le> 4"
  by (simp add: utf8_def)

lemma length_utf8_concat: "length (concat (map utf8 cps)) \<le> 4 * length cps"
proof (induction cps)
  case (Cons cp cps)
  then show ?case using length_utf8_le[of cp] by simp
qed simp

lemma short_text_fits:
  assumes "code_points txt = Some cps" "length cps \<le> 738" "makeSegments txt = Inr segs"
  shows "fits segs 40 LOW"
proof -
  let ?bs = "concat (map utf8 cps)"
  have bs: "length ?bs \<le> 2952" using length_utf8_concat[of cps] assms(2) by simp
  then have len: "length txt \<le> 2952" using length_code_points[OF assms(1)] by simp
  consider "segs = []" | "segs = [numeric_segment txt]" | "segs = [alnum_segment txt]" | "segs = [byte_segment ?bs]"
    using assms(1,3) by (auto simp: makeSegments_eq split: if_splits)
  then show ?thesis
  proof cases
    case 1
    then show ?thesis by (simp add: fits_def data_codewords_40)
  next
    case 2
    then show ?thesis using len length_numeric_bits[of "txt"]
      by (simp add: fits_single count_bits_bounds data_codewords_40)
  next
    case 3
    then show ?thesis using len length_alnum_bits(2)[of "txt"]
      by (simp add: fits_single count_bits_bounds data_codewords_40)
  next
    case 4
    then show ?thesis using bs
      by (simp only: fits_single) (simp add: count_bits_bounds data_codewords_40 length_bytes_bits_8)
  qed
qed

lemma new_QrCode_outcomes:
  assumes "list_all is_byte dc"
  shows "case new_QrCode ver ecl dc msk of
      Inl e \<Rightarrow> (ver < 1 \<or> 40 < ver) \<and> e = RangeError ''Version value out of range''
        \<or> (1 \<le> ver \<and> ver \<le> 40 \<and> (msk < -1 \<or> 7 < msk)) \<and> e = RangeError ''Mask value out of range''
        \<or> (1 \<le> ver \<and> ver \<le> 40 \<and> -1 \<le> msk \<and> msk \<le> 7 \<and> int (length dc) \<noteq> data_codewords ver ecl)
           \<and> e = RangeError ''Invalid argument''
    | Inr qr \<Rightarrow> 1 \<le> ver \<and> ver \<le> 40 \<and> int (length dc) = data_codewords ver ecl \<and>
        (\<exists>m. finished ver ecl m qr \<and> (msk = -1 \<or> m = msk))"
proof -
  consider (v) "ver < 1 \<or> 40 < ver" | (m) "1 \<le> ver" "ver \<le> 40" "msk < -1 \<or> 7 < msk"
    | (n) "1 \<le> ver" "ver \<le> 40" "-1 \<le> msk" "msk \<le> 7" "int (length dc) \<noteq> data_codewords ver ecl"
    | (ok) "1 \<le> ver" "ver \<le> 40" "-1 \<le> msk" "msk \<le> 7" "int (length dc) = data_codewords ver ecl" by linarith
  then show ?thesis
  proof cases
    case v
    then show ?thesis by (simp add: new_QrCode_def MIN_VERSION_def MAX_VERSION_def)
  next
    case m
    then show ?thesis by (simp add: new_QrCode_def MIN_VERSION_def MAX_VERSION_def)
  next
    case n
    obtain qr where "drawFunctionPatterns (blank ver ecl) = Inr qr"
      using drawFunctionPatterns_effect[OF n(1,2)] by blast
    moreover have "addEccAndInterleave ver ecl dc = Inl (RangeError ''Invalid argument'')"
      using n by (simp add: addEccAndInterleave_def getNumDataCodewords_eq)
    ultimately show ?thesis using n
      by (simp add: new_QrCode_unmasked[OF n(1-4)] unmasked_def)
  next
    case ok
    then have "codewords_ok ver ecl dc" using assms by (simp add: codewords_ok_def getNumDataCodewords_eq)
    from new_QrCode_reads[OF this ok(3,4)] show ?thesis using ok by auto
  qed
qed

section \<open>Properties\<close>

text \<open>
  C1: A scanner recovers the text. \<^verbatim>\<open>encodeText\<close> throws only \<^verbatim>\<open>URIError\<close>, and only for text with an
  unpaired surrogate, or \<^verbatim>\<open>Data too long\<close>, and only when no version from 1 to 40 holds the segments
  of the text at the level asked for; no assertion of the generator fails. Otherwise reading the
  modules of the finished symbol (format information, mask, zigzag, blocks, bit stream) gives the text.
\<close>
theorem encodeText_scans:
  "case encodeText txt ecl of
     Inl e \<Rightarrow> e = URIError \<and> code_points txt = None \<or>
       e = RangeError ''Data too long'' \<and> (\<exists>segs. makeSegments txt = Inr segs \<and> too_long segs 1 40 ecl)
   | Inr qr \<Rightarrow> (\<exists>segs. makeSegments txt = Inr segs \<and> \<not> too_long segs 1 40 ecl) \<and>
       Option.bind (read_contents (modules qr)) contents_text = Some txt"
  by (rule encodeText_spec)

text \<open>
  C2: \<^verbatim>\<open>encodeSegments\<close> on any list of digit, alphanumeric, byte and ECI segments, with valid
  arguments: it throws only \<^verbatim>\<open>Data too long\<close>, exactly when no version of the range fits, and
  otherwise a scanner reads from the modules the contents of every segment, in order.
\<close>
theorem encodeSegments_scans:
  assumes "args_ok minV maxV msk" "list_all payload_ok ps"
  shows "case encodeSegments (map payload_segment ps) ecl minV maxV msk boostEcl of
      Inl e \<Rightarrow> e = RangeError ''Data too long'' \<and> too_long (map payload_segment ps) minV maxV ecl
    | Inr qr \<Rightarrow> \<not> too_long (map payload_segment ps) minV maxV ecl \<and> read_contents (modules qr) = Some ps"
  by (rule encodeSegments_reads[OF assms])

theorem encodeSegments_scans_witness:
  "\<exists>qr. encodeSegments [numeric_segment (lit ''2024''), byte_segment [0, 255]] MEDIUM 1 40 3 False = Inr qr \<and>
     read_contents (modules qr) = Some [Digits (lit ''2024''), Bytes [0, 255]]"
proof -
  let ?ps = "[Digits (lit ''2024''), Bytes [0, 255]]"
  have r: "args_ok 1 40 3" "list_all payload_ok ?ps" by code_simp+
  have "fits (map payload_segment ?ps) 1 MEDIUM" by code_simp
  then have "\<not> too_long (map payload_segment ?ps) 1 40 MEDIUM" by (force simp: too_long_def)
  with encodeSegments_scans[OF r, of MEDIUM False] show ?thesis by (auto split: sum.splits)
qed

text \<open>
  C3: With mask -1 the constructor returns the very symbol it returns for some fixed mask, and that mask
  has the least penalty of the eight, the first one when several have it.
\<close>
theorem automatic_mask_is_best:
  assumes "codewords_ok ver ecl dc"
  shows "\<exists>k qr s. 0 \<le> k \<and> k \<le> 7 \<and> new_QrCode ver ecl dc (-1) = Inr qr \<and> new_QrCode ver ecl dc k = Inr qr \<and>
    qr_mask qr = Some k \<and> getPenaltyScore qr = Inr s \<and>
    (\<forall>m. 0 \<le> m \<and> m \<le> 7 \<longrightarrow> (\<exists>qm sm. new_QrCode ver ecl dc m = Inr qm \<and> getPenaltyScore qm = Inr sm \<and>
       (if m < k then s < sm else s \<le> sm)))"
proof -
  have v: "1 \<le> ver" "ver \<le> 40" using assms by (simp_all add: codewords_ok_def)
  obtain q0 where q0: "unmasked ver ecl dc = Inr q0" "marked ver ecl q0" "qr_mask q0 = None"
    using unmasked_ok[OF assms] by blast
  have forced: "\<exists>r. new_QrCode ver ecl dc m = Inr (r\<lparr>isFunction := []\<rparr>) \<and> masked m (q0\<lparr>qr_mask := Some m\<rparr>) = Inr r \<and>
      qr_mask r = Some m \<and> getPenaltyScore (r\<lparr>isFunction := []\<rparr>) = Inr (masked_score m q0)" if m: "0 \<le> m" "m \<le> 7" for m
    using new_QrCode_result[OF assms _ m(2) q0] final_score[OF q0(2) v m] read_symbol_masked[OF assms q0(1) m] m
    by auto
  obtain k r where k: "0 \<le> k" "k \<le> 7" "best_so_far 8 (\<lambda>i. masked_score i q0) k (masked_score k q0)"
    "masked k (q0\<lparr>qr_mask := Some k\<rparr>) = Inr r" "new_QrCode ver ecl dc (-1) = Inr (r\<lparr>isFunction := []\<rparr>)"
    using new_QrCode_result[OF assms _ _ q0, of "-1"] by auto
  have best: "\<exists>qm sm. new_QrCode ver ecl dc m = Inr qm \<and> getPenaltyScore qm = Inr sm \<and>
      (if m < k then masked_score k q0 < sm else masked_score k q0 \<le> sm)" if m: "0 \<le> m" "m \<le> 7" for m
  proof -
    have "if m < k then masked_score k q0 < masked_score m q0 else masked_score k q0 \<le> masked_score m q0"
      using k(3) m by (simp add: best_so_far_def)
    then show ?thesis using forced[OF m] by blast
  qed
  show ?thesis
    using forced[OF k(1,2)] k(1,2,4,5) best 
    by (rule_tac x = k in exI, rule_tac x = "r\<lparr>isFunction := []\<rparr>" in exI, rule_tac x = "masked_score k q0" in exI) auto
qed

theorem automatic_mask_is_best_witness:
  "\<exists>k qr. new_QrCode 1 HIGH [1, 2, 3, 4, 5, 6, 7, 8, 9] (-1) = Inr qr \<and>
     new_QrCode 1 HIGH [1, 2, 3, 4, 5, 6, 7, 8, 9] k = Inr qr \<and> qr_mask qr = Some k"
proof -
  have "codewords_ok 1 HIGH [1, 2, 3, 4, 5, 6, 7, 8, 9]" by code_simp
  from automatic_mask_is_best[OF this] show ?thesis by blast
qed

text \<open>
  C11: The constructor's errors are exactly those it announces: a version outside 1 to 40, a mask
  outside -1 to 7, or a number of codewords that is not the capacity. On byte codewords of the
  right number it always succeeds, and the fields of the symbol are the arguments, with a square grid of
  side 17 + 4 * version and a mask from 0 to 7.
\<close>
theorem new_QrCode_total:
  assumes "list_all is_byte dc"
  shows "case new_QrCode ver ecl dc msk of
      Inl e \<Rightarrow> (ver < 1 \<or> 40 < ver) \<and> e = RangeError ''Version value out of range''
        \<or> (1 \<le> ver \<and> ver \<le> 40 \<and> (msk < -1 \<or> 7 < msk)) \<and> e = RangeError ''Mask value out of range''
        \<or> (1 \<le> ver \<and> ver \<le> 40 \<and> -1 \<le> msk \<and> msk \<le> 7 \<and> int (length dc) \<noteq> data_codewords ver ecl)
           \<and> e = RangeError ''Invalid argument''
    | Inr qr \<Rightarrow> 1 \<le> ver \<and> ver \<le> 40 \<and> int (length dc) = data_codewords ver ecl \<and>
        (\<exists>m. finished ver ecl m qr \<and> (msk = -1 \<or> m = msk))"
  by (rule new_QrCode_outcomes[OF assms])

theorem new_QrCode_total_witness:
  "new_QrCode 1 HIGH [1, 2, 3] 0 = Inl (RangeError ''Invalid argument'')"
proof -
  have "data_codewords 1 HIGH = 9" by code_simp
  then show ?thesis using new_QrCode_total[of "[1, 2, 3]" 1 0 HIGH]
    by (cases "new_QrCode 1 HIGH [1, 2, 3] 0") (auto simp: is_byte_def)
qed

text \<open>
  C40: \<^verbatim>\<open>encodeText\<close> keeps the promise of its comment: at the low level it succeeds for every text of
  738 or fewer Unicode code points.
\<close>
theorem short_texts_succeed:
  assumes "code_points txt = Some cps" "length cps \<le> 738"
  shows "\<exists>qr. encodeText txt LOW = Inr qr"
proof -
  have "\<not> too_long segs 1 40 LOW" if "makeSegments txt = Inr segs" for segs
    using short_text_fits[OF assms that] by (force simp: too_long_def)
  then show ?thesis using encodeText_spec[of "txt" LOW] assms(1) by (auto split: sum.splits)
qed

theorem short_texts_succeed_witness: "\<exists>qr. encodeText (lit ''Hello'') LOW = Inr qr"
proof -
  have "code_points (lit ''Hello'') = Some [72, 101, 108, 108, 111]" by code_simp
  from short_texts_succeed[OF this] show ?thesis by simp
qed

text \<open>
  C22: \<^verbatim>\<open>encodeBinary\<close> keeps the promise of its comment: at the low level, 2953 bytes are allowed and not
  one more; longer data are refused with \<^verbatim>\<open>Data too long\<close>.
\<close>
theorem encodeBinary_capacity:
  assumes "list_all byte_valid bs"
  shows "if length bs \<le> 2953 then \<exists>qr. encodeBinary bs LOW = Inr qr \<and> read_contents (modules qr) = Some [Bytes bs]
    else encodeBinary bs LOW = Inl (RangeError ''Data too long'')"
proof -
  have "args_ok 1 40 (-1)" "list_all payload_ok [Bytes bs]" using assms by (simp_all add: args_ok_def)
  note r = encodeSegments_reads[OF this, of LOW True]
  have "encodeBinary bs LOW = encodeSegments (map payload_segment [Bytes bs]) LOW 1 40 (-1) True"
    by (simp add: encodeBinary_def makeBytes_eq[OF assms])
  then show ?thesis using r bytes_too_long[of bs] by (auto split: sum.splits)
qed

theorem encodeBinary_capacity_witness:
  "\<exists>qr. encodeBinary [0, 127, 255] LOW = Inr qr \<and> read_contents (modules qr) = Some [Bytes [0, 127, 255]]"
proof -
  have "list_all byte_valid [0, 127, 255]" by code_simp
  from encodeBinary_capacity[OF this] show ?thesis by simp
qed

text \<open>
  \<^verbatim>\<open>getModule\<close> on a finished symbol returns a colour for every pair of coordinates, light outside
  the square.
\<close>
theorem getModule_total:
  assumes "new_QrCode ver ecl dc msk = Inr qr" "list_all is_byte dc"
  shows "getModule qr x y = Inr (if in_sq (ver * 4 + 17) x y then grid_at (modules qr) x y else False)"
proof -
  obtain m where f: "1 \<le> ver" "finished ver ecl m qr"
    using new_QrCode_outcomes[OF assms(2), of ver msk ecl] assms(1) by auto
  then have "wf_grid (nat (ver * 4 + 17)) (modules qr)" "qr_size qr = ver * 4 + 17" by (simp_all add: finished_def)
  then show ?thesis using grid_get_at[of "nat (ver * 4 + 17)" "modules qr" x y] f(1)
    by (auto simp: getModule_def in_sq_def)
qed

theorem getModule_total_witness:
  "\<exists>qr. new_QrCode 1 HIGH (replicate 9 255) 4 = Inr qr \<and> getModule qr (-1) 5 = Inr False"
proof -
  have "codewords_ok 1 HIGH (replicate 9 255)" by code_simp
  from new_QrCode_reads[OF this, of 4] obtain qr where "new_QrCode 1 HIGH (replicate 9 255) 4 = Inr qr" by auto
  moreover have "list_all is_byte (replicate 9 255)" by code_simp
  ultimately show ?thesis using getModule_total[of 1 HIGH "replicate 9 255" 4 qr "-1" 5] by (auto simp: in_sq_def)
qed

end
