(* ===== verification/Canvas.thy ===== *)
theory Canvas
  imports QrCode
begin

text \<open>
  \<^verbatim>\<open>showQRCode\<close> of \<^verbatim>\<open>frontend/js/util.js\<close>: the picture of a QR code.

  A canvas is its size and the rectangles filled since it was resized; \<^verbatim>\<open>pixel\<close> is the colour the
  last of them gives a pixel, and \<^verbatim>\<open>scan_canvas\<close> samples the middle of every module.
\<close>

section \<open>Drawing a QR code\<close>

record canvas =
  cv_width :: int
  cv_height :: int
  cv_fills :: "(int \<times> int \<times> int \<times> int \<times> string) list"

definition fillRect :: "int \<Rightarrow> int \<Rightarrow> int \<Rightarrow> int \<Rightarrow> string \<Rightarrow> canvas \<Rightarrow> canvas" where
  "fillRect x y w h color cv = cv\<lparr>cv_fills := cv_fills cv @ [(x, y, w, h, color)]\<rparr>"

text \<open>Assigning the size of a canvas clears it.\<close>

definition drawCanvas :: "qrcode \<Rightarrow> int \<Rightarrow> int \<Rightarrow> string \<Rightarrow> string \<Rightarrow> canvas \<Rightarrow> canvas js" where
  "drawCanvas qr scale border lightColor darkColor cv =
     (if scale \<le> 0 \<or> border < 0 then Inl (RangeError ''Value out of range'')
      else let sz = (qr_size qr + border * 2) * scale; cv = cv\<lparr>cv_width := sz, cv_height := sz, cv_fills := []\<rparr>
           in foldE (\<lambda>y. foldE (\<lambda>x cv.
                bindE (getModule qr x y) (\<lambda>dark.
                Inr (fillRect ((x + border) * scale) ((y + border) * scale) scale scale
                       (if dark then darkColor else lightColor) cv)))
                [- border..qr_size qr + border - 1]) [- border..qr_size qr + border - 1] cv)"

definition showQRCode :: "jstr \<Rightarrow> canvas \<Rightarrow> canvas js" where
  "showQRCode data cv =
     bindE (encodeText data MEDIUM) (\<lambda>qr. drawCanvas qr 5 4 ''#FFFFFF'' ''#000000'' cv)"

section \<open>What is drawn\<close>

definition pixel :: "canvas \<Rightarrow> int \<Rightarrow> int \<Rightarrow> string option" where
  "pixel cv px py =
     (if 0 \<le> px \<and> px < cv_width cv \<and> 0 \<le> py \<and> py < cv_height cv
      then fold (\<lambda>(x, y, w, h, color) c. if x \<le> px \<and> px < x + w \<and> y \<le> py \<and> py < y + h then Some color else c)
             (cv_fills cv) None
      else None)"

lemma fold_last_match:
  "(\<And>y. y \<in> set xs \<Longrightarrow> P y \<longleftrightarrow> y = x) \<Longrightarrow>
     fold (\<lambda>y c. if P y then Some (f y) else c) xs c = (if x \<in> set xs then Some (f x) else c)"
proof (induction xs arbitrary: c)
  case (Cons y xs)
  have "fold (\<lambda>y c. if P y then Some (f y) else c) xs c' = (if x \<in> set xs then Some (f x) else c')" for c'
    using Cons.prems by (intro Cons.IH) simp
  then show ?case using Cons.prems[of y] by auto
qed simp

lemma fills_foldE:
  assumes "\<And>x y. (x, y) \<in> set ps \<Longrightarrow> getModule qr x y = Inr (m x y)"
  shows "foldE (\<lambda>(x, y) cv. bindE (getModule qr x y) (\<lambda>dark. Inr (fillRect (fx x) (fy y) s s (col dark) cv))) ps cv
    = Inr (cv\<lparr>cv_fills := cv_fills cv @ map (\<lambda>(x, y). (fx x, fy y, s, s, col (m x y))) ps\<rparr>)"
  using assms by (induction ps arbitrary: cv) (auto simp: fillRect_def)

definition canvas_cells :: "int \<Rightarrow> int \<Rightarrow> (int \<times> int) list" where
  "canvas_cells n b = concat (map (\<lambda>y. map (\<lambda>x. (x, y)) [- b..n + b - 1]) [- b..n + b - 1])"

lemma set_canvas_cells: "(x, y) \<in> set (canvas_cells n b) \<longleftrightarrow> - b \<le> x \<and> x < n + b \<and> - b \<le> y \<and> y < n + b"
  by (auto simp: canvas_cells_def image_iff Bex_def)

lemma cell_of_pixel:
  fixes s :: int
  assumes "0 < s"
  shows "(x + b) * s \<le> p \<and> p < (x + b) * s + s \<longleftrightarrow> x = p div s - b"
proof
  assume p: "(x + b) * s \<le> p \<and> p < (x + b) * s + s"
  have "p div s = x + b"
    by (rule int_div_pos_eq[of p s "x + b" "p - (x + b) * s"]) (use p in \<open>simp_all add: algebra_simps\<close>)
  then show "x = p div s - b" by simp
next
  assume x: "x = p div s - b"
  have "(x + b) * s = p - p mod s" by (simp add: x minus_mod_eq_div_mult)
  then show "(x + b) * s \<le> p \<and> p < (x + b) * s + s" using assms pos_mod_bound[of s p] by simp
qed

lemma drawCanvas_eq:
  assumes "0 < s" "0 \<le> b" "\<And>x y. getModule qr x y = Inr (m x y)"
  shows "drawCanvas qr s b light dark cv
    = Inr (cv\<lparr>cv_width := (qr_size qr + b * 2) * s, cv_height := (qr_size qr + b * 2) * s,
        cv_fills := map (\<lambda>(x, y). ((x + b) * s, (y + b) * s, s, s, if m x y then dark else light))
          (canvas_cells (qr_size qr) b)\<rparr>)"
proof -
  let ?draw = "\<lambda>x y cv. bindE (getModule qr x y) (\<lambda>d. Inr (fillRect ((x + b) * s) ((y + b) * s) s s (if d then dark else light) cv))"
  have nest: "foldE (\<lambda>y. foldE (\<lambda>x. ?draw x y) [- b..qr_size qr + b - 1]) [- b..qr_size qr + b - 1]
      = foldE (\<lambda>(x, y). ?draw x y) (canvas_cells (qr_size qr) b)"
    unfolding canvas_cells_def foldE_nest [symmetric] foldE_map by (simp add: fun_eq_iff)
  have "\<not> (s \<le> 0 \<or> b < 0)" using assms(1,2) by simp
  then show ?thesis
    unfolding drawCanvas_def if_not_P[OF \<open>\<not> (s \<le> 0 \<or> b < 0)\<close>] Let_def nest
    by (subst fills_foldE[where m = m]) (simp_all add: assms(3))
qed

lemma pixel_drawn:
  assumes "0 < s" "0 \<le> b" "\<And>x y. getModule qr x y = Inr (m x y)" "drawCanvas qr s b light dark cv = Inr cv'"
    "0 \<le> px" "px < (qr_size qr + b * 2) * s" "0 \<le> py" "py < (qr_size qr + b * 2) * s"
  shows "pixel cv' px py = Some (if m (px div s - b) (py div s - b) then dark else light)"
proof -
  let ?n = "qr_size qr"
  let ?P = "\<lambda>(x, y). (x + b) * s \<le> px \<and> px < (x + b) * s + s \<and> (y + b) * s \<le> py \<and> py < (y + b) * s + s"
  let ?f = "\<lambda>(x, y). if m x y then dark else light"
  note eq = drawCanvas_eq[OF assms(1-3), of light dark cv, unfolded assms(4) sum.inject]
  have fold: "fold (\<lambda>(x, y, w, h, color) c. if x \<le> px \<and> px < x + w \<and> y \<le> py \<and> py < y + h then Some color else c)
      (map (\<lambda>(x, y). ((x + b) * s, (y + b) * s, s, s, if m x y then dark else light)) ps) c
      = fold (\<lambda>p c. if ?P p then Some (?f p) else c) ps c" for ps c
    by (induction ps arbitrary: c) (simp_all add: split_def)
  have P: "?P p \<longleftrightarrow> p = (px div s - b, py div s - b)" for p
  proof (cases p)
    case (Pair x y)
    have "?P (x, y) \<longleftrightarrow> x = px div s - b \<and> y = py div s - b"
      using cell_of_pixel[OF assms(1), of x b px] cell_of_pixel[OF assms(1), of y b py] by auto
    then show ?thesis by (simp add: Pair)
  qed
  have div: "0 \<le> p div s \<and> p div s < ?n + b * 2" if "0 \<le> p" "p < (?n + b * 2) * s" for p
  proof -
    have "p div s * s \<le> p" using assms(1) pos_mod_sign[of s p] minus_mod_eq_div_mult[of p s] by linarith
    then have "p div s * s < (?n + b * 2) * s" using that(2) by linarith
    then show ?thesis using that(1) assms(1) by (simp add: pos_imp_zdiv_nonneg_iff mult_less_cancel_right_pos)
  qed
  have "(px div s - b, py div s - b) \<in> set (canvas_cells ?n b)"
    using div[OF assms(5,6)] div[OF assms(7,8)] by (simp add: set_canvas_cells)
  then show ?thesis
    unfolding pixel_def eq using assms(5-8) by (simp add: fold fold_last_match[OF P])
qed

section \<open>Reading a canvas\<close>

text \<open>A camera's view of the code: one sample in the middle of every module inside the quiet zone.\<close>

definition scan_canvas :: "canvas \<Rightarrow> grid" where
  "scan_canvas cv =
     (let n = nat (cv_width cv div 5 - 8)
      in map (\<lambda>y. map (\<lambda>x. pixel cv ((int x + 4) * 5 + 2) ((int y + 4) * 5 + 2) = Some ''#000000'') [0..<n]) [0..<n])"

definition canvas_text :: "canvas \<Rightarrow> jstr option" where
  "canvas_text cv = Option.bind (read_contents (scan_canvas cv)) contents_text"

lemma getModule_finished:
  assumes "finished v l m qr" "1 \<le> v"
  shows "getModule qr x y = Inr (if in_sq (v * 4 + 17) x y then grid_at (modules qr) x y else False)"
  using assms grid_get_at[of "nat (v * 4 + 17)" "modules qr" x y]
  by (auto simp: finished_def getModule_def in_sq_def)

lemma scan_drawn:
  assumes "finished v l m qr" "1 \<le> v" "drawCanvas qr 5 4 ''#FFFFFF'' ''#000000'' cv = Inr cv'"
  shows "scan_canvas cv' = modules qr"
proof -
  let ?sz = "v * 4 + 17" and ?n = "nat (v * 4 + 17)"
  have qr: "qr_size qr = ?sz" "wf_grid ?n (modules qr)" using assms(1) by (simp_all add: finished_def)
  note g = getModule_finished[OF assms(1,2)]
  have "cv_width cv' = (?sz + 8) * 5"
    using drawCanvas_eq[of 5 4 qr _ "''#FFFFFF''" "''#000000''" cv, OF _ _ g] assms(3) qr(1) by simp
  then have n: "nat (cv_width cv' div 5 - 8) = ?n" by simp
  have px: "pixel cv' ((int x + 4) * 5 + 2) ((int y + 4) * 5 + 2) = Some ''#000000'' \<longleftrightarrow> modules qr ! y ! x"
    if "x < ?n" "y < ?n" for x y
  proof -
    have d: "((int k + 4) * 5 + 2) div 5 - 4 = int k" for k by simp
    have "pixel cv' ((int x + 4) * 5 + 2) ((int y + 4) * 5 + 2)
        = Some (if (if in_sq ?sz (int x) (int y) then grid_at (modules qr) (int x) (int y) else False)
            then ''#000000'' else ''#FFFFFF'')"
      using that pixel_drawn[OF _ _ g assms(3), of "(int x + 4) * 5 + 2" "(int y + 4) * 5 + 2"] qr(1)
      unfolding d by simp
    moreover have "in_sq ?sz (int x) (int y)" using that by (simp add: in_sq_def zless_nat_eq_int_zless)
    ultimately show ?thesis by (simp add: grid_at_def)
  qed
  have "scan_canvas cv' = map (\<lambda>y. map (\<lambda>x. modules qr ! y ! x) [0..<?n]) [0..<?n]"
    unfolding scan_canvas_def n Let_def by (intro map_cong refl px) simp_all
  also have "\<dots> = map (\<lambda>y. modules qr ! y) [0..<?n]"
    using wf_grid_row[OF qr(2)] by (intro map_cong refl) (simp add: map_nth_upt)
  also have "\<dots> = modules qr" using qr(2) by (simp add: wf_grid_def map_nth_upt)
  finally show ?thesis .
qed

text \<open>What \<^verbatim>\<open>showQRCode\<close> promises its callers.\<close>

definition encodable :: "jstr \<Rightarrow> bool" where
  "encodable s \<longleftrightarrow> (\<exists>segs. makeSegments s = Inr segs \<and> \<not> too_long segs 1 40 MEDIUM)"

lemma showQRCode_spec:
  "case showQRCode data cv of Inl e \<Rightarrow> \<not> encodable data | Inr cv' \<Rightarrow> encodable data \<and> canvas_text cv' = Some data"
proof (cases "encodeText data MEDIUM")
  case (Inl e)
  then have "\<not> encodable data" using encodeText_error[OF Inl] by (auto simp: encodable_def)
  then show ?thesis by (simp add: showQRCode_def Inl)
next
  case (Inr qr)
  obtain v l m where qr: "finished v l m qr" "1 \<le> v" using encodeText_finished[OF Inr] by blast
  obtain cv' where cv': "drawCanvas qr 5 4 ''#FFFFFF'' ''#000000'' cv = Inr cv'"
    using drawCanvas_eq[of 5 4 qr _ "''#FFFFFF''" "''#000000''" cv, OF _ _ getModule_finished[OF qr]] by simp
  have "Option.bind (read_contents (modules qr)) contents_text = Some data" "encodable data"
    using encodeText_spec[of data MEDIUM] by (simp_all add: Inr encodable_def)
  then show ?thesis by (simp add: showQRCode_def Inr cv' canvas_text_def scan_drawn[OF qr cv'])
qed

section \<open>Properties\<close>

text \<open>
  C4: The picture \<^verbatim>\<open>showQRCode\<close> paints can be scanned: it throws only for text that cannot be
  encoded at the medium level, and otherwise sampling the canvas in the middle of every module
  and reading the symbol gives the text back.
\<close>
theorem showQRCode_scans:
  "case showQRCode data cv of
     Inl e \<Rightarrow> \<not> encodable data
   | Inr cv' \<Rightarrow> encodable data \<and> canvas_text cv' = Some data"
  by (rule showQRCode_spec)

text \<open>
  \<^verbatim>\<open>drawCanvas\<close> of a finished symbol paints every pixel of the canvas, the quiet zone light and
  each module as a square of \<^verbatim>\<open>scale\<close> pixels in its colour, and refuses a scale below one or a
  negative border.
\<close>
theorem drawCanvas_pixels:
  assumes "finished v l m qr" "1 \<le> v"
  shows "if scale \<le> 0 \<or> border < 0
    then drawCanvas qr scale border light dark cv = Inl (RangeError ''Value out of range'')
    else \<exists>cv'. drawCanvas qr scale border light dark cv = Inr cv' \<and>
      cv_width cv' = (v * 4 + 17 + border * 2) * scale \<and> cv_height cv' = cv_width cv' \<and>
      (\<forall>px py. 0 \<le> px \<and> px < cv_width cv' \<and> 0 \<le> py \<and> py < cv_height cv' \<longrightarrow>
         (let x = px div scale - border; y = py div scale - border
          in pixel cv' px py =
               Some (if in_sq (v * 4 + 17) x y \<and> grid_at (modules qr) x y then dark else light)))"
proof (cases "scale \<le> 0 \<or> border < 0")
  case True
  then show ?thesis by (simp add: drawCanvas_def)
next
  case False
  then have s: "0 < scale" "0 \<le> border" by simp_all
  have qr: "qr_size qr = v * 4 + 17" using assms(1) by (simp add: finished_def)
  note g = getModule_finished[OF assms]
  obtain cv' where cv': "drawCanvas qr scale border light dark cv = Inr cv'"
    "cv_width cv' = (v * 4 + 17 + border * 2) * scale" "cv_height cv' = (v * 4 + 17 + border * 2) * scale"
    using drawCanvas_eq[OF s g, of light dark cv] by (simp add: qr)
  have "pixel cv' px py = Some (if in_sq (v * 4 + 17) x y \<and> grid_at (modules qr) x y then dark else light)"
    if "0 \<le> px" "px < cv_width cv'" "0 \<le> py" "py < cv_height cv'" "x = px div scale - border" "y = py div scale - border"
    for px py x y
    using pixel_drawn[OF s g cv'(1), of px py] that by (simp add: cv'(2,3) qr split: if_splits)
  then show ?thesis using False cv' by (auto simp: Let_def)
qed

theorem drawCanvas_pixels_witness:
  "\<exists>qr cv. new_QrCode 1 HIGH [1, 2, 3, 4, 5, 6, 7, 8, 9] 2 = Inr qr \<and>
     drawCanvas qr 5 4 ''#FFFFFF'' ''#000000'' \<lparr>cv_width = 0, cv_height = 0, cv_fills = []\<rparr> = Inr cv \<and>
     cv_width cv = 145 \<and> pixel cv 0 144 = Some ''#FFFFFF''"
proof -
  have "codewords_ok 1 HIGH [1, 2, 3, 4, 5, 6, 7, 8, 9]" by code_simp
  from new_QrCode_reads[OF this, of 2]
  obtain qr m where qr: "new_QrCode 1 HIGH [1, 2, 3, 4, 5, 6, 7, 8, 9] 2 = Inr qr" "finished 1 HIGH m qr" by auto
  let ?cv = "\<lparr>cv_width = 0, cv_height = 0, cv_fills = []\<rparr>"
  obtain cv where cv: "drawCanvas qr 5 4 ''#FFFFFF'' ''#000000'' ?cv = Inr cv" "cv_width cv = 145" "cv_height cv = 145"
    "\<forall>px py. 0 \<le> px \<and> px < cv_width cv \<and> 0 \<le> py \<and> py < cv_height cv \<longrightarrow>
       (let x = px div 5 - 4; y = py div 5 - 4
        in pixel cv px py = Some (if in_sq 21 x y \<and> grid_at (modules qr) x y then ''#000000'' else ''#FFFFFF''))"
    using drawCanvas_pixels[OF qr(2), of 5 4 "''#FFFFFF''" "''#000000''" ?cv] by auto
  have "pixel cv 0 144 = Some ''#FFFFFF''"
    using cv(4)[rule_format, of 0 144] cv(2,3) by (simp add: in_sq_def)
  then show ?thesis using qr(1) cv(1,2) by blast
qed

end
