(* ===== verification/Web.thy ===== *)
theory Web
  imports JsString
begin

text \<open>
  The setting of the frontend's own modules: an asynchronous JavaScript function that changes the
  state of a page between its awaits, and the browser's event loop that interleaves such functions.

  \<^item> \<^verbatim>\<open>prog\<close> is a function body cut at its awaits; \<^verbatim>\<open>run\<close> executes it up to the next await, a
    return or a throw. \<^verbatim>\<open>bindP\<close>, \<^verbatim>\<open>tryP\<close> and \<^verbatim>\<open>whenP\<close> are sequencing, \<^verbatim>\<open>try .. catch\<close> and
    \<^verbatim>\<open>if\<close>.
  \<^item> A \<^verbatim>\<open>machine\<close> is a page with its suspended handlers. A user event starts a handler; what a
    handler awaits is settled in any order, after any number of other events. This is all the
    concurrency JavaScript has: a handler is never interrupted between two awaits.
  \<^item> The locale \<^verbatim>\<open>page_trace\<close> is the contract of a page: what its handlers keep, every state has,
    and everything ever sent goes back to an event that allowed it, in the state the page had then.
    \<^verbatim>\<open>page_safety\<close> is the special case where what may be sent does not depend on the event.
  \<^item> \<^verbatim>\<open>alone\<close> is the run of a handler whose awaits
    are answered with nothing in between, for statements on one event at a time.

  A request and the reading of its answer's body are two awaits in the source with no effect on
  the page between them. They are one await here, which settles when the body has arrived, so the
  number of awaits is smaller than in the source; no statement counts them.
\<close>

section \<open>Requests and answers\<close>

text \<open>An entry of a directory, or a root, as the server describes it.\<close>

record entry =
  fid :: jstr
  name :: jstr
  isFile :: bool

text \<open>A request body before serialisation: a JSON object of string fields, another value, a file.\<close>

datatype body = NoBody | Json "(string \<times> jstr) list" | Opaque jstr | File jstr

record request =
  req_url :: string
  req_method :: string
  req_headers :: "(string \<times> jstr) list"
  req_body :: body

text \<open>What \<^verbatim>\<open>JSON.parse\<close> of an answer is used for: a list of entries, an object with a challenge, else.\<close>

datatype server_json = JEntries "entry list" | JChallenge jstr | JOther

record response =
  resp_ok :: bool
  resp_text :: jstr
  resp_json :: "server_json option" \<comment> \<open>\<^verbatim>\<open>None\<close>: not JSON, reading it rejects\<close>
  resp_disposition :: "jstr option" \<comment> \<open>the header \<^verbatim>\<open>Content-Disposition\<close>\<close>

text \<open>What a handler awaits, and how it settles.\<close>

datatype operation =
    SodiumReady
  | Fetch request
  | CreateCredential jstr jstr \<comment> \<open>the challenge and the user name\<close>
  | GetCredential jstr jstr \<comment> \<open>the challenge and the id of the credential\<close>

datatype outcome = Rejected js_error | Settled response

section \<open>Function bodies\<close>

datatype ('w, 'a) prog =
    Return 'a
  | Throw js_error
  | Get "'w \<Rightarrow> ('w, 'a) prog"
  | Put 'w "('w, 'a) prog"
  | Await operation "outcome \<Rightarrow> ('w, 'a) prog"

primrec bindP :: "('w, 'a) prog \<Rightarrow> ('a \<Rightarrow> ('w, 'b) prog) \<Rightarrow> ('w, 'b) prog" where
  "bindP (Return x) f = f x"
| "bindP (Throw e) f = Throw e"
| "bindP (Get k) f = Get (\<lambda>w. bindP (k w) f)"
| "bindP (Put w p) f = Put w (bindP p f)"
| "bindP (Await c k) f = Await c (\<lambda>r. bindP (k r) f)"

primrec tryP :: "('w, 'a) prog \<Rightarrow> (js_error \<Rightarrow> ('w, 'a) prog) \<Rightarrow> ('w, 'a) prog" where
  "tryP (Return x) h = Return x"
| "tryP (Throw e) h = h e"
| "tryP (Get k) h = Get (\<lambda>w. tryP (k w) h)"
| "tryP (Put w p) h = Put w (tryP p h)"
| "tryP (Await c k) h = Await c (\<lambda>r. tryP (k r) h)"

primrec run :: "('w, 'a) prog \<Rightarrow> 'w \<Rightarrow> 'w \<times> ('w, 'a) prog" where
  "run (Return x) w = (w, Return x)"
| "run (Throw e) w = (w, Throw e)"
| "run (Get k) w = run (k w) w"
| "run (Put w' p) w = run p w'"
| "run (Await c k) w = (w, Await c k)"

definition gets :: "('w \<Rightarrow> 'a) \<Rightarrow> ('w, 'a) prog" where
  "gets f = Get (\<lambda>w. Return (f w))"

definition modify :: "('w \<Rightarrow> 'w) \<Rightarrow> ('w, unit) prog" where
  "modify f = Get (\<lambda>w. Put (f w) (Return ()))"

definition whenP :: "bool \<Rightarrow> ('w, unit) prog \<Rightarrow> ('w, unit) prog" where
  "whenP c p = (if c then p else Return ())"

fun of_outcome :: "outcome \<Rightarrow> ('w, response) prog" where
  "of_outcome (Rejected e) = Throw e"
| "of_outcome (Settled r) = Return r"

definition await :: "operation \<Rightarrow> ('w, response) prog" where
  "await c = Await c of_outcome"

named_theorems run_simps \<open>the effect of a function up to its next await\<close>

lemma run_basic [run_simps, simp]:
  "run (gets f) w = (w, Return (f w))"
  "run (modify g) w = (g w, Return ())"
  "run (whenP c p) w = (if c then run p w else (w, Return ()))"
  by (simp_all add: gets_def modify_def whenP_def)

lemma bind_basic [simp]:
  "bindP (gets f) k = Get (\<lambda>w. k (f w))"
  "bindP (modify g) m = Get (\<lambda>w. Put (g w) (m ()))"
  "bindP (await c) h = Await c (\<lambda>r. bindP (of_outcome r) h)"
  by (simp_all add: gets_def modify_def await_def)

lemma bindP_assoc: "bindP (bindP p f) g = bindP p (\<lambda>x. bindP (f x) g)"
  by (induction p) simp_all

lemma bindP_Return: "bindP p Return = p"
  by (induction p) simp_all

text \<open>How far \<^verbatim>\<open>run\<close> gets: to a return, a throw or an await.\<close>

lemma run_stops:
  "(\<exists>x. snd (run p w) = Return x) \<or> (\<exists>e. snd (run p w) = Throw e) \<or> (\<exists>c k. snd (run p w) = Await c k)"
  by (induction p arbitrary: w) auto

lemma run_bindP:
  "run (bindP p f) w =
     (let (w', p') = run p w
      in case p' of Return x \<Rightarrow> run (f x) w' | _ \<Rightarrow> (w', bindP p' f))"
proof (induction p arbitrary: w)
  case (Get k)
  then show ?case by simp
next
  case (Put w' p)
  then show ?case by simp
qed simp_all

lemma run_tryP:
  "run (tryP p h) w =
     (let (w', p') = run p w
      in case p' of Throw e \<Rightarrow> run (h e) w' | _ \<Rightarrow> (w', tryP p' h))"
proof (induction p arbitrary: w)
  case (Get k)
  then show ?case by simp
next
  case (Put w' p)
  then show ?case by simp
qed simp_all

lemma run_bind_return [run_simps]: "run p w = (w', Return x) \<Longrightarrow> run (bindP p f) w = run (f x) w'"
  by (simp add: run_bindP)

lemma run_try_return [run_simps]: "run p w = (w', Return x) \<Longrightarrow> run (tryP p h) w = (w', Return x)"
  by (simp add: run_tryP)

section \<open>What a function keeps\<close>

text \<open>
  \<^verbatim>\<open>keeps I Q E p\<close>: started in a state with \<^verbatim>\<open>I\<close>, and resumed in any state with \<^verbatim>\<open>I\<close> after each
  await, \<^verbatim>\<open>p\<close> gives control back in a state with \<^verbatim>\<open>I\<close>, awaits only operations with \<^verbatim>\<open>Q\<close> and
  throws only errors with \<^verbatim>\<open>E\<close>.
\<close>

inductive keeps ::
  "('w \<Rightarrow> bool) \<Rightarrow> (operation \<Rightarrow> bool) \<Rightarrow> (js_error \<Rightarrow> bool) \<Rightarrow> ('w, 'a) prog \<Rightarrow> bool" for I Q E where
  keepsI: "(\<And>w w' p'. I w \<Longrightarrow> run p w = (w', p') \<Longrightarrow> I w') \<Longrightarrow>
     (\<And>w w' e. I w \<Longrightarrow> run p w = (w', Throw e) \<Longrightarrow> E e) \<Longrightarrow>
     (\<And>w w' c k. I w \<Longrightarrow> run p w = (w', Await c k) \<Longrightarrow> Q c \<and> (\<forall>r. keeps I Q E (k r))) \<Longrightarrow> keeps I Q E p"

inductive_cases keepsE: "keeps I Q E p"

lemma keepsD:
  assumes "keeps I Q E p" "I w" "run p w = (w', p')"
  shows "I w'" "p' = Throw e \<Longrightarrow> E e" "p' = Await c k \<Longrightarrow> Q c" "p' = Await c k \<Longrightarrow> keeps I Q E (k r)"
  using assms by (blast elim: keepsE)+

lemma keeps_return [intro, simp]: "keeps I Q E (Return x)"
  by (rule keepsI) auto

lemma keeps_throw: "E e \<Longrightarrow> keeps I Q E (Throw e)"
  by (rule keepsI) auto

lemma keeps_get:
  assumes "\<And>w. I w \<Longrightarrow> keeps I Q E (k w)"
  shows "keeps I Q E (Get k)"
  by (rule keepsI) (use assms in \<open>auto dest: keepsD\<close>)

lemma keeps_put_get:
  assumes "\<And>w. I w \<Longrightarrow> I (f w) \<and> keeps I Q E (p w)"
  shows "keeps I Q E (Get (\<lambda>w. Put (f w) (p w)))"
  by (rule keepsI) (use assms in \<open>auto dest: keepsD\<close>)

lemma keeps_modify: "(\<And>w. I w \<Longrightarrow> I (f w)) \<Longrightarrow> keeps I Q E (modify f)"
  by (rule keepsI) auto

lemma keeps_gets [intro, simp]: "keeps I Q E (gets f)"
  by (rule keepsI) auto

lemma keeps_await:
  assumes "Q c" "\<And>r. keeps I Q E (k r)"
  shows "keeps I Q E (Await c k)"
  by (rule keepsI) (use assms in auto)

lemma keeps_bind:
  assumes "keeps I Q E p" "\<And>x. keeps I Q E (f x)"
  shows "keeps I Q E (bindP p f)"
  using assms(1)
proof (induction p rule: keeps.induct)
  case (keepsI p)
  have cont: "I v \<and> (\<forall>e. q = Throw e \<longrightarrow> E e) \<and> (\<forall>c k. q = Await c k \<longrightarrow> Q c \<and> (\<forall>r. keeps I Q E (k r)))"
    if I: "I w" and e: "run (bindP p f) w = (v, q)" for w v q
  proof -
    obtain w' p' where r: "run p w = (w', p')" by (cases "run p w")
    have w': "I w'" using keepsI(1)[OF I] r by simp
    show ?thesis
    proof (cases p')
      case (Return x)
      then have "run (f x) w' = (v, q)" using e r by (simp add: run_bindP)
      then show ?thesis using keepsD[OF assms(2)[of x] w'] by blast
    next
      case (Throw x)
      then show ?thesis using e r w' keepsI(2)[OF I] by (auto simp: run_bindP)
    next
      case (Await c' k')
      then show ?thesis using e r w' keepsI(3)[OF I, of w' c' k'] by (auto simp: run_bindP)
    qed (use run_stops[of p w] r in simp_all)
  qed
  show ?case by (rule keeps.keepsI) (use cont in blast)+
qed

lemma keeps_try:
  assumes "keeps I Q (\<lambda>_. True) p" "\<And>e. keeps I Q E (h e)"
  shows "keeps I Q E (tryP p h)"
  using assms(1)
proof (induction p rule: keeps.induct)
  case (keepsI p)
  have cont: "I v \<and> (\<forall>e. q = Throw e \<longrightarrow> E e) \<and> (\<forall>c k. q = Await c k \<longrightarrow> Q c \<and> (\<forall>r. keeps I Q E (k r)))"
    if I: "I w" and e: "run (tryP p h) w = (v, q)" for w v q
  proof -
    obtain w' p' where r: "run p w = (w', p')" by (cases "run p w")
    have w': "I w'" using keepsI(1)[OF I] r by simp
    show ?thesis
    proof (cases p')
      case (Throw x)
      then have "run (h x) w' = (v, q)" using e r by (simp add: run_tryP)
      then show ?thesis using keepsD[OF assms(2)[of x] w'] by blast
    next
      case (Return x)
      then show ?thesis using e r w' by (auto simp: run_tryP)
    next
      case (Await c' k')
      then show ?thesis using e r w' keepsI(3)[OF I, of w' c' k'] by (auto simp: run_tryP)
    qed (use run_stops[of p w] r in simp_all)
  qed
  show ?case by (rule keeps.keepsI) (use cont in blast)+
qed

lemma keeps_any_error: "keeps I Q E p \<Longrightarrow> keeps I Q (\<lambda>_. True) p"
  by (induction p rule: keeps.induct) (rule keeps.keepsI; blast)

lemma keeps_when: "(c \<Longrightarrow> keeps I Q E p) \<Longrightarrow> keeps I Q E (whenP c p)"
  by (simp add: whenP_def)

lemma keeps_of_outcome: "(\<And>e. E e) \<Longrightarrow> keeps I Q E (of_outcome r)"
  by (cases r) (auto intro: keeps_throw)

lemma keeps_await_op: "Q c \<Longrightarrow> (\<And>e. E e) \<Longrightarrow> keeps I Q E (await c)"
  unfolding await_def by (rule keeps_await) (auto intro: keeps_of_outcome)

lemma keeps_if: "(b \<Longrightarrow> keeps I Q E p) \<Longrightarrow> (\<not> b \<Longrightarrow> keeps I Q E q) \<Longrightarrow> keeps I Q E (if b then p else q)"
  by simp

text \<open>
  \<^verbatim>\<open>safe_from\<close> is the same for one run from one state, about which more is known than the invariant.
\<close>

definition safe_from ::
  "('w \<Rightarrow> bool) \<Rightarrow> (operation \<Rightarrow> bool) \<Rightarrow> (js_error \<Rightarrow> bool) \<Rightarrow> ('w, 'a) prog \<Rightarrow> 'w \<Rightarrow> bool" where
  "safe_from I Q E p w \<longleftrightarrow> I (fst (run p w)) \<and> keeps I Q E (snd (run p w))"

lemma keeps_safe_from: "keeps I Q E p \<Longrightarrow> I w \<Longrightarrow> safe_from I Q E p w"
proof -
  assume p: "keeps I Q E p" and w: "I w"
  obtain w' p' where r: "run p w = (w', p')" by (cases "run p w")
  show "safe_from I Q E p w"
    using keepsD[OF p w r] run_stops[of p w] by (auto simp: safe_from_def r intro: keeps_throw keeps_await)
qed

lemma safe_from_keeps:
  assumes "\<And>w. I w \<Longrightarrow> safe_from I Q E p w"
  shows "keeps I Q E p"
proof -
  have q: "(\<forall>e. p' = Throw e \<longrightarrow> E e) \<and> (\<forall>c k. p' = Await c k \<longrightarrow> Q c \<and> (\<forall>r. keeps I Q E (k r)))"
    if "keeps I Q E p'" "I w" for p' and w :: 'a
    using keepsD[OF that] by (cases p') auto
  show ?thesis by (rule keepsI) (use assms q in \<open>fastforce simp: safe_from_def\<close>)+
qed

lemma safe_from_run: "run p w = (w', Return x) \<Longrightarrow> safe_from I Q E (f x) w' \<Longrightarrow> safe_from I Q E (bindP p f) w"
  by (simp add: safe_from_def run_bindP)

lemma safe_from_return: "I w \<Longrightarrow> safe_from I Q E (Return x) w"
  by (simp add: safe_from_def)

lemma safe_from_bind:
  assumes "safe_from I Q E p w" "\<And>x. keeps I Q E (f x)"
  shows "safe_from I Q E (bindP p f) w"
proof -
  obtain w' p' where r: "run p w = (w', p')" by (cases "run p w")
  have p': "I w'" "keeps I Q E p'" using assms(1) r by (simp_all add: safe_from_def)
  show ?thesis
  proof (cases p')
    case (Return x)
    then show ?thesis using keeps_safe_from[OF assms(2)[of x] p'(1)] by (simp add: safe_from_def run_bindP r)
  qed (use p' keeps_bind[OF p'(2) assms(2)] in \<open>simp_all add: safe_from_def run_bindP r\<close>)
qed

lemma safe_from_try:
  assumes "safe_from I Q (\<lambda>_. True) p w" "\<And>e. keeps I Q E (h e)"
  shows "safe_from I Q E (tryP p h) w"
proof -
  obtain w' p' where r: "run p w = (w', p')" by (cases "run p w")
  have p': "I w'" "keeps I Q (\<lambda>_. True) p'" using assms(1) r by (simp_all add: safe_from_def)
  show ?thesis
  proof (cases p')
    case (Throw x)
    then show ?thesis using keeps_safe_from[OF assms(2)[of x] p'(1)] by (simp add: safe_from_def run_tryP r)
  qed (use p' keeps_try[OF p'(2) assms(2)] in \<open>simp_all add: safe_from_def run_tryP r\<close>)
qed

lemma keeps_run:
  assumes "\<And>w. I w \<Longrightarrow> case run p w of (w', p') \<Rightarrow> I w' \<and> keeps I Q E p'"
  shows "keeps I Q E p"
proof (rule safe_from_keeps)
  fix w assume "I w"
  from assms[OF this] show "safe_from I Q E p w" by (cases "run p w") (simp add: safe_from_def)
qed

section \<open>The event loop\<close>

record 'w machine =
  world :: 'w
  pending :: "('w, unit) prog list"
  sent :: "operation list"
  uncaught :: "js_error list"

datatype 'e action = Event 'e | Settle nat outcome

definition start :: "('w, unit) prog \<Rightarrow> 'w machine \<Rightarrow> 'w machine" where
  "start p m =
     (let (w, p') = run p (world m)
      in case p' of
           Await c k \<Rightarrow> m\<lparr>world := w, pending := pending m @ [p'], sent := sent m @ [c]\<rparr>
         | Throw e \<Rightarrow> m\<lparr>world := w, uncaught := uncaught m @ [e]\<rparr>
         | _ \<Rightarrow> m\<lparr>world := w\<rparr>)"

definition settle :: "nat \<Rightarrow> outcome \<Rightarrow> 'w machine \<Rightarrow> 'w machine" where
  "settle i r m =
     (if i < length (pending m)
      then case pending m ! i of
             Await c k \<Rightarrow> start (k r) (m\<lparr>pending := take i (pending m) @ drop (Suc i) (pending m)\<rparr>)
           | _ \<Rightarrow> m
      else m)"

fun perform :: "('e \<Rightarrow> ('w, unit) prog) \<Rightarrow> 'e action \<Rightarrow> 'w machine \<Rightarrow> 'w machine" where
  "perform handler (Event e) m = start (handler e) m"
| "perform handler (Settle i r) m = settle i r m"

definition idle :: "'w \<Rightarrow> 'w machine" where
  "idle w = \<lparr>world = w, pending = [], sent = [], uncaught = []\<rparr>"

inductive reachable :: "('e \<Rightarrow> ('w, unit) prog) \<Rightarrow> 'w machine \<Rightarrow> 'w machine \<Rightarrow> bool" for handler m0 where
  here: "reachable handler m0 m0"
| step: "reachable handler m0 m \<Longrightarrow> reachable handler m0 (perform handler a m)"

inductive_cases reachableE: "reachable handler m0 m"

lemma reachable_fold: "reachable handler m0 (fold (perform handler) as m0)"
proof (induction as rule: rev_induct)
  case Nil
  show ?case by (simp add: reachable.here)
next
  case (snoc a as)
  then show ?case by (simp add: reachable.step)
qed

lemma reachable_trace: "reachable handler m0 m \<Longrightarrow> \<exists>as. m = fold (perform handler) as m0"
proof (induction rule: reachable.induct)
  case here
  show ?case by (rule exI[of _ "[]"]) simp
next
  case (step m a)
  then obtain as where "m = fold (perform handler) as m0" by blast
  then show ?case by (intro exI[of _ "as @ [a]"]) simp
qed

text \<open>Event \<^verbatim>\<open>e\<close> has occurred in a sequence of actions, when the page was in state \<^verbatim>\<open>w\<close>.\<close>

definition occurred ::
  "('e \<Rightarrow> ('w, unit) prog) \<Rightarrow> 'w machine \<Rightarrow> 'e action list \<Rightarrow> 'e \<Rightarrow> 'w \<Rightarrow> bool" where
  "occurred handler m0 as e w \<longleftrightarrow>
     (\<exists>as1 as2. as = as1 @ Event e # as2 \<and> w = world (fold (perform handler) as1 m0))"

lemma occurred_snoc: "occurred handler m0 as e w \<Longrightarrow> occurred handler m0 (as @ [a]) e w"
  by (fastforce simp: occurred_def)

lemma occurred_last: "occurred handler m0 (as @ [Event e]) e (world (fold (perform handler) as m0))"
  by (auto simp: occurred_def)

locale page_trace =
  fixes handler :: "'e \<Rightarrow> ('w, unit) prog" and I :: "'w \<Rightarrow> bool" and Q :: "'e \<Rightarrow> 'w \<Rightarrow> operation \<Rightarrow> bool"
    and E :: "js_error \<Rightarrow> bool"
  assumes handler_safe: "I w \<Longrightarrow> safe_from I (Q e w) E (handler e) w"
begin

definition trace_ok :: "'w machine \<Rightarrow> 'e action list \<Rightarrow> 'w machine \<Rightarrow> bool" where
  "trace_ok m0 as m \<longleftrightarrow> I (world m) \<and>
     (\<forall>p \<in> set (pending m). \<exists>e w. occurred handler m0 as e w \<and> keeps I (Q e w) E p) \<and>
     (\<forall>c \<in> set (sent m). \<exists>e w. occurred handler m0 as e w \<and> Q e w c) \<and> (\<forall>x \<in> set (uncaught m). E x)"

lemma trace_ok_snoc: "trace_ok m0 as m \<Longrightarrow> trace_ok m0 (as @ [a]) m"
  unfolding trace_ok_def using occurred_snoc by metis

lemma start_ok:
  assumes "trace_ok m0 as m" "occurred handler m0 as e v" "safe_from I (Q e v) E p (world m)"
  shows "trace_ok m0 as (start p m)"
proof -
  obtain w q where r: "run p (world m) = (w, q)" by (cases "run p (world m)")
  have w: "I w" and q: "keeps I (Q e v) E q" using assms(3) by (simp_all add: safe_from_def r)
  show ?thesis
  proof (cases q)
    case (Throw x)
    then have "E x" using keepsD(2)[OF q w] by simp
    then show ?thesis using assms(1) w Throw by (auto simp: start_def r trace_ok_def)
  next
    case (Await c k)
    then have "Q e v c" using keepsD(3)[OF q w] by simp
    then show ?thesis using assms(1,2) w q Await by (auto simp: start_def r trace_ok_def)
  qed (use assms(1) w in \<open>auto simp: start_def r trace_ok_def\<close>)
qed

lemma settle_ok:
  assumes "trace_ok m0 as m"
  shows "trace_ok m0 as (settle i r m)"
proof (cases "i < length (pending m) \<and> (\<exists>c k. pending m ! i = Await c k)")
  case True
  then obtain c k where k: "pending m ! i = Await c k" "i < length (pending m)" by blast
  let ?m = "m\<lparr>pending := take i (pending m) @ drop (Suc i) (pending m)\<rparr>"
  have w: "I (world m)" using assms by (simp add: trace_ok_def)
  obtain e v where o: "occurred handler m0 as e v" and p: "keeps I (Q e v) E (Await c k)"
    using assms k unfolding trace_ok_def by (metis nth_mem)
  have "keeps I (Q e v) E (k r)" using keepsD(4)[OF p w] by simp
  then have "safe_from I (Q e v) E (k r) (world ?m)" using w by (intro keeps_safe_from) simp_all
  moreover have "trace_ok m0 as ?m" using assms by (auto simp: trace_ok_def dest: in_set_takeD in_set_dropD)
  ultimately show ?thesis using k o by (simp add: settle_def start_ok)
next
  case False
  then show ?thesis using assms by (auto simp: settle_def split: prog.split)
qed

lemma run_ok:
  assumes "I w"
  shows "trace_ok (idle w) as (fold (perform handler) as (idle w))"
proof (induction as rule: rev_induct)
  case Nil
  then show ?case using assms by (simp add: trace_ok_def idle_def)
next
  case (snoc a as)
  let ?m = "fold (perform handler) as (idle w)"
  note ok = trace_ok_snoc[OF snoc, of a]
  show ?case
  proof (cases a)
    case (Event e)
    have "I (world ?m)" using snoc by (simp add: trace_ok_def)
    from start_ok[OF ok _ handler_safe[OF this, of e]] show ?thesis using occurred_last[of handler "idle w" as e] Event by simp
  qed (use settle_ok[OF ok] in simp)
qed

lemma world_inv: "I w \<Longrightarrow> I (world (fold (perform handler) as (idle w)))"
  using run_ok[of w as] by (simp add: trace_ok_def)

lemma sent_caused:
  assumes "I w" "c \<in> set (sent (fold (perform handler) as (idle w)))"
  shows "\<exists>e v. occurred handler (idle w) as e v \<and> Q e v c"
  using run_ok[OF assms(1), of as] assms(2) unfolding trace_ok_def by blast

lemma uncaught_ok: "I w \<Longrightarrow> x \<in> set (uncaught (fold (perform handler) as (idle w))) \<Longrightarrow> E x"
  using run_ok[of w as] by (simp add: trace_ok_def)

end

locale page_safety =
  fixes handler :: "'e \<Rightarrow> ('w, unit) prog" and I :: "'w \<Rightarrow> bool" and Q :: "operation \<Rightarrow> bool"
    and E :: "js_error \<Rightarrow> bool"
  assumes handler_keeps: "keeps I Q E (handler e)"

sublocale page_safety \<subseteq> trace: page_trace handler I "\<lambda>_ _. Q" E
  by unfold_locales (rule keeps_safe_from[OF handler_keeps])

context page_safety
begin

lemma world_inv:
  assumes "reachable handler (idle w) m" "I w"
  shows "I (world m)"
  using reachable_trace[OF assms(1)] trace.world_inv[OF assms(2)] by blast

lemma sent_ok:
  assumes "reachable handler (idle w) m" "I w" "c \<in> set (sent m)"
  shows "Q c"
  using reachable_trace[OF assms(1)] trace.sent_caused[OF assms(2)] assms(3) by blast

lemma uncaught_ok:
  assumes "reachable handler (idle w) m" "I w" "e \<in> set (uncaught m)"
  shows "E e"
  using reachable_trace[OF assms(1)] trace.uncaught_ok[OF assms(2)] assms(3) by blast

end

section \<open>One event at a time\<close>

text \<open>
  \<^verbatim>\<open>alone\<close> runs a function to its end with nothing in between: every operation it awaits is
  answered at once by \<^verbatim>\<open>srv\<close>, the other side with a state of its own. \<^verbatim>\<open>alone_runs\<close> says that this
  is one of the ways the event loop can go.
\<close>

primrec alone :: "('s \<Rightarrow> operation \<Rightarrow> 's \<times> outcome) \<Rightarrow> ('w, 'a) prog \<Rightarrow> 's \<Rightarrow> 'w \<Rightarrow> 's \<times> 'w \<times> 'a js" where
  "alone srv (Return x) s w = (s, w, Inr x)"
| "alone srv (Throw e) s w = (s, w, Inl e)"
| "alone srv (Get k) s w = alone srv (k w) s w"
| "alone srv (Put w' p) s w = alone srv p s w'"
| "alone srv (Await c k) s w = (let (s', r) = srv s c in alone srv (k r) s' w)"

lemma alone_basic [simp]:
  "alone srv (gets f) s w = (s, w, Inr (f w))"
  "alone srv (modify g) s w = (s, g w, Inr ())"
  "alone srv (whenP c p) s w = (if c then alone srv p s w else (s, w, Inr ()))"
  by (simp_all add: gets_def modify_def whenP_def)

lemma alone_bind: "alone srv (bindP p f) s w =
    (case alone srv p s w of (s', w', Inl e) \<Rightarrow> (s', w', Inl e) | (s', w', Inr x) \<Rightarrow> alone srv (f x) s' w')"
  by (induction p arbitrary: s w) (simp_all split: prod.split)

lemma alone_try: "alone srv (tryP p h) s w =
    (case alone srv p s w of (s', w', Inl e) \<Rightarrow> alone srv (h e) s' w' | (s', w', Inr x) \<Rightarrow> (s', w', Inr x))"
  by (induction p arbitrary: s w) (simp_all split: prod.split)

lemma alone_run: "alone srv p s w = (let (w', p') = run p w in alone srv p' s w')"
  by (induction p arbitrary: w) simp_all

lemma alone_return: "run p w = (w', Return x) \<Longrightarrow> alone srv p s w = (s, w', Inr x)"
  by (subst alone_run) simp

lemma start_effects [simp]:
  "start (Get k) m = start (k (world m)) m"
  "start (Put w p) m = start p (m\<lparr>world := w\<rparr>)"
  by (simp_all add: start_def split: prod.split prog.split)

lemma settle_first [simp]:
  "settle 0 r \<lparr>world = w, pending = [Await c k], sent = qs, uncaught = es\<rparr>
     = start (k r) \<lparr>world = w, pending = [], sent = qs, uncaught = es\<rparr>"
  by (simp add: settle_def)

lemma reachable_settled: "reachable handler m0 m \<Longrightarrow> reachable handler m0 (fold (\<lambda>o'. settle 0 o') rs m)"
proof (induction rs arbitrary: m)
  case (Cons r rs)
  from reachable.step[OF Cons.prems, of "Settle 0 r"] have "reachable handler m0 (settle 0 r m)" by simp
  then show ?case using Cons.IH by simp
qed simp

lemma alone_runs:
  assumes "alone srv p s w = (s', w', r)"
  shows "\<exists>rs cs. fold (\<lambda>o'. settle 0 o') rs (start p \<lparr>world = w, pending = [], sent = qs, uncaught = es\<rparr>)
    = \<lparr>world = w', pending = [], sent = qs @ cs, uncaught = es @ (case r of Inl e \<Rightarrow> [e] | Inr _ \<Rightarrow> [])\<rparr>"
  using assms
proof (induction p arbitrary: s w qs)
  case (Return x)
  show ?case by (rule exI[of _ "[]"], rule exI[of _ "[]"]) (use Return in \<open>auto simp: start_def\<close>)
next
  case (Throw e)
  show ?case by (rule exI[of _ "[]"], rule exI[of _ "[]"]) (use Throw in \<open>auto simp: start_def\<close>)
next
  case (Get k)
  then show ?case by simp
next
  case (Put v p)
  then show ?case by simp
next
  case (Await c k)
  obtain t o' where o: "srv s c = (t, o')" by (cases "srv s c")
  then have "alone srv (k o') t w = (s', w', r)" using Await.prems by simp
  from Await.IH[OF _ this, of "qs @ [c]"] obtain rs cs where
    "fold (\<lambda>o'. settle 0 o') rs (start (k o') \<lparr>world = w, pending = [], sent = qs @ [c], uncaught = es\<rparr>)
      = \<lparr>world = w', pending = [], sent = qs @ c # cs, uncaught = es @ (case r of Inl e \<Rightarrow> [e] | Inr _ \<Rightarrow> [])\<rparr>"
    by auto
  then show ?case
    by (intro exI[of _ "o' # rs"] exI[of _ "c # cs"]) (simp add: start_def[of "Await c k"])
qed

end
