(* ===== verification/Dom.thy ===== *)
theory Dom
  imports Web
begin

text \<open>
  The form helpers of \<^verbatim>\<open>frontend/js/util.js\<close>, over a page whose elements are found by their id.

  \<^item> An element keeps the attributes the code touches. Using an element that is not in the page
    is a \<^verbatim>\<open>TypeError\<close>, as is the property access on \<^verbatim>\<open>null\<close>.
  \<^item> \<^verbatim>\<open>with_error\<close> and \<^verbatim>\<open>without_error\<close> say what a validator leaves behind; \<^verbatim>\<open>validateUsername\<close> and
    \<^verbatim>\<open>validatePassword\<close> are proved to return what they show.
\<close>

section \<open>Pages\<close>

record element =
  el_value :: jstr
  el_text :: jstr
  el_classes :: "string list"
  el_opacity :: string
  el_visibility :: string
  el_display :: string
  el_cursor :: string
  el_disabled :: bool

type_synonym doc = "string \<Rightarrow> element option"

text \<open>\<^verbatim>\<open>downloads\<close> are the files (name and content) the browser was told to save.\<close>

record page =
  doc :: doc
  location :: string
  downloads :: "(jstr \<times> jstr) list"

definition get_el :: "string \<Rightarrow> ('x page_scheme, element) prog" where
  "get_el i = Get (\<lambda>w. case doc w i of None \<Rightarrow> Throw TypeError | Some e \<Rightarrow> Return e)"

definition set_el :: "string \<Rightarrow> (element \<Rightarrow> element) \<Rightarrow> ('x page_scheme, unit) prog" where
  "set_el i f = Get (\<lambda>w. case doc w i of None \<Rightarrow> Throw TypeError
                       | Some e \<Rightarrow> Put (w\<lparr>doc := (doc w)(i \<mapsto> f e)\<rparr>) (Return ()))"

definition go_to :: "string \<Rightarrow> ('x page_scheme, unit) prog" where
  "go_to url = modify (\<lambda>w. w\<lparr>location := url\<rparr>)"

definition set_value :: "string \<Rightarrow> jstr \<Rightarrow> ('x page_scheme, unit) prog" where
  "set_value i v = set_el i (\<lambda>e. e\<lparr>el_value := v\<rparr>)"

definition set_display :: "string \<Rightarrow> string \<Rightarrow> ('x page_scheme, unit) prog" where
  "set_display i v = set_el i (\<lambda>e. e\<lparr>el_display := v\<rparr>)"

section \<open>Form helpers\<close>

definition USERNAME_LEN :: nat where "USERNAME_LEN = 3"

definition PASSWORD_LEN :: nat where "PASSWORD_LEN = 7"

definition error_id :: "string \<Rightarrow> string" where
  "error_id i = i @ ''-error''"

text \<open>The change to the error element, if the page has one.\<close>

definition if_present :: "string \<Rightarrow> (element \<Rightarrow> element) \<Rightarrow> ('x page_scheme, unit) prog" where
  "if_present i f = Get (\<lambda>w. case doc w i of None \<Rightarrow> Return () | Some _ \<Rightarrow> set_el i f)"

definition setErrorAttached :: "string \<Rightarrow> jstr \<Rightarrow> ('x page_scheme, unit) prog" where
  "setErrorAttached i message =
     bindP (set_el i (\<lambda>e. e\<lparr>el_classes := List.insert ''invalid'' (el_classes e)\<rparr>)) (\<lambda>_.
     if_present (error_id i) (\<lambda>e. e\<lparr>el_text := message, el_visibility := ''visible''\<rparr>))"

definition clearError :: "string \<Rightarrow> ('x page_scheme, unit) prog" where
  "clearError i =
     bindP (set_el i (\<lambda>e. e\<lparr>el_classes := removeAll ''invalid'' (el_classes e)\<rparr>)) (\<lambda>_.
     if_present (error_id i) (\<lambda>e. e\<lparr>el_text := [], el_visibility := ''hidden''\<rparr>))"

definition elementMakeInvisible :: "string \<Rightarrow> ('x page_scheme, unit) prog" where
  "elementMakeInvisible i = set_el i (\<lambda>e. e\<lparr>el_opacity := ''0''\<rparr>)"

definition elementSetText :: "string \<Rightarrow> jstr \<Rightarrow> ('x page_scheme, unit) prog" where
  "elementSetText i message =
     set_el i (\<lambda>e. e\<lparr>el_opacity := ''1'', el_text := message, el_visibility := ''visible''\<rparr>)"

definition validateUsername :: "string \<Rightarrow> ('x page_scheme, bool) prog" where
  "validateUsername i =
     bindP (get_el i) (\<lambda>e.
     let username = trim (el_value e)
     in if length username < USERNAME_LEN
        then bindP (setErrorAttached i (lit ''Username must be at least 3 characters'')) (\<lambda>_. Return False)
        else bindP (clearError i) (\<lambda>_. Return True))"

definition validatePassword :: "string \<Rightarrow> ('x page_scheme, bool) prog" where
  "validatePassword i =
     bindP (get_el i) (\<lambda>e.
     let password = trim (el_value e)
     in if length password < PASSWORD_LEN
        then bindP (setErrorAttached i (lit ''Password must be at least 7 characters'')) (\<lambda>_. Return False)
        else bindP (clearError i) (\<lambda>_. Return True))"

text \<open>
  The validation loop of the login and the signup form: every field is checked, an empty one
  without asking its validator, and the form is valid if all fields are.
\<close>

fun validate_all :: "(string \<times> (string \<Rightarrow> ('x page_scheme, bool) prog)) list \<Rightarrow> ('x page_scheme, bool) prog" where
  "validate_all [] = Return True"
| "validate_all ((i, validator) # rest) =
     bindP (get_el i) (\<lambda>e.
     bindP (if trim (el_value e) = []
            then bindP (setErrorAttached i (lit ''This field is required.'')) (\<lambda>_. Return False)
            else validator i) (\<lambda>ok.
     bindP (validate_all rest) (\<lambda>oks. Return (ok \<and> oks))))"

section \<open>What the helpers do\<close>

lemma error_id_neq [simp]: "error_id i \<noteq> i" "i \<noteq> error_id i"
  by (simp_all add: error_id_def)

definition on_doc :: "string \<Rightarrow> (element \<Rightarrow> element) \<Rightarrow> doc \<Rightarrow> doc" where
  "on_doc i f d = (case d i of None \<Rightarrow> d | Some e \<Rightarrow> d(i \<mapsto> f e))"

lemma on_doc_apply: "on_doc i f d j = (if j = i then map_option f (d i) else d j)"
  by (auto simp: on_doc_def split: option.splits)

definition with_error :: "string \<Rightarrow> jstr \<Rightarrow> doc \<Rightarrow> doc" where
  "with_error i message d =
     on_doc (error_id i) (\<lambda>e. e\<lparr>el_text := message, el_visibility := ''visible''\<rparr>)
       (on_doc i (\<lambda>e. e\<lparr>el_classes := List.insert ''invalid'' (el_classes e)\<rparr>) d)"

definition without_error :: "string \<Rightarrow> doc \<Rightarrow> doc" where
  "without_error i d =
     on_doc (error_id i) (\<lambda>e. e\<lparr>el_text := [], el_visibility := ''hidden''\<rparr>)
       (on_doc i (\<lambda>e. e\<lparr>el_classes := removeAll ''invalid'' (el_classes e)\<rparr>) d)"

lemma run_get_el [run_simps]: "doc w i = Some e \<Longrightarrow> run (get_el i) w = (w, Return e)"
  by (simp add: get_el_def)

lemma run_set_el: "doc w i \<noteq> None \<Longrightarrow> run (set_el i f) w = (w\<lparr>doc := on_doc i f (doc w)\<rparr>, Return ())"
  by (auto simp: set_el_def on_doc_def)

lemma run_set_el_missing: "doc w i = None \<Longrightarrow> run (set_el i f) w = (w, Throw TypeError)"
  by (simp add: set_el_def)

lemma run_if_present [run_simps]: "run (if_present i f) w = (w\<lparr>doc := on_doc i f (doc w)\<rparr>, Return ())"
  by (auto simp: if_present_def set_el_def on_doc_def split: option.split)

lemma run_setErrorAttached [run_simps]:
  assumes "doc w i \<noteq> None"
  shows "run (setErrorAttached i message) w = (w\<lparr>doc := with_error i message (doc w)\<rparr>, Return ())"
  unfolding setErrorAttached_def by (simp add: run_bindP run_set_el[OF assms] run_if_present with_error_def)

lemma run_clearError [run_simps]:
  assumes "doc w i \<noteq> None"
  shows "run (clearError i) w = (w\<lparr>doc := without_error i (doc w)\<rparr>, Return ())"
  unfolding clearError_def by (simp add: run_bindP run_set_el[OF assms] run_if_present without_error_def)

text \<open>A validator shows the error and returns false, or clears it and returns true.\<close>

definition checked :: "string \<Rightarrow> bool \<Rightarrow> jstr \<Rightarrow> doc \<Rightarrow> doc" where
  "checked i valid message d = (if valid then without_error i d else with_error i message d)"

lemma run_validateUsername [run_simps]:
  assumes "doc w i = Some e"
  shows "run (validateUsername i) w =
    (let ok = 3 \<le> length (trim (el_value e))
     in (w\<lparr>doc := checked i ok (lit ''Username must be at least 3 characters'') (doc w)\<rparr>, Return ok))"
  using assms by (simp add: validateUsername_def run_bindP run_get_el run_setErrorAttached run_clearError
      USERNAME_LEN_def checked_def)

lemma run_validatePassword [run_simps]:
  assumes "doc w i = Some e"
  shows "run (validatePassword i) w =
    (let ok = 7 \<le> length (trim (el_value e))
     in (w\<lparr>doc := checked i ok (lit ''Password must be at least 7 characters'') (doc w)\<rparr>, Return ok))"
  using assms by (simp add: validatePassword_def run_bindP run_get_el run_setErrorAttached run_clearError
      PASSWORD_LEN_def checked_def)

text \<open>Neither touches what the user typed, nor any element but the field and its error.\<close>

lemma checked_other: "j \<noteq> i \<Longrightarrow> j \<noteq> error_id i \<Longrightarrow> checked i ok message d j = d j"
  by (simp add: checked_def with_error_def without_error_def on_doc_apply)

lemma checked_value: "map_option el_value (checked i ok message d j) = map_option el_value (d j)"
  by (auto simp: checked_def with_error_def without_error_def on_doc_apply option.map_comp comp_def)

lemma checked_shows:
  assumes "d i = Some e"
  shows "\<exists>e'. checked i ok message d i = Some e' \<and> (''invalid'' \<in> set (el_classes e') \<longleftrightarrow> \<not> ok)"
  using assms by (auto simp: checked_def with_error_def without_error_def on_doc_apply)

section \<open>What the user typed\<close>

text \<open>The values of all fields; showing errors does not change them.\<close>

definition form_of :: "'x page_scheme \<Rightarrow> string \<Rightarrow> jstr option" where
  "form_of w i = map_option el_value (doc w i)"

definition form_only :: "('x page_scheme \<Rightarrow> bool) \<Rightarrow> bool" where
  "form_only I \<longleftrightarrow> (\<forall>w d. I w \<longrightarrow> (\<forall>j. map_option el_value (d j) = form_of w j) \<longrightarrow> I (w\<lparr>doc := d\<rparr>))"

definition has_element :: "('x page_scheme \<Rightarrow> bool) \<Rightarrow> string \<Rightarrow> bool" where
  "has_element I i \<longleftrightarrow> (\<forall>w. I w \<longrightarrow> doc w i \<noteq> None)"

lemma form_onlyD: "form_only I \<Longrightarrow> I w \<Longrightarrow> (\<And>j. map_option el_value (d j) = form_of w j) \<Longrightarrow> I (w\<lparr>doc := d\<rparr>)"
  by (simp add: form_only_def)

lemma has_elementE: "has_element I i \<Longrightarrow> I w \<Longrightarrow> (\<And>e. doc w i = Some e \<Longrightarrow> thesis) \<Longrightarrow> thesis"
  by (auto simp: has_element_def)

lemma on_doc_form: "(\<And>e. el_value (f e) = el_value e) \<Longrightarrow> map_option el_value (on_doc i f d j) = map_option el_value (d j)"
  by (simp add: on_doc_apply option.map_comp comp_def)

lemma form_set_value: "doc w i \<noteq> None \<Longrightarrow> run (set_value i v) w =
    (w\<lparr>doc := on_doc i (\<lambda>e. e\<lparr>el_value := v\<rparr>) (doc w)\<rparr>, Return ())"
  by (simp add: set_value_def run_set_el)

lemma form_of_set_value: "form_of (w\<lparr>doc := on_doc i (\<lambda>e. e\<lparr>el_value := v\<rparr>) (doc w)\<rparr>) j =
    (if j = i then map_option (\<lambda>_. v) (form_of w i) else form_of w j)"
  by (simp add: form_of_def on_doc_apply option.map_comp comp_def)

lemma keeps_get_el:
  assumes "has_element I i" "\<And>w e. I w \<Longrightarrow> doc w i = Some e \<Longrightarrow> keeps I Q E (f e)"
  shows "keeps I Q E (bindP (get_el i) f)"
  unfolding get_el_def bindP.simps by (rule keeps_get) (use assms in \<open>auto elim!: has_elementE\<close>)

lemma keeps_set_el:
  assumes "has_element I i" "form_only I" "\<And>e. el_value (f e) = el_value e"
  shows "keeps I Q E (set_el i f)"
proof (rule keeps_run)
  fix w assume I: "I w"
  then have "doc w i \<noteq> None" using assms(1) by (auto elim: has_elementE)
  from run_set_el[OF this] show "case run (set_el i f) w of (w', p') \<Rightarrow> I w' \<and> keeps I Q E p'"
    using form_onlyD[OF assms(2) I] on_doc_form[OF assms(3)] by (simp add: form_of_def)
qed

lemma keeps_if_present:
  assumes "form_only I" "\<And>e. el_value (f e) = el_value e"
  shows "keeps I Q E (if_present i f)"
  by (rule keeps_run) (use form_onlyD[OF assms(1)] on_doc_form[OF assms(2)] in \<open>simp add: run_if_present form_of_def\<close>)

lemmas keeps_el = keeps_set_el keeps_if_present

lemma keeps_form:
  assumes "has_element I i" "form_only I"
  shows "keeps I Q E (setErrorAttached i message)" "keeps I Q E (clearError i)" "keeps I Q E (elementMakeInvisible i)"
    "keeps I Q E (elementSetText i message)" "keeps I Q E (set_display i s)"
  unfolding setErrorAttached_def clearError_def elementMakeInvisible_def elementSetText_def set_display_def
  using assms by (auto intro!: keeps_bind keeps_el)

lemma keeps_validate:
  assumes "has_element I i" "form_only I"
  shows "keeps I Q E (validateUsername i)" "keeps I Q E (validatePassword i)"
  unfolding validateUsername_def validatePassword_def Let_def
  by (rule keeps_get_el[OF assms(1)]; use assms in \<open>auto intro!: keeps_bind keeps_form\<close>)+

lemma keeps_validate_all:
  assumes "form_only I" "\<And>i v. (i, v) \<in> set vs \<Longrightarrow> has_element I i \<and> keeps I Q E (v i)"
  shows "keeps I Q E (validate_all vs)"
  using assms(2)
proof (induction vs)
  case (Cons iv vs)
  obtain i v where iv: "iv = (i, v)" by (cases iv)
  have "has_element I i" "keeps I Q E (v i)" "keeps I Q E (validate_all vs)" using Cons by (auto simp: iv)
  then show ?case using assms(1) unfolding iv validate_all.simps
    by (intro keeps_get_el) (auto intro!: keeps_bind keeps_form(1))
qed simp

text \<open>
  A validator reports: it only shows errors, and returns whether the form (the values of all
  fields) satisfies \<^verbatim>\<open>P\<close>.
\<close>

definition reports :: "('x page_scheme, bool) prog \<Rightarrow> ((string \<Rightarrow> jstr option) \<Rightarrow> bool) \<Rightarrow> 'x page_scheme \<Rightarrow> bool" where
  "reports p P w \<longleftrightarrow> (\<exists>d. run p w = (w\<lparr>doc := d\<rparr>, Return (P (form_of w))) \<and> form_of (w\<lparr>doc := d\<rparr>) = form_of w)"

definition value_of :: "(string \<Rightarrow> jstr option) \<Rightarrow> string \<Rightarrow> jstr" where
  "value_of form i = (case form i of None \<Rightarrow> [] | Some v \<Rightarrow> trim v)"

lemma reports_error:
  assumes "form_of w i \<noteq> None"
  shows "reports (bindP (setErrorAttached i message) (\<lambda>_. Return False)) (\<lambda>_. False) w"
proof -
  have "doc w i \<noteq> None" using assms by (simp add: form_of_def)
  moreover have "map_option el_value (with_error i message (doc w) j) = form_of w j" for j
    using checked_value[of i False message "doc w" j] by (simp add: checked_def form_of_def)
  ultimately show ?thesis
    unfolding reports_def by (auto simp: run_bindP run_setErrorAttached form_of_def fun_eq_iff)
qed

lemma reports_validateUsername:
  assumes "form_of w i \<noteq> None"
  shows "reports (validateUsername i) (\<lambda>f. 3 \<le> length (value_of f i)) w"
proof -
  obtain e where e: "doc w i = Some e" using assms by (auto simp: form_of_def)
  show ?thesis unfolding reports_def run_validateUsername[OF e]
    by (auto simp: Let_def value_of_def form_of_def e fun_eq_iff checked_value)
qed

lemma reports_validatePassword:
  assumes "form_of w i \<noteq> None"
  shows "reports (validatePassword i) (\<lambda>f. 7 \<le> length (value_of f i)) w"
proof -
  obtain e where e: "doc w i = Some e" using assms by (auto simp: form_of_def)
  show ?thesis unfolding reports_def run_validatePassword[OF e]
    by (auto simp: Let_def value_of_def form_of_def e fun_eq_iff checked_value)
qed

lemma reports_validate_all:
  assumes "\<And>i v u. (i, v) \<in> set vs \<Longrightarrow> form_of u = form_of w \<Longrightarrow> form_of u i \<noteq> None \<and> reports (v i) (P i) u"
  shows "reports (validate_all vs) (\<lambda>f. \<forall>(i, v) \<in> set vs. value_of f i \<noteq> [] \<and> P i f) w"
  using assms
proof (induction vs arbitrary: w)
  case Nil
  have "w\<lparr>doc := doc w\<rparr> = w" by simp
  then show ?case unfolding reports_def by (intro exI[of _ "doc w"]) simp
next
  case (Cons iv vs)
  obtain i v where iv: "iv = (i, v)" by (cases iv)
  have i: "form_of w i \<noteq> None" "reports (v i) (P i) w" using Cons.prems[of i v w] by (simp_all add: iv)
  obtain e where e: "doc w i = Some e" using i(1) by (auto simp: form_of_def)
  let ?empty = "trim (el_value e) = []"
  let ?p = "if ?empty then bindP (setErrorAttached i (lit ''This field is required.'')) (\<lambda>_. Return False) else v i"
  have empty: "?empty \<longleftrightarrow> value_of (form_of w) i = []" by (simp add: value_of_def form_of_def e)
  have "\<exists>d. run ?p w = (w\<lparr>doc := d\<rparr>, Return (\<not> ?empty \<and> P i (form_of w))) \<and> form_of (w\<lparr>doc := d\<rparr>) = form_of w"
    using i(2) reports_error[OF i(1), of "lit ''This field is required.''"] unfolding reports_def by (cases ?empty) auto
  then obtain d where d: "run ?p w = (w\<lparr>doc := d\<rparr>, Return (\<not> ?empty \<and> P i (form_of w)))"
    "form_of (w\<lparr>doc := d\<rparr>) = form_of w" by blast
  have "reports (validate_all vs) (\<lambda>f. \<forall>(i, v) \<in> set vs. value_of f i \<noteq> [] \<and> P i f) (w\<lparr>doc := d\<rparr>)"
  proof (rule Cons.IH)
    fix j u' and u :: "'a page_scheme" assume "(j, u') \<in> set vs" "form_of u = form_of (w\<lparr>doc := d\<rparr>)"
    then show "form_of u j \<noteq> None \<and> reports (u' j) (P j) u" using Cons.prems[of j u' u] d(2) by (simp add: iv)
  qed
  then obtain d' where d': "run (validate_all vs) (w\<lparr>doc := d\<rparr>)
      = (w\<lparr>doc := d'\<rparr>, Return (\<forall>(i, v) \<in> set vs. value_of (form_of w) i \<noteq> [] \<and> P i (form_of w)))"
    "form_of (w\<lparr>doc := d'\<rparr>) = form_of w"
    unfolding reports_def d(2) by auto
  have "run (validate_all (iv # vs)) w = (w\<lparr>doc := d'\<rparr>, Return ((\<not> ?empty \<and> P i (form_of w)) \<and>
      (\<forall>(i, v) \<in> set vs. value_of (form_of w) i \<noteq> [] \<and> P i (form_of w))))"
    unfolding iv validate_all.simps run_bind_return[OF run_get_el[OF e]] run_bind_return[OF d(1)] run_bind_return[OF d'(1)]
    by simp
  then show ?case unfolding reports_def using d'(2) by (intro exI[of _ d']) (simp add: iv empty)
qed

section \<open>Properties\<close>

text \<open>
  C20: What a validator returns is what the form shows. It accepts exactly when the trimmed value has
  the minimal length; the field is marked invalid, and its error element (if there is one) is
  visible, exactly when it does not; no other element changes and no typed value does.
\<close>
theorem validators_show_result:
  assumes "doc w i = Some e" "(p, n) = (validateUsername i, USERNAME_LEN) \<or> (p, n) = (validatePassword i, PASSWORD_LEN)"
  shows "\<exists>d ok. run p w = (w\<lparr>doc := d\<rparr>, Return ok) \<and> (ok \<longleftrightarrow> n \<le> length (trim (el_value e))) \<and>
    (\<exists>e'. d i = Some e' \<and> (''invalid'' \<in> set (el_classes e') \<longleftrightarrow> \<not> ok)) \<and>
    (case d (error_id i) of None \<Rightarrow> doc w (error_id i) = None
       | Some e' \<Rightarrow> el_visibility e' = (if ok then ''hidden'' else ''visible'') \<and> (el_text e' = [] \<longleftrightarrow> ok)) \<and>
    (\<forall>j. map_option el_value (d j) = map_option el_value (doc w j) \<and> (j = i \<or> j = error_id i \<or> d j = doc w j))"
proof -
  let ?ok = "n \<le> length (trim (el_value e))"
  obtain msg where r: "run p w = (w\<lparr>doc := checked i ?ok msg (doc w)\<rparr>, Return ?ok)" "msg \<noteq> []"
    using assms(2) run_validateUsername[of w i e] run_validatePassword[of w i e] assms(1)
    by (auto simp: USERNAME_LEN_def PASSWORD_LEN_def Let_def)
  have "case checked i ?ok msg (doc w) (error_id i) of None \<Rightarrow> doc w (error_id i) = None
       | Some e' \<Rightarrow> el_visibility e' = (if ?ok then ''hidden'' else ''visible'') \<and> (el_text e' = [] \<longleftrightarrow> ?ok)"
    using r(2) by (auto simp: checked_def with_error_def without_error_def on_doc_apply split: option.splits)
  then show ?thesis
    using r(1) checked_shows[of "doc w" i e ?ok msg, OF assms(1)] checked_value[of i ?ok msg "doc w"] checked_other[of _ i ?ok msg "doc w"]
    by blast
qed

definition blank_element :: element where
  "blank_element = \<lparr>el_value = [], el_text = [], el_classes = [], el_opacity = [], el_visibility = [],
     el_display = [], el_cursor = [], el_disabled = False\<rparr>"

theorem validators_show_result_witness:
  "\<exists>d. run (validateUsername ''username'') \<lparr>doc = (\<lambda>_. Some blank_element), location = ''/login'', downloads = []\<rparr>
     = (\<lparr>doc = d, location = ''/login'', downloads = []\<rparr>, Return False)"
proof -
  let ?w = "\<lparr>doc = (\<lambda>_. Some blank_element), location = ''/login'', downloads = []\<rparr>"
  have "doc ?w ''username'' = Some blank_element" by simp
  from validators_show_result[OF this, of "validateUsername ''username''" USERNAME_LEN] show ?thesis
    by (auto simp: blank_element_def trim_def USERNAME_LEN_def)
qed

end
