(* ===== verification/Backend.thy ===== *)
theory Backend
  imports Dom
begin

text \<open>
  \<^verbatim>\<open>frontend/js/backend.js\<close>, \<^verbatim>\<open>frontend/js/crypto.js\<close> and \<^verbatim>\<open>fetchWithErrorHandling\<close> of
  \<^verbatim>\<open>util.js\<close>: the requests the frontend makes and what becomes of their answers.

  \<^item> The functions of libsodium are not part of the repository's own code; they are the argument
    \<^verbatim>\<open>na\<close> of every function that hashes a password.
  \<^item> \<^verbatim>\<open>Headers.append\<close> accepts Latin-1 values only and throws a \<^verbatim>\<open>TypeError\<close> otherwise; it strips
    white space at both ends.
  \<^item> Console output is left out.
\<close>

section \<open>Requests with errors as exceptions\<close>

definition fetchWithErrorHandling :: "request \<Rightarrow> ('w, response) prog" where
  "fetchWithErrorHandling rq =
     bindP (await (Fetch rq)) (\<lambda>r. if \<not> resp_ok r then Throw (ErrorMsg (resp_text r)) else Return r)"

definition response_json :: "response \<Rightarrow> ('w, server_json) prog" where
  "response_json r = (case resp_json r of None \<Rightarrow> Throw SyntaxError | Some j \<Rightarrow> Return j)"

definition json_request :: "string \<Rightarrow> string \<Rightarrow> (string \<times> jstr) list \<Rightarrow> (string \<times> jstr) list \<Rightarrow> request" where
  "json_request url meth extra obj =
     \<lparr>req_url = url, req_method = meth, req_headers = (''Content-Type'', lit ''application/json'') # extra,
      req_body = Json obj\<rparr>"

section \<open>Passwords\<close>

record sodium =
  crypto_generichash :: "nat \<Rightarrow> int list \<Rightarrow> int list"
  from_string :: "jstr \<Rightarrow> int list"
  to_base64 :: "int list \<Rightarrow> jstr"
  randombytes_buf :: "nat \<Rightarrow> int list js"

definition HASH_LENGTH :: nat where "HASH_LENGTH = 24"

definition hash_of :: "sodium \<Rightarrow> jstr \<Rightarrow> jstr" where
  "hash_of na plainPassword = to_base64 na (crypto_generichash na HASH_LENGTH (from_string na plainPassword))"

definition hashPassword :: "sodium \<Rightarrow> jstr \<Rightarrow> ('w, jstr) prog" where
  "hashPassword na plainPassword = bindP (await SodiumReady) (\<lambda>_. Return (hash_of na plainPassword))"

definition BackendLoginUserPassword :: "sodium \<Rightarrow> jstr \<Rightarrow> jstr \<Rightarrow> jstr \<Rightarrow> ('w, response) prog" where
  "BackendLoginUserPassword na username password totp =
     bindP (hashPassword na password) (\<lambda>hashedPassword.
     fetchWithErrorHandling (json_request ''/api/auth/password'' ''POST'' []
       [(''name'', username), (''password'', hashedPassword), (''totp'', totp)]))"

definition BackendRegisterUserPassword :: "sodium \<Rightarrow> jstr \<Rightarrow> jstr \<Rightarrow> ('w, jstr) prog" where
  "BackendRegisterUserPassword na username password =
     bindP (hashPassword na password) (\<lambda>hashedPassword.
     bindP (fetchWithErrorHandling (json_request ''/api/register/password'' ''POST''
       [(''Auth-Method'', lit ''password'')] [(''name'', trim username), (''password'', hashedPassword)]))
       (\<lambda>result. Return (resp_text result)))"

section \<open>Files and directories\<close>

definition BackendFetchUserRoots :: "('w, server_json) prog" where
  "BackendFetchUserRoots =
     bindP (fetchWithErrorHandling
       \<lparr>req_url = ''/api/filesystem/roots'', req_method = ''GET'', req_headers = [], req_body = NoBody\<rparr>) response_json"

definition BackendDirLookup :: "jstr \<Rightarrow> ('w, server_json) prog" where
  "BackendDirLookup directoryId =
     bindP (fetchWithErrorHandling (json_request ''/api/filesystem/dirLookup'' ''POST'' [] [(''directory'', directoryId)]))
       response_json"

definition BackendDirCreate :: "jstr \<Rightarrow> jstr \<Rightarrow> ('w, unit) prog" where
  "BackendDirCreate directory nm =
     bindP (fetchWithErrorHandling (json_request ''/api/filesystem/dir'' ''POST'' [] [(''name'', nm), (''directory'', directory)]))
       (\<lambda>_. Return ())"

definition BackendDirDelete :: "jstr \<Rightarrow> ('w, unit) prog" where
  "BackendDirDelete directory =
     bindP (fetchWithErrorHandling (json_request ''/api/filesystem/dir'' ''DELETE'' [] [(''file'', directory)])) (\<lambda>_. Return ())"

definition BackendFileCreate :: "jstr \<Rightarrow> jstr \<Rightarrow> ('w, unit) prog" where
  "BackendFileCreate directory nm =
     bindP (fetchWithErrorHandling (json_request ''/api/filesystem/file'' ''POST'' [] [(''name'', nm), (''directory'', directory)]))
       (\<lambda>_. Return ())"

definition BackendFileDelete :: "jstr \<Rightarrow> ('w, unit) prog" where
  "BackendFileDelete fileId =
     bindP (fetchWithErrorHandling (json_request ''/api/filesystem/file'' ''DELETE'' [] [(''file'', fileId)])) (\<lambda>_. Return ())"

text \<open>\<^verbatim>\<open>Headers.append\<close>: the value as a byte string, normalised.\<close>

definition http_space :: "16 word \<Rightarrow> bool" where
  "http_space c \<longleftrightarrow> c = 9 \<or> c = 10 \<or> c = 13 \<or> c = 32"

definition header_text :: "jstr \<Rightarrow> jstr option" where
  "header_text v =
     (if list_ex (\<lambda>c. 255 < c) v then None
      else let v = rev (dropWhile http_space (rev (dropWhile http_space v)))
           in if 0 \<in> set v \<or> 10 \<in> set v \<or> 13 \<in> set v then None else Some v)"

definition header_append :: "string \<Rightarrow> jstr \<Rightarrow> (string \<times> jstr) list \<Rightarrow> (string \<times> jstr) list js" where
  "header_append nm v hs = (case header_text v of None \<Rightarrow> Inl TypeError | Some t \<Rightarrow> Inr (hs @ [(nm, t)]))"

definition of_js :: "'a js \<Rightarrow> ('w, 'a) prog" where
  "of_js r = (case r of Inl e \<Rightarrow> Throw e | Inr x \<Rightarrow> Return x)"

record upload =
  file_name :: jstr
  file_data :: jstr

definition BackendFileUpload :: "upload \<Rightarrow> jstr \<Rightarrow> ('w, unit) prog" where
  "BackendFileUpload f fileId =
     bindP (of_js (header_append ''file-name'' (file_name f) [])) (\<lambda>headers.
     bindP (of_js (header_append ''directory'' fileId headers)) (\<lambda>headers.
     tryP (bindP (fetchWithErrorHandling \<lparr>req_url = ''/api/filesystem/upload'', req_method = ''POST'',
                    req_headers = headers, req_body = File (file_data f)\<rparr>) (\<lambda>_. Return ()))
       (\<lambda>_. Return ())))"

text \<open>
  The regular expression \<^verbatim>\<open>/filename="?([^"]+)"?/\<close>: at the first place where it matches, the group
  is the longest run without quotes after an optional quote (code unit 34).
\<close>

definition match_here :: "jstr \<Rightarrow> jstr option" where
  "match_here s =
     (if take 9 s \<noteq> lit ''filename='' then None
      else let r = drop 9 s; r = (case r of [] \<Rightarrow> [] | c # cs \<Rightarrow> if c = 34 then cs else r);
               group = takeWhile (\<lambda>c. c \<noteq> 34) r
           in if group = [] then None else Some group)"

fun match_filename :: "jstr \<Rightarrow> jstr option" where
  "match_filename [] = None"
| "match_filename (c # cs) = (case match_here (c # cs) of Some g \<Rightarrow> Some g | None \<Rightarrow> match_filename cs)"

definition download_name :: "jstr option \<Rightarrow> jstr" where
  "download_name contentDisposition =
     (case contentDisposition of None \<Rightarrow> lit ''download''
      | Some h \<Rightarrow> if h = [] then lit ''download''
          else case match_filename h of None \<Rightarrow> lit ''download'' | Some g \<Rightarrow> g)"

text \<open>The link that is made, clicked and removed leaves only the download.\<close>

definition BackendFileDownload :: "jstr \<Rightarrow> ('x page_scheme, unit) prog" where
  "BackendFileDownload fileId =
     bindP (of_js (header_append ''file'' fileId [])) (\<lambda>headers.
     bindP (fetchWithErrorHandling \<lparr>req_url = ''/api/filesystem/download'', req_method = ''POST'',
              req_headers = headers, req_body = NoBody\<rparr>) (\<lambda>response.
     modify (\<lambda>w. w\<lparr>downloads := downloads w @ [(download_name (resp_disposition response), resp_text response)]\<rparr>)))"

section \<open>What they may send\<close>

text \<open>Requests may fail in any way, so these are stated for callers that accept every error.\<close>

lemma keeps_of_js: "(\<And>e. r = Inl e \<Longrightarrow> E e) \<Longrightarrow> keeps I Q E (of_js r)"
  by (cases r) (simp_all add: of_js_def keeps_throw)

lemma keeps_fetch: "Q (Fetch rq) \<Longrightarrow> (\<And>e. E e) \<Longrightarrow> keeps I Q E (fetchWithErrorHandling rq)"
  unfolding fetchWithErrorHandling_def by (intro keeps_bind keeps_await_op keeps_if) (auto intro: keeps_throw)

lemma keeps_response_json: "(\<And>e. E e) \<Longrightarrow> keeps I Q E (response_json r)"
  by (auto simp: response_json_def intro: keeps_throw split: option.split)

lemma bind_hashPassword: "bindP (hashPassword na pw) f = bindP (await SodiumReady) (\<lambda>_. f (hash_of na pw))"
  by (simp add: hashPassword_def bindP_assoc del: bind_basic)

definition login_request :: "sodium \<Rightarrow> jstr \<Rightarrow> jstr \<Rightarrow> jstr \<Rightarrow> request" where
  "login_request na u pw t = json_request ''/api/auth/password'' ''POST'' []
     [(''name'', u), (''password'', hash_of na pw), (''totp'', t)]"

definition register_request :: "sodium \<Rightarrow> jstr \<Rightarrow> jstr \<Rightarrow> request" where
  "register_request na u pw = json_request ''/api/register/password'' ''POST''
     [(''Auth-Method'', lit ''password'')] [(''name'', u), (''password'', hash_of na pw)]"

lemma keeps_login:
  assumes "Q SodiumReady" "Q (Fetch (login_request na u pw t))" "\<And>e. E e"
  shows "keeps I Q E (BackendLoginUserPassword na u pw t)"
  unfolding BackendLoginUserPassword_def bind_hashPassword
  using assms by (intro keeps_bind keeps_await_op keeps_fetch) (simp_all add: login_request_def)

lemma keeps_register:
  assumes "Q SodiumReady" "Q (Fetch (register_request na (trim u) pw))" "\<And>e. E e"
  shows "keeps I Q E (BackendRegisterUserPassword na u pw)"
  unfolding BackendRegisterUserPassword_def bind_hashPassword
  using assms by (intro keeps_bind keeps_await_op keeps_fetch) (simp_all add: register_request_def)

section \<open>Answers\<close>

text \<open>How a request function continues once its one await has settled.\<close>

fun answer :: "outcome \<Rightarrow> response js" where
  "answer (Rejected e) = Inl e"
| "answer (Settled r) = (if resp_ok r then Inr r else Inl (ErrorMsg (resp_text r)))"

lemma fetch_await: "bindP (fetchWithErrorHandling rq) f = Await (Fetch rq) (\<lambda>o'. bindP (of_js (answer o')) f)"
proof -
  have "bindP (bindP (of_outcome o') (\<lambda>r. if \<not> resp_ok r then Throw (ErrorMsg (resp_text r)) else Return r)) f
      = bindP (of_js (answer o')) f" for o'
    by (cases o') (simp_all add: of_js_def)
  then show ?thesis by (simp add: fetchWithErrorHandling_def)
qed

lemma fetch_eq: "fetchWithErrorHandling rq = Await (Fetch rq) (\<lambda>o'. of_js (answer o'))"
  using fetch_await[of rq Return] by (simp only: bindP_Return)

lemma alone_of_js [simp]: "alone srv (of_js r) s w = (s, w, r)"
  by (cases r) (simp_all add: of_js_def)

lemma alone_fetch: "alone srv (fetchWithErrorHandling rq) s w = (case srv s (Fetch rq) of (s', o') \<Rightarrow> (s', w, answer o'))"
  by (simp add: fetch_eq)

section \<open>File names\<close>

text \<open>What the regular expression means: the text before the match, the optional quote, the group.\<close>

definition name_at :: "jstr \<Rightarrow> jstr \<Rightarrow> bool" where
  "name_at s g \<longleftrightarrow> (\<exists>q rest. s = lit ''filename='' @ q @ g @ rest \<and> q \<in> {[], [34]} \<and> g \<noteq> [] \<and>
     34 \<notin> set g \<and> (rest = [] \<or> hd rest = 34))"

lemma takeWhile_group: "34 \<notin> set g \<Longrightarrow> rest = [] \<or> hd rest = 34 \<Longrightarrow> takeWhile (\<lambda>c. c \<noteq> 34) (g @ rest) = (g :: jstr)"
  by (induction g) (cases rest, auto)

lemma after_group: "dropWhile (\<lambda>c. c \<noteq> 34) xs = [] \<or> hd (dropWhile (\<lambda>c. c \<noteq> 34) xs) = (34 :: 16 word)"
  using hd_dropWhile[of "\<lambda>c. c \<noteq> 34" xs] by blast

lemma match_here_iff: "match_here s = Some g \<longleftrightarrow> name_at s g"
proof
  assume m: "match_here s = Some g"
  let ?r = "drop 9 s"
  let ?r' = "case ?r of [] \<Rightarrow> [] | c # cs \<Rightarrow> if c = 34 then cs else ?r"
  have t: "take 9 s = lit ''filename=''" and g: "g = takeWhile (\<lambda>c. c \<noteq> 34) ?r'" "g \<noteq> []"
    using m unfolding match_here_def Let_def by (simp_all only: option.distinct option.inject split: if_splits) auto
  have s: "s = lit ''filename='' @ ?r" using append_take_drop_id[of 9 s] by (simp only: t)
  have q: "\<exists>q \<in> {[], [34]}. ?r = q @ ?r'" by (auto split: list.split)
  have "?r' = g @ dropWhile (\<lambda>c. c \<noteq> 34) ?r'" by (simp add: g(1))
  moreover have "34 \<notin> set g" using set_takeWhileD[of 34 "\<lambda>c. c \<noteq> 34" ?r'] by (auto simp: g(1))
  moreover have "dropWhile (\<lambda>c. c \<noteq> 34) ?r' = [] \<or> hd (dropWhile (\<lambda>c. c \<noteq> 34) ?r') = 34"
    by (rule after_group)
  ultimately show "name_at s g" using s q g(2) unfolding name_at_def by metis
next
  assume "name_at s g"
  then obtain q rest where s: "s = lit ''filename='' @ q @ g @ rest" "q \<in> {[], [34]}" "g \<noteq> []" "34 \<notin> set g"
    "rest = [] \<or> hd rest = 34" by (auto simp: name_at_def)
  have "take 9 s = lit ''filename=''" "drop 9 s = q @ g @ rest" by (simp_all add: s(1))
  moreover have "(case q @ g @ rest of [] \<Rightarrow> [] | c # cs \<Rightarrow> if c = 34 then cs else q @ g @ rest) = g @ rest"
    using s(2-4) by (cases g) auto
  ultimately show "match_here s = Some g"
    using s(3) takeWhile_group[OF s(4,5)] by (simp add: match_here_def Let_def)
qed

lemma match_filename_none: "match_filename s = None \<Longrightarrow> s = pre @ t \<Longrightarrow> \<not> name_at t g"
proof (induction s arbitrary: pre)
  case Nil
  then show ?case by (simp add: name_at_def)
next
  case (Cons c cs)
  show ?case
  proof (cases pre)
    case Nil
    then show ?thesis using Cons.prems match_here_iff[of t g] by (auto split: option.splits)
  next
    case (Cons d ds)
    then show ?thesis using Cons.prems Cons.IH[of ds] by (auto split: option.splits)
  qed
qed

lemma match_filename_iff:
  "match_filename s = Some g \<longleftrightarrow>
     (\<exists>pre t. s = pre @ t \<and> name_at t g \<and> (\<forall>pre' t' g'. s = pre' @ t' \<longrightarrow> name_at t' g' \<longrightarrow> length pre \<le> length pre'))"
  (is "?l s \<longleftrightarrow> ?r s")
proof (induction s)
  case Nil
  show ?case by (simp add: name_at_def)
next
  case (Cons c cs)
  show ?case
  proof (cases "match_here (c # cs)")
    case (Some g')
    then have here: "name_at (c # cs) g'" by (simp add: match_here_iff)
    have "?r (c # cs) \<longleftrightarrow> name_at (c # cs) g" using here by fastforce
    then show ?thesis using Some match_here_iff[of "c # cs" g] by auto
  next
    case None
    then have no: "\<not> name_at (c # cs) g'" for g' by (simp flip: match_here_iff)
    have "?r (c # cs) \<longleftrightarrow> ?r cs"
    proof
      assume "?r (c # cs)"
      then obtain pre t where p: "c # cs = pre @ t" "name_at t g"
        "\<forall>pre' t' g'. c # cs = pre' @ t' \<longrightarrow> name_at t' g' \<longrightarrow> length pre \<le> length pre'" by blast
      obtain pre1 where pre1: "pre = c # pre1" "cs = pre1 @ t" using p(1,2) no by (cases pre) auto
      have "length pre1 \<le> length pre'" if "cs = pre' @ t'" "name_at t' g'" for pre' t' g'
        using p(3)[rule_format, of "c # pre'" t' g'] that by (simp add: pre1(1))
      then show "?r cs" using pre1(2) p(2) by blast
    next
      assume "?r cs"
      then obtain pre t where p: "cs = pre @ t" "name_at t g"
        "\<forall>pre' t' g'. cs = pre' @ t' \<longrightarrow> name_at t' g' \<longrightarrow> length pre \<le> length pre'" by blast
      have "length (c # pre) \<le> length pre'" if "c # cs = pre' @ t'" "name_at t' g'" for pre' t' g'
        using that no p(3) by (cases pre') auto
      then show "?r (c # cs)" using p(1,2) by (metis append_Cons)
    qed
    then show ?thesis using None Cons.IH by simp
  qed
qed

lemma upload_settled: "run (tryP (bindP (of_js (answer r)) (\<lambda>_. Return ())) (\<lambda>_. Return ())) v = (v, Return ())"
  by (cases "answer r") (simp_all add: of_js_def)

lemma BackendFileUpload_eq:
  "BackendFileUpload f fileId = (case (header_text (file_name f), header_text fileId) of
      (Some a, Some b) \<Rightarrow> Await (Fetch \<lparr>req_url = ''/api/filesystem/upload'', req_method = ''POST'',
          req_headers = [(''file-name'', a), (''directory'', b)], req_body = File (file_data f)\<rparr>)
        (\<lambda>r. tryP (bindP (of_js (answer r)) (\<lambda>_. Return ())) (\<lambda>_. Return ()))
    | _ \<Rightarrow> Throw TypeError)"
  by (simp add: BackendFileUpload_def header_append_def of_js_def [where r = "Inr _"] of_js_def [where r = "Inl _"] fetch_await
      split: option.split)

lemma header_text_latin1: "list_ex (\<lambda>c. 255 < c) v \<Longrightarrow> header_text v = None"
  by (simp add: header_text_def)

section \<open>A hash function for the examples\<close>

definition example_sodium :: sodium where
  "example_sodium = \<lparr>crypto_generichash = (\<lambda>n bs. take n (rev bs @ replicate n 0)), from_string = map uint, to_base64 = map word_of_int,
     randombytes_buf = (\<lambda>n. Inr (replicate n 0))\<rparr>"

section \<open>Properties\<close>

lemma match_filename_skip: "c \<noteq> unit_of CHR ''f'' \<Longrightarrow> match_filename (c # cs) = match_filename cs"
  by (simp add: match_here_def)

lemma match_filename_first: "match_here s = Some g \<Longrightarrow> match_filename s = Some g"
  by (cases s) (simp_all add: match_here_def)

text \<open>
  C18: The name of a downloaded file is the one the server announces. The server's header is
  \<^verbatim>\<open>attachment; filename=\<close> followed by the name; with or without quotes around it, every non-empty name
  free of quotes is recovered. In general the name is the group of the leftmost match of the
  regular expression, and \<^verbatim>\<open>download\<close> when there is none.
\<close>
theorem download_name_recovers:
  "(n \<noteq> [] \<and> 34 \<notin> set n \<longrightarrow> download_name (Some (lit ''attachment; filename='' @ n)) = n \<and>
      download_name (Some (lit ''attachment; filename='' @ [34] @ n @ [34])) = n) \<and>
   download_name None = lit ''download'' \<and>
   (\<forall>h. h \<noteq> [] \<longrightarrow> (if \<exists>pre t g. h = pre @ t \<and> name_at t g
      then \<exists>pre t. h = pre @ t \<and> name_at t (download_name (Some h)) \<and>
        (\<forall>pre' t' g'. h = pre' @ t' \<longrightarrow> name_at t' g' \<longrightarrow> length pre \<le> length pre')
      else download_name (Some h) = lit ''download''))"
proof (intro conjI impI allI)
  have pre: "lit ''attachment; filename='' = lit ''attachment; '' @ lit ''filename=''" by simp
  have skip: "match_filename (lit ''attachment; '' @ s) = match_filename s" for s
    by (simp add: match_filename_skip unit_of_def del: match_filename.simps)
  have ne: "lit ''attachment; filename='' @ s \<noteq> []" for s by simp
  assume n: "n \<noteq> [] \<and> 34 \<notin> set n"
  have "name_at (lit ''filename='' @ n) n" "name_at (lit ''filename='' @ [34] @ n @ [34]) n"
    using n unfolding name_at_def by (intro exI[of _ "[]"] exI[of _ "[34]"]; simp)+
  then have "match_filename (lit ''filename='' @ n) = Some n" "match_filename (lit ''filename='' @ [34] @ n @ [34]) = Some n"
    by (simp_all only: match_here_iff [symmetric] match_filename_first)
  then show "download_name (Some (lit ''attachment; filename='' @ n)) = n"
    "download_name (Some (lit ''attachment; filename='' @ [34] @ n @ [34])) = n"
    unfolding download_name_def option.case if_not_P[OF ne] unfolding pre append_assoc skip by simp_all
next
  show "download_name None = lit ''download''" by (simp add: download_name_def)
next
  fix h :: jstr assume h: "h \<noteq> []"
  show "if \<exists>pre t g. h = pre @ t \<and> name_at t g
      then \<exists>pre t. h = pre @ t \<and> name_at t (download_name (Some h)) \<and>
        (\<forall>pre' t' g'. h = pre' @ t' \<longrightarrow> name_at t' g' \<longrightarrow> length pre \<le> length pre')
      else download_name (Some h) = lit ''download''"
  proof (cases "match_filename h")
    case (Some g)
    then have "download_name (Some h) = g" using h by (simp add: download_name_def)
    then show ?thesis using Some unfolding match_filename_iff by auto
  next
    case None
    then have "download_name (Some h) = lit ''download''" using h by (simp add: download_name_def)
    moreover have "\<nexists>pre t g. h = pre @ t \<and> name_at t g" using None match_filename_none by blast
    ultimately show ?thesis by (subst if_not_P) blast+
  qed
qed

theorem download_name_recovers_witness:
  "download_name (Some (lit ''attachment; filename='' @ lit ''notes.txt'')) = lit ''notes.txt''"
proof -
  have "lit ''notes.txt'' \<noteq> [] \<and> 34 \<notin> set (lit ''notes.txt'')" by (simp add: unit_of_def)
  with download_name_recovers[of "lit ''notes.txt''"] show ?thesis by blast
qed

text \<open>
  C19: \<^verbatim>\<open>BackendFileUpload\<close> sends nothing for a file whose name, or whose directory's id, cannot be
  the value of a header (\<^verbatim>\<open>header_text\<close>: a character beyond Latin-1, or a control character no
  header may have): it throws a \<^verbatim>\<open>TypeError\<close> that its own \<^verbatim>\<open>catch\<close> does
  not see. For any other it sends exactly one request, and whatever happens to that request
  it returns normally, so the caller cannot tell a failed upload from a successful one.
\<close>
theorem upload_outcomes:
  "(case (header_text (file_name f), header_text fileId) of
      (Some a, Some b) \<Rightarrow> \<exists>rq k. run (BackendFileUpload f fileId) w = (w, Await (Fetch rq) k) \<and>
        req_url rq = ''/api/filesystem/upload'' \<and> req_body rq = File (file_data f) \<and>
        req_headers rq = [(''file-name'', a), (''directory'', b)] \<and> (\<forall>r v. run (k r) v = (v, Return ()))
    | _ \<Rightarrow> run (BackendFileUpload f fileId) w = (w, Throw TypeError)) \<and>
   (list_ex (\<lambda>c. 255 < c) (file_name f) \<longrightarrow> run (BackendFileUpload f fileId) w = (w, Throw TypeError))"
  using header_text_latin1[of "file_name f"] by (auto simp: BackendFileUpload_eq upload_settled split: option.split)

text \<open>The sign of the euro is enough.\<close>

theorem upload_outcomes_witness:
  "run (BackendFileUpload \<lparr>file_name = [0x20AC], file_data = []\<rparr> (lit ''1'')) () = ((), Throw TypeError)"
proof -
  have "list_ex (\<lambda>c. 255 < c) (file_name \<lparr>file_name = [0x20AC], file_data = []\<rparr>)" by simp
  with upload_outcomes[of "\<lparr>file_name = [0x20AC], file_data = []\<rparr>" "lit ''1''" "()"] show ?thesis by blast
qed

end
