(* ===== verification/Login.thy ===== *)
theory Login
  imports Backend
begin

text \<open>
  The login page: \<^verbatim>\<open>frontend/js/login.js\<close>.

  The page's state is its elements; every listener is a handler of \<^verbatim>\<open>login_handler\<close>. The invariant
  \<^verbatim>\<open>login_ok\<close> says that the page has its elements (those of \<^verbatim>\<open>login.html\<close>) and that the TOTP field
  holds at most six digits, which the listener of its \<^verbatim>\<open>input\<close> event restores. The interpretation of
  \<^verbatim>\<open>page_safety\<close> turns it into a statement on everything the page ever sends.

  Not modelled: the focus, and the property \<^verbatim>\<open>text\<close> that the form listener sets on the TOTP field,
  which input elements do not have and which nothing reads.
\<close>

declare lit_simps [simp del]

section \<open>The code\<close>

definition handlePasswordLogin :: "sodium \<Rightarrow> ('x page_scheme, unit) prog" where
  "handlePasswordLogin na =
     tryP (bindP (get_el ''username'') (\<lambda>u.
           bindP (get_el ''password'') (\<lambda>p.
           bindP (get_el ''totpInput'') (\<lambda>t.
           bindP (set_value ''username'' []) (\<lambda>_.
           bindP (set_value ''password'' []) (\<lambda>_.
           bindP (set_value ''totpInput'' []) (\<lambda>_.
           bindP (BackendLoginUserPassword na (trim (el_value u)) (trim (el_value p)) (trim (el_value t))) (\<lambda>_.
           go_to ''/dashboard'')))))))) (\<lambda>_.
       elementSetText ''auth-error''
         (lit ''The login has failed. Please check your login details and try again.''))"

definition sanitizeTotp :: "jstr \<Rightarrow> jstr" where
  "sanitizeTotp v = (let value = filter is_digit v in if length value > 6 then take 6 value else value)"

definition onTotpInput :: "sodium \<Rightarrow> ('x page_scheme, unit) prog" where
  "onTotpInput na =
     bindP (get_el ''totpInput'') (\<lambda>e.
     let value = sanitizeTotp (el_value e)
     in bindP (set_value ''totpInput'' value) (\<lambda>_.
        whenP (length value \<ge> 6)
          (bindP (set_display ''totpPopup'' ''none'') (\<lambda>_. handlePasswordLogin na))))"

definition onTotpSubmit :: "sodium \<Rightarrow> ('x page_scheme, unit) prog" where
  "onTotpSubmit na =
     bindP (get_el ''totpInput'') (\<lambda>e.
     bindP (if length (el_value e) = 6 then handlePasswordLogin na
            else elementSetText ''auth-error'' (lit ''Please enter a valid 6-digit TOTP code.'')) (\<lambda>_.
     set_display ''totpPopup'' ''none''))"

definition onUserNameInput :: "('x page_scheme, unit) prog" where
  "onUserNameInput =
     bindP (elementMakeInvisible ''auth-error'') (\<lambda>_.
     bindP (validateUsername ''username'') (\<lambda>_. Return ()))"

definition onPasswordInput :: "('x page_scheme, unit) prog" where
  "onPasswordInput =
     bindP (elementMakeInvisible ''auth-error'') (\<lambda>_.
     bindP (validatePassword ''password'') (\<lambda>_. Return ()))"

definition onLoginSubmit :: "('x page_scheme, unit) prog" where
  "onLoginSubmit =
     bindP (validate_all [(''username'', validateUsername), (''password'', validatePassword)]) (\<lambda>isValid.
     whenP isValid
       (bindP (set_display ''totpPopup'' ''block'') (\<lambda>_. bindP (get_el ''totpInput'') (\<lambda>_. Return ()))))"

definition onLoginPasskey :: "('x page_scheme, unit) prog" where
  "onLoginPasskey =
     bindP (elementMakeInvisible ''auth-error'') (\<lambda>_.
     bindP (validateUsername ''username'') (\<lambda>ok.
     if \<not> ok then Return ()
     else bindP (get_el ''username'') (\<lambda>e.
          let usernameValue = trim (el_value e)
          in tryP (bindP (fetchWithErrorHandling (json_request ''/api/auth/passkey-get'' ''POST'' []
                       [(''username'', usernameValue)])) (\<lambda>challengeResponse.
                   bindP (response_json challengeResponse) (\<lambda>j.
                   bindP (case j of JChallenge c \<Rightarrow> Return c | _ \<Rightarrow> Throw TypeError) (\<lambda>challenge.
                   bindP (await (CreateCredential challenge usernameValue)) (\<lambda>credential.
                   bindP (fetchWithErrorHandling
                       \<lparr>req_url = ''/api/auth/passkey'', req_method = ''POST'',
                        req_headers = [(''Content-Type'', lit ''application/json'')],
                        req_body = Opaque (resp_text credential)\<rparr>) (\<lambda>_.
                   go_to ''/dashboard''))))))
               (\<lambda>_. elementSetText ''auth-error'' (lit ''Passkey signup failed. Please try again.'')))))"

text \<open>What the page does on loading when the browser has no passkeys.\<close>

definition disablePasskey :: "jstr \<Rightarrow> ('x page_scheme, unit) prog" where
  "disablePasskey label =
     set_el ''passkey-btn'' (\<lambda>e. e\<lparr>el_disabled := True, el_text := label, el_opacity := ''0.5'', el_cursor := ''not-allowed''\<rparr>)"

text \<open>\<^verbatim>\<open>Type i v\<close>: the user edits field \<^verbatim>\<open>i\<close> and the browser reports its new value.\<close>

datatype login_event = LoginLoad | LoginType string jstr | LoginSubmit | TotpSubmit | LoginPasskey

fun login_handler :: "sodium \<Rightarrow> bool \<Rightarrow> login_event \<Rightarrow> ('x page_scheme, unit) prog" where
  "login_handler na passkeys LoginLoad = whenP (\<not> passkeys) (disablePasskey (lit ''Not supported''))"
| "login_handler na passkeys (LoginType i v) =
     (if i = ''totpInput'' then bindP (set_value i v) (\<lambda>_. onTotpInput na)
      else if i = ''username'' then bindP (set_value i v) (\<lambda>_. onUserNameInput)
      else if i = ''password'' then bindP (set_value i v) (\<lambda>_. onPasswordInput)
      else Return ())"
| "login_handler na passkeys LoginSubmit = onLoginSubmit"
| "login_handler na passkeys TotpSubmit = onTotpSubmit na"
| "login_handler na passkeys LoginPasskey = whenP passkeys onLoginPasskey"

section \<open>The invariant\<close>

definition totp_ok :: "jstr \<Rightarrow> bool" where
  "totp_ok v \<longleftrightarrow> list_all is_digit v \<and> length v \<le> 6"

definition login_ids :: "string list" where
  "login_ids = [''username'', ''password'', ''totpInput'', ''totpPopup'', ''auth-error'', ''passkey-btn'']"

definition login_ok :: "'x page_scheme \<Rightarrow> bool" where
  "login_ok w \<longleftrightarrow> list_all (\<lambda>i. form_of w i \<noteq> None) login_ids \<and>
     (case form_of w ''totpInput'' of None \<Rightarrow> False | Some v \<Rightarrow> totp_ok v)"

text \<open>What the page may send: logins with six digits, and the requests of the passkey button.\<close>

definition login_op :: "sodium \<Rightarrow> operation \<Rightarrow> bool" where
  "login_op na c \<longleftrightarrow> c = SodiumReady
     \<or> (\<exists>u p t. c = Fetch (login_request na u p t) \<and> length t = 6 \<and> list_all is_digit t)
     \<or> (\<exists>u. c = Fetch (json_request ''/api/auth/passkey-get'' ''POST'' [] [(''username'', u)]))
     \<or> (\<exists>u ch. c = CreateCredential ch u)
     \<or> (\<exists>b. c = Fetch \<lparr>req_url = ''/api/auth/passkey'', req_method = ''POST'',
                        req_headers = [(''Content-Type'', lit ''application/json'')], req_body = Opaque b\<rparr>)"

lemma login_form_only: "form_only login_ok"
  by (auto simp: form_only_def login_ok_def form_of_def)

lemma login_has: "i \<in> set login_ids \<Longrightarrow> has_element login_ok i"
  by (auto simp: has_element_def login_ok_def list_all_iff form_of_def)

lemma login_has_ids [simp]:
  "has_element login_ok ''username''" "has_element login_ok ''password''" "has_element login_ok ''totpInput''"
  "has_element login_ok ''totpPopup''" "has_element login_ok ''auth-error''" "has_element login_ok ''passkey-btn''"
  by (rule login_has, simp add: login_ids_def)+

lemma totp_ok_sanitize: "totp_ok (sanitizeTotp v)"
proof -
  have "list_all is_digit (take 6 (filter is_digit v))"
    using set_take_subset[of 6 "filter is_digit v"] by (auto simp: list_all_iff)
  moreover have "list_all is_digit (filter is_digit v)" by (simp add: list_all_iff)
  ultimately show ?thesis by (simp add: totp_ok_def sanitizeTotp_def Let_def)
qed

lemma dropWhile_none: "(\<And>c. c \<in> set v \<Longrightarrow> \<not> P c) \<Longrightarrow> dropWhile P v = v"
  by (cases v) auto

lemma trim_digits: "list_all is_digit v \<Longrightarrow> trim v = v"
proof -
  have sp: "\<not> is_space c" if "is_digit c" for c
  proof -
    have "48 \<le> uint c" "uint c \<le> 57" using that by (simp_all add: is_digit_def word_le_def)
    then show ?thesis by (auto simp: is_space_def word_le_def)
  qed
  assume "list_all is_digit v"
  then have "dropWhile is_space v = v" "dropWhile is_space (rev v) = rev v"
    using sp by (auto intro!: dropWhile_none simp: list_all_iff)
  then show ?thesis by (simp add: trim_def)
qed

text \<open>Assigning a value keeps the invariant if the TOTP field gets a proper one.\<close>

lemma login_ok_value:
  assumes "login_ok w" "i = ''totpInput'' \<Longrightarrow> totp_ok v"
  shows "login_ok (w\<lparr>doc := on_doc i (\<lambda>e. e\<lparr>el_value := v\<rparr>) (doc w)\<rparr>)"
  using assms unfolding login_ok_def form_of_set_value by (auto simp: list_all_iff split: option.splits)

lemma login_present: "login_ok w \<Longrightarrow> i \<in> set login_ids \<Longrightarrow> \<exists>e. doc w i = Some e"
  using login_has[of i] by (auto elim: has_elementE)

lemma run_login_value:
  assumes "login_ok w" "i \<in> set login_ids" "i = ''totpInput'' \<Longrightarrow> totp_ok v"
  shows "\<exists>w'. run (set_value i v) w = (w', Return ()) \<and> login_ok w' \<and>
    (\<forall>j. form_of w' j = (if j = i then Some v else form_of w j))"
proof -
  obtain e where e: "doc w i = Some e" using login_present[OF assms(1,2)] by blast
  have "doc w i \<noteq> None" by (simp add: e)
  note r = form_set_value[OF this, of v]
  have "form_of w i = Some (el_value e)" by (simp add: form_of_def e)
  then have "\<forall>j. form_of (w\<lparr>doc := on_doc i (\<lambda>e. e\<lparr>el_value := v\<rparr>) (doc w)\<rparr>) j = (if j = i then Some v else form_of w j)"
    unfolding form_of_set_value by simp
  then show ?thesis unfolding r using login_ok_value[OF assms(1,3)] by blast
qed

lemma keeps_login_value:
  assumes "i \<in> set login_ids" "i = ''totpInput'' \<Longrightarrow> totp_ok v"
  shows "keeps login_ok Q E (set_value i v)"
proof (rule keeps_run)
  fix w assume w: "login_ok w"
  from run_login_value[OF w assms] show "case run (set_value i v) w of (w', p') \<Rightarrow> login_ok w' \<and> keeps login_ok Q E p'"
    by auto
qed

lemma keeps_go_to: "keeps login_ok Q E (go_to url)"
  unfolding go_to_def by (rule keeps_modify) (simp add: login_ok_def form_of_def)

lemma login_op_simps [simp]:
  "login_op na SodiumReady"
  "login_op na (CreateCredential ch u)"
  "login_op na (Fetch (json_request ''/api/auth/passkey-get'' ''POST'' [] [(''username'', u)]))"
  "login_op na (Fetch \<lparr>req_url = ''/api/auth/passkey'', req_method = ''POST'',
      req_headers = [(''Content-Type'', lit ''application/json'')], req_body = Opaque b\<rparr>)"
  unfolding login_op_def by blast+

lemma totp_ok_Nil [simp]: "totp_ok []"
  by (simp add: totp_ok_def)

lemma safe_passwordLogin:
  assumes "login_ok w" "form_of w ''totpInput'' = Some t" "length t = 6"
  shows "safe_from login_ok (login_op na) (\<lambda>_. False) (handlePasswordLogin na) w"
proof -
  have ids: "''username'' \<in> set login_ids" "''password'' \<in> set login_ids" "''totpInput'' \<in> set login_ids"
    by (simp_all add: login_ids_def)
  obtain u p tt where e: "doc w ''username'' = Some u" "doc w ''password'' = Some p" "doc w ''totpInput'' = Some tt"
    using ids[THEN login_present[OF assms(1)]] by blast
  have t: "list_all is_digit t" "el_value tt = t" using assms(1,2) e(3) by (simp_all add: login_ok_def totp_ok_def form_of_def)
  have send: "keeps login_ok (login_op na) (\<lambda>_. True)
      (bindP (BackendLoginUserPassword na (trim (el_value u)) (trim (el_value p)) (trim (el_value tt)))
        (\<lambda>_. go_to ''/dashboard''))"
    using t assms(3) by (intro keeps_bind keeps_login keeps_go_to) (auto simp: login_op_def trim_digits)
  have "keeps login_ok (login_op na) (\<lambda>_. True) (bindP (set_value ''username'' []) (\<lambda>_.
      bindP (set_value ''password'' []) (\<lambda>_. bindP (set_value ''totpInput'' []) (\<lambda>_.
      bindP (BackendLoginUserPassword na (trim (el_value u)) (trim (el_value p)) (trim (el_value tt)))
        (\<lambda>_. go_to ''/dashboard'')))))"
    using ids by (intro keeps_bind[of login_ok "login_op na" _ "set_value _ _"] keeps_login_value send) simp_all
  note body = keeps_safe_from[OF this assms(1)]
  show ?thesis
    unfolding handlePasswordLogin_def
    by (intro safe_from_try safe_from_run[OF run_get_el[OF e(1)]] safe_from_run[OF run_get_el[OF e(2)]]
        safe_from_run[OF run_get_el[OF e(3)]] body keeps_form(4) login_form_only) simp
qed

lemma safe_totpInput: "keeps login_ok (login_op na) (\<lambda>_. False) (bindP (set_value ''totpInput'' v) (\<lambda>_. onTotpInput na))"
proof (rule safe_from_keeps)
  fix w :: "'a page_scheme" assume w: "login_ok w"
  have id: "''totpInput'' \<in> set login_ids" "''totpPopup'' \<in> set login_ids" by (simp_all add: login_ids_def)
  obtain e where e: "doc w ''totpInput'' = Some e" using login_present[OF w id(1)] by blast
  let ?f = "\<lambda>v e. e\<lparr>el_value := v\<rparr>"
  define w1 where "w1 = w\<lparr>doc := on_doc ''totpInput'' (?f v) (doc w)\<rparr>"
  have r1: "run (set_value ''totpInput'' v) w = (w1, Return ())" by (simp add: form_set_value e w1_def)
  have e1: "doc w1 ''totpInput'' = Some (?f v e)" by (simp add: w1_def on_doc_apply e)
  let ?v = "sanitizeTotp v"
  define w2 where "w2 = w1\<lparr>doc := on_doc ''totpInput'' (?f ?v) (doc w1)\<rparr>"
  have r2: "run (set_value ''totpInput'' ?v) w1 = (w2, Return ())" by (simp add: form_set_value e1 w2_def)
  have "w2 = w\<lparr>doc := on_doc ''totpInput'' (?f ?v) (doc w)\<rparr>"
    by (simp add: w2_def w1_def on_doc_def e)
  then have w2: "login_ok w2" using login_ok_value[OF w totp_ok_sanitize[of v]] by simp
  have f2: "form_of w2 ''totpInput'' = Some ?v" by (simp add: w2_def form_of_def on_doc_apply e1)
  have "safe_from login_ok (login_op na) (\<lambda>_. False)
      (whenP (6 \<le> length ?v) (bindP (set_display ''totpPopup'' ''none'') (\<lambda>_. handlePasswordLogin na))) w2"
  proof (cases "6 \<le> length ?v")
    case True
    then have six: "length ?v = 6" using totp_ok_sanitize[of v] by (simp add: totp_ok_def)
    obtain d where d: "doc w2 ''totpPopup'' = Some d" using login_present[OF w2 id(2)] by blast
    let ?w3 = "w2\<lparr>doc := on_doc ''totpPopup'' (\<lambda>e. e\<lparr>el_display := ''none''\<rparr>) (doc w2)\<rparr>"
    have "run (set_display ''totpPopup'' ''none'') w2 = (?w3, Return ())" by (simp add: set_display_def run_set_el d)
    moreover have "map_option el_value (on_doc ''totpPopup'' (\<lambda>e. e\<lparr>el_display := ''none''\<rparr>) (doc w2) j) = form_of w2 j" for j
      by (simp add: on_doc_form form_of_def)
    then have "login_ok ?w3" "form_of ?w3 ''totpInput'' = Some ?v"
      using form_onlyD[OF login_form_only w2] f2 by (simp_all add: form_of_def)
    ultimately show ?thesis using True safe_passwordLogin[OF _ _ six] by (auto simp: whenP_def intro: safe_from_run)
  next
    case False
    then show ?thesis using w2 by (simp add: whenP_def safe_from_return)
  qed
  then show "safe_from login_ok (login_op na) (\<lambda>_. False) (bindP (set_value ''totpInput'' v) (\<lambda>_. onTotpInput na)) w"
    unfolding onTotpInput_def
    by (intro safe_from_run[OF r1] safe_from_run[OF run_get_el[OF e1]]) (simp add: Let_def safe_from_run[OF r2])
qed

lemma keeps_totpSubmit: "keeps login_ok (login_op na) (\<lambda>_. False) (onTotpSubmit na)"
proof (rule safe_from_keeps)
  fix w :: "'a page_scheme" assume w: "login_ok w"
  obtain e where e: "doc w ''totpInput'' = Some e" using login_present[OF w, of "''totpInput''"] by (auto simp: login_ids_def)
  have "safe_from login_ok (login_op na) (\<lambda>_. False)
      (if length (el_value e) = 6 then handlePasswordLogin na
       else elementSetText ''auth-error'' (lit ''Please enter a valid 6-digit TOTP code.'')) w"
    using safe_passwordLogin[OF w, of "el_value e" na] keeps_safe_from[OF keeps_form(4)[OF _ login_form_only] w]
    by (simp add: form_of_def e)
  then show "safe_from login_ok (login_op na) (\<lambda>_. False) (onTotpSubmit na) w"
    unfolding onTotpSubmit_def
    by (intro safe_from_run[OF run_get_el[OF e]] safe_from_bind) (simp_all add: keeps_form login_form_only)
qed

lemma keeps_loginPasskey: "keeps login_ok (login_op na) (\<lambda>_. False) onLoginPasskey"
  unfolding onLoginPasskey_def Let_def
  by (intro keeps_get_el keeps_bind keeps_form keeps_validate keeps_if keeps_return keeps_try keeps_fetch
      keeps_response_json keeps_await_op keeps_go_to login_form_only) (auto intro: keeps_throw split: server_json.split)

lemma keeps_login_submit: "keeps login_ok (login_op na) (\<lambda>_. False) onLoginSubmit"
  unfolding onLoginSubmit_def
  by (intro keeps_bind keeps_validate_all keeps_when keeps_form keeps_get_el login_form_only)
    (auto intro: keeps_validate login_form_only)

lemma keeps_userNameInput: "keeps login_ok (login_op na) (\<lambda>_. False) (bindP (set_value ''username'' v) (\<lambda>_. onUserNameInput))"
  unfolding onUserNameInput_def
  by (intro keeps_bind keeps_login_value keeps_form keeps_validate keeps_return login_form_only) (simp_all add: login_ids_def)

lemma keeps_passwordInput: "keeps login_ok (login_op na) (\<lambda>_. False) (bindP (set_value ''password'' v) (\<lambda>_. onPasswordInput))"
  unfolding onPasswordInput_def
  by (intro keeps_bind keeps_login_value keeps_form keeps_validate keeps_return login_form_only) (simp_all add: login_ids_def)

lemma login_handler_keeps: "keeps login_ok (login_op na) (\<lambda>_. False) (login_handler na passkeys e)"
proof (cases e)
  case LoginLoad
  then show ?thesis by (simp add: disablePasskey_def keeps_when keeps_set_el login_form_only)
next
  case (LoginType i v)
  then show ?thesis by (simp add: safe_totpInput keeps_userNameInput keeps_passwordInput)
qed (simp_all add: keeps_totpSubmit keeps_loginPasskey keeps_login_submit keeps_when)

interpretation login: page_safety "login_handler na passkeys" login_ok "login_op na" "\<lambda>_. False" for na passkeys
  by unfold_locales (rule login_handler_keeps)

section \<open>Properties\<close>

definition login_page :: page where
  "login_page = \<lparr>doc = (\<lambda>i. if i \<in> set login_ids then Some blank_element else None), location = ''/login'', downloads = []\<rparr>"

text \<open>
  C7: Whatever the user does on the login page, and in whatever order its requests settle: no
  exception is left uncaught, the TOTP field holds at most six digits whenever control is back
  with the browser, and every password login that is sent carries exactly six digits and the hash of
  the password, never the password itself.
\<close>
theorem login_page_safe:
  assumes "login_ok w" "reachable (login_handler na passkeys) (idle w) m"
  shows "login_ok (world m) \<and> uncaught m = [] \<and> (\<forall>c \<in> set (sent m). login_op na c)"
proof -
  have "e \<notin> set (uncaught m)" for e using login.uncaught_ok[OF assms(2,1)] by blast
  then have "uncaught m = []" by (cases "uncaught m") auto
  then show ?thesis using login.world_inv[OF assms(2,1)] login.sent_ok[OF assms(2,1)] by blast
qed

theorem login_page_safe_witness:
  "uncaught (fold (perform (login_handler example_sodium True)) [Event (LoginType ''totpInput'' (lit ''12 34 56 7'')), Event TotpSubmit]
     (idle login_page)) = []"
proof -
  have "login_ok login_page" by (simp add: login_ok_def login_page_def login_ids_def form_of_def blank_element_def)
  from login_page_safe[OF this reachable_fold] show ?thesis by blast
qed

text \<open>
  C8: A password login empties the three fields at once and sends, once libsodium is ready, the
  trimmed user name, the hash of the trimmed password and the code that were in them. When the
  server accepts, the browser goes to the dashboard; on any refusal or network error it stays, and
  the error is shown. The page may have changed meanwhile.
\<close>
theorem password_login_outcome:
  assumes "login_ok w" "login_ok v1" "login_ok v2"
  shows "\<exists>w1 k1 k2 v3. run (handlePasswordLogin na) w = (w1, Await SodiumReady k1) \<and>
    (\<forall>i. form_of w1 i = (if i \<in> {''username'', ''password'', ''totpInput''} then Some [] else form_of w i)) \<and>
    run (k1 (Settled ready)) v1 = (v1, Await (Fetch (login_request na (value_of (form_of w) ''username'')
      (value_of (form_of w) ''password'') (value_of (form_of w) ''totpInput''))) k2) \<and>
    run (k2 r) v2 = (v3, Return ()) \<and>
    (case answer r of Inr _ \<Rightarrow> v3 = v2\<lparr>location := ''/dashboard''\<rparr>
       | Inl _ \<Rightarrow> location v3 = location v2 \<and> (\<exists>e. doc v3 ''auth-error'' = Some e \<and> el_visibility e = ''visible'' \<and>
           el_opacity e = ''1'' \<and> el_text e = lit ''The login has failed. Please check your login details and try again.''))"
proof -
  have ids: "''username'' \<in> set login_ids" "''password'' \<in> set login_ids" "''totpInput'' \<in> set login_ids" "''auth-error'' \<in> set login_ids"
    by (simp_all add: login_ids_def)
  obtain u p t where e: "doc w ''username'' = Some u" "doc w ''password'' = Some p" "doc w ''totpInput'' = Some t"
    using ids(1-3)[THEN login_present[OF assms(1)]] by blast
  obtain a where a: "doc v2 ''auth-error'' = Some a" using login_present[OF assms(3) ids(4)] by blast
  have vals: "value_of (form_of w) ''username'' = trim (el_value u)" "value_of (form_of w) ''password'' = trim (el_value p)"
    "value_of (form_of w) ''totpInput'' = trim (el_value t)" by (simp_all add: value_of_def form_of_def e)
  obtain wa where wa: "run (set_value ''username'' []) w = (wa, Return ())" "login_ok wa"
    "\<forall>j. form_of wa j = (if j = ''username'' then Some [] else form_of w j)"
    using run_login_value[OF assms(1) ids(1), of "[]"] by auto
  obtain wb where wb: "run (set_value ''password'' []) wa = (wb, Return ())" "login_ok wb"
    "\<forall>j. form_of wb j = (if j = ''password'' then Some [] else form_of wa j)"
    using run_login_value[OF wa(2) ids(2), of "[]"] by auto
  obtain wc where wc: "run (set_value ''totpInput'' []) wb = (wc, Return ())" "login_ok wc"
    "\<forall>j. form_of wc j = (if j = ''totpInput'' then Some [] else form_of wb j)"
    using run_login_value[OF wb(2) ids(3), of "[]"] by auto
  let ?send = "BackendLoginUserPassword na (trim (el_value u)) (trim (el_value p)) (trim (el_value t))"
  let ?fail = "\<lambda>_. elementSetText ''auth-error'' (lit ''The login has failed. Please check your login details and try again.'')"
  let ?k1 = "\<lambda>r. tryP (bindP (of_outcome r) (\<lambda>_. bindP (fetchWithErrorHandling (login_request na (trim (el_value u))
      (trim (el_value p)) (trim (el_value t)))) (\<lambda>_. go_to ''/dashboard''))) ?fail"
  let ?k2 = "\<lambda>r. tryP (bindP (of_js (answer r)) (\<lambda>_. go_to ''/dashboard'')) ?fail"
  have send: "bindP ?send (\<lambda>_. go_to ''/dashboard'') = Await SodiumReady (\<lambda>r. bindP (of_outcome r) (\<lambda>_.
      bindP (fetchWithErrorHandling (login_request na (trim (el_value u)) (trim (el_value p)) (trim (el_value t))))
        (\<lambda>_. go_to ''/dashboard'')))"
    by (simp add: BackendLoginUserPassword_def bind_hashPassword bindP_assoc login_request_def)
  let ?shown = "v2\<lparr>doc := on_doc ''auth-error'' (\<lambda>e. e\<lparr>el_opacity := ''1'', el_text :=
      lit ''The login has failed. Please check your login details and try again.'', el_visibility := ''visible''\<rparr>) (doc v2)\<rparr>"
  let ?v3 = "case answer r of Inr _ \<Rightarrow> v2\<lparr>location := ''/dashboard''\<rparr> | Inl _ \<Rightarrow> ?shown"
  have r1: "run (handlePasswordLogin na) w = (wc, Await SodiumReady ?k1)"
    unfolding handlePasswordLogin_def run_tryP run_bind_return[OF run_get_el[OF e(1)]] run_bind_return[OF run_get_el[OF e(2)]]
      run_bind_return[OF run_get_el[OF e(3)]] run_bind_return[OF wa(1)] run_bind_return[OF wb(1)] run_bind_return[OF wc(1)] send
    by simp
  have r2: "run (?k1 (Settled ready)) v1 = (v1, Await (Fetch (login_request na (trim (el_value u))
      (trim (el_value p)) (trim (el_value t)))) ?k2)"
    by (simp add: fetch_await)
  have r3: "run (?k2 r) v2 = (?v3, Return ())"
    by (cases "answer r") (simp_all add: of_js_def go_to_def elementSetText_def run_tryP run_set_el a)
  have r4: "case answer r of Inr _ \<Rightarrow> ?v3 = v2\<lparr>location := ''/dashboard''\<rparr>
      | Inl _ \<Rightarrow> location ?v3 = location v2 \<and> (\<exists>e. doc ?v3 ''auth-error'' = Some e \<and> el_visibility e = ''visible'' \<and>
          el_opacity e = ''1'' \<and> el_text e = lit ''The login has failed. Please check your login details and try again.'')"
    by (cases "answer r") (simp_all add: on_doc_apply a)
  have f: "\<forall>i. form_of wc i = (if i \<in> {''username'', ''password'', ''totpInput''} then Some [] else form_of w i)"
    using wa(3) wb(3) wc(3) by simp
  show ?thesis unfolding vals
    by (rule exI[of _ wc], rule exI[of _ ?k1], rule exI[of _ ?k2], rule exI[of _ ?v3]) (use r1 f r2 r3 r4 in blast)
qed

theorem password_login_outcome_witness:
  "\<exists>w1 k1. run (handlePasswordLogin example_sodium) login_page = (w1, Await SodiumReady k1)"
proof -
  have "login_ok login_page" by (simp add: login_ok_def login_page_def login_ids_def form_of_def blank_element_def)
  from password_login_outcome[OF this this this, of example_sodium] show ?thesis by blast
qed

end
