(* ===== verification/Signup.thy ===== *)
theory Signup
  imports Backend Canvas
begin

text \<open>
  The signup page: \<^verbatim>\<open>frontend/js/signup.js\<close>.

  The page's state is its elements and the canvas of the QR code. \<^verbatim>\<open>signup_page_safe\<close> traces every
  request of the page back to the submission of a valid form, \<^verbatim>\<open>signup_submit_outcome\<close> follows one registration to the code on the canvas.

  The passkey listener awaits \<^verbatim>\<open>sodiumReady\<close>. Which names the scripts of the page declare is an
  argument (\<^verbatim>\<open>names\<close>) of the listener; \<^verbatim>\<open>signup_names\<close> are those in the scope of the listener, and this
  one is not among them. \<^verbatim>\<open>redirectDashBoardLoggedIn\<close> reads the
  cookies and does nothing with them: its one statement is commented out.
\<close>

declare lit_simps [simp del]

section \<open>The code\<close>

record signup = page +
  qrCanvas :: canvas

definition validateConfirmPassword :: "string \<Rightarrow> ('x page_scheme, bool) prog" where
  "validateConfirmPassword i =
     bindP (get_el ''password'') (\<lambda>p.
     bindP (get_el i) (\<lambda>c.
     let passwordStr = trim (el_value p); confirmStr = trim (el_value c)
     in if confirmStr \<noteq> passwordStr
        then bindP (setErrorAttached i (lit ''Passwords do not match.'')) (\<lambda>_. Return False)
        else bindP (clearError i) (\<lambda>_. Return True)))"

definition redirectDashBoardLoggedIn :: "('w, unit) prog" where
  "redirectDashBoardLoggedIn = Return ()"

definition onQrPopup :: "('x signup_scheme, unit) prog" where
  "onQrPopup = bindP (set_display ''qrPopup'' ''none'') (\<lambda>_. go_to ''/login'')"

definition drawQR :: "jstr \<Rightarrow> ('x signup_scheme, unit) prog" where
  "drawQR data =
     bindP (gets qrCanvas) (\<lambda>cv. bindP (of_js (showQRCode data cv)) (\<lambda>cv. modify (\<lambda>w. w\<lparr>qrCanvas := cv\<rparr>)))"

definition register :: "sodium \<Rightarrow> jstr \<Rightarrow> jstr \<Rightarrow> ('x signup_scheme, unit) prog" where
  "register na usernameValue passwordValue =
     tryP (bindP (set_value ''username'' []) (\<lambda>_.
           bindP (set_value ''password'' []) (\<lambda>_.
           bindP (set_value ''confirm-password'' []) (\<lambda>_.
           bindP (BackendRegisterUserPassword na usernameValue passwordValue) (\<lambda>response.
           bindP (set_display ''qrPopup'' ''block'') (\<lambda>_. drawQR response))))))
       (\<lambda>_. elementSetText ''auth-error'' (lit ''The sign-up has failed. Please check your details and try again.''))"

definition onSignupSubmit :: "sodium \<Rightarrow> ('x signup_scheme, unit) prog" where
  "onSignupSubmit na =
     bindP (elementMakeInvisible ''auth-error'') (\<lambda>_.
     bindP (validate_all [(''username'', validateUsername), (''password'', validatePassword),
                          (''confirm-password'', validateConfirmPassword)]) (\<lambda>isValid.
     if \<not> isValid then Return ()
     else bindP (get_el ''username'') (\<lambda>u. bindP (get_el ''password'') (\<lambda>p.
          register na (trim (el_value u)) (trim (el_value p))))))"

text \<open>
  The names in the scope of the passkey listener: the imports and constants of the module, those of
  its load listener, and the globals of the other scripts of the page.
\<close>

definition signup_names :: "string list" where
  "signup_names = [''clearError'', ''elementMakeInvisible'', ''elementSetText'', ''isPasskeyAvailable'',
     ''redirectDashBoardLoggedIn'', ''setErrorAttached'', ''showQRCode'', ''validatePassword'', ''validateUsername'',
     ''BackendRegisterUserPassword'', ''qrPopup'', ''form'', ''passkeyButton'', ''authError'', ''userNameInput'',
     ''passwordInput'', ''confirmPasswordInput'', ''validateConfirmPassword'', ''usernameValue'', ''sodium'', ''qrcodegen'']"

text \<open>Evaluating a name that is not declared is a \<^verbatim>\<open>ReferenceError\<close>.\<close>

definition with_name :: "string list \<Rightarrow> string \<Rightarrow> ('w, 'a) prog \<Rightarrow> ('w, 'a) prog" where
  "with_name names x p = (if x \<in> set names then p else Throw ReferenceError)"

text \<open>
  The random bytes are drawn and not used. The source does not await the assertion it asks for last
  and only logs what becomes of it; since that is the end of the listener, it is the same to await it
  and ignore every outcome.
\<close>

definition signupPasskeyRest :: "sodium \<Rightarrow> ('x signup_scheme, unit) prog" where
  "signupPasskeyRest na =
     tryP (bindP (of_js (randombytes_buf na 32)) (\<lambda>challenge.
           bindP (of_js (randombytes_buf na 16)) (\<lambda>userId.
           bindP (await (CreateCredential (lit ''hello'') (lit ''lee@webauthn.guide''))) (\<lambda>credential.
           Await (GetCredential (lit ''hello'') (lit ''UZSL85T9AFC'')) (\<lambda>_. Return ())))))
       (\<lambda>_. elementSetText ''auth-error'' (lit ''Passkey signup failed. Please try again.''))"

definition onSignupPasskey :: "sodium \<Rightarrow> string list \<Rightarrow> ('x signup_scheme, unit) prog" where
  "onSignupPasskey na names =
     bindP (elementMakeInvisible ''auth-error'') (\<lambda>_.
     bindP (validateUsername ''username'') (\<lambda>ok.
     if \<not> ok then Return ()
     else bindP (get_el ''username'') (\<lambda>_.
          with_name names ''sodiumReady'' (bindP (await SodiumReady) (\<lambda>_. signupPasskeyRest na)))))"

definition disableSignupPasskey :: "('x page_scheme, unit) prog" where
  "disableSignupPasskey =
     set_el ''passkey-btn'' (\<lambda>e. e\<lparr>el_disabled := True, el_text := lit ''Sign up with Passkey'',
        el_opacity := ''0.5'', el_cursor := ''not-allowed''\<rparr>)"

datatype signup_event = SignupLoad | SignupType string jstr | SignupSubmit | SignupPasskey | ClosePopup

definition onSignupInput :: "string \<Rightarrow> ('x signup_scheme, unit) prog" where
  "onSignupInput i =
     (if i = ''username'' then bindP (validateUsername ''username'') (\<lambda>_. Return ())
      else if i = ''password''
      then bindP (validatePassword ''password'') (\<lambda>_. bindP (validateConfirmPassword ''confirm-password'') (\<lambda>_. Return ()))
      else bindP (validateConfirmPassword ''confirm-password'') (\<lambda>_. Return ()))"

fun signup_handler :: "sodium \<Rightarrow> bool \<Rightarrow> string list \<Rightarrow> signup_event \<Rightarrow> ('x signup_scheme, unit) prog" where
  "signup_handler na passkeys names SignupLoad =
     bindP redirectDashBoardLoggedIn (\<lambda>_. whenP (\<not> passkeys) disableSignupPasskey)"
| "signup_handler na passkeys names (SignupType i v) =
     (if i \<in> {''username'', ''password'', ''confirm-password''} then bindP (set_value i v) (\<lambda>_. onSignupInput i)
      else Return ())"
| "signup_handler na passkeys names SignupSubmit = onSignupSubmit na"
| "signup_handler na passkeys names SignupPasskey = whenP passkeys (onSignupPasskey na names)"
| "signup_handler na passkeys names ClosePopup = onQrPopup"

section \<open>The invariant\<close>

definition signup_ids :: "string list" where
  "signup_ids = [''username'', ''password'', ''confirm-password'', ''qrPopup'', ''auth-error'', ''passkey-btn'']"

definition signup_ok :: "'x signup_scheme \<Rightarrow> bool" where
  "signup_ok w \<longleftrightarrow> list_all (\<lambda>i. form_of w i \<noteq> None) signup_ids"

lemma signup_form_only: "form_only signup_ok"
  by (auto simp: form_only_def signup_ok_def form_of_def)

lemma signup_has: "i \<in> set signup_ids \<Longrightarrow> has_element signup_ok i"
  by (auto simp: has_element_def signup_ok_def list_all_iff form_of_def)

lemma signup_has_ids [simp]:
  "has_element signup_ok ''username''" "has_element signup_ok ''password''" "has_element signup_ok ''confirm-password''"
  "has_element signup_ok ''qrPopup''" "has_element signup_ok ''auth-error''" "has_element signup_ok ''passkey-btn''"
  by (rule signup_has, simp add: signup_ids_def)+

lemma signup_present: "signup_ok w \<Longrightarrow> i \<in> set signup_ids \<Longrightarrow> \<exists>e. doc w i = Some e"
  using signup_has[of i] by (auto elim: has_elementE)

lemma signup_ok_value: "signup_ok w \<Longrightarrow> signup_ok (w\<lparr>doc := on_doc i (\<lambda>e. e\<lparr>el_value := v\<rparr>) (doc w)\<rparr>)"
  unfolding signup_ok_def form_of_set_value by (simp add: list_all_iff)

lemma keeps_signup_value: "i \<in> set signup_ids \<Longrightarrow> keeps signup_ok Q E (set_value i v)"
proof (rule keeps_run)
  fix w :: "'a signup_scheme" assume i: "i \<in> set signup_ids" and w: "signup_ok w"
  then have "doc w i \<noteq> None" using signup_present by blast
  then show "case run (set_value i v) w of (w', p') \<Rightarrow> signup_ok w' \<and> keeps signup_ok Q E p'"
    using signup_ok_value[OF w] by (simp add: form_set_value)
qed

lemma keeps_signup_modify:
  "(\<And>w. doc (f w) = doc w) \<Longrightarrow> keeps signup_ok Q E (modify f)"
  by (rule keeps_modify) (simp add: signup_ok_def form_of_def)

lemma signup_ids_simps [simp]:
  "''username'' \<in> set signup_ids" "''password'' \<in> set signup_ids" "''confirm-password'' \<in> set signup_ids"
  by (simp_all add: signup_ids_def)

lemma keeps_confirm: "i \<in> set signup_ids \<Longrightarrow> keeps signup_ok Q E (validateConfirmPassword i)"
  unfolding validateConfirmPassword_def Let_def
  by (intro keeps_get_el keeps_if keeps_bind keeps_form keeps_return signup_form_only signup_has) auto

lemma keeps_signup_input:
  "i \<in> {''username'', ''password'', ''confirm-password''} \<Longrightarrow>
     keeps signup_ok Q E (bindP (set_value i v) (\<lambda>_. onSignupInput i))"
  unfolding onSignupInput_def
  by (intro keeps_bind keeps_signup_value keeps_if keeps_validate keeps_confirm keeps_return signup_form_only) auto

lemma keeps_drawQR: "(\<And>e. E e) \<Longrightarrow> keeps signup_ok Q E (drawQR data)"
  unfolding drawQR_def by (intro keeps_bind keeps_gets keeps_of_js keeps_signup_modify) auto

lemma keeps_signup_register:
  assumes "Q SodiumReady" "Q (Fetch (register_request na (trim u) p))"
  shows "keeps signup_ok Q E (register na u p)"
  unfolding register_def using assms
  by (intro keeps_try keeps_bind keeps_signup_value keeps_register keeps_form keeps_drawQR signup_form_only)
    (auto simp: signup_ids_def)

lemma reports_confirm:
  assumes "form_of w ''password'' \<noteq> None" "form_of w i \<noteq> None"
  shows "reports (validateConfirmPassword i) (\<lambda>f. value_of f i = value_of f ''password'') w"
proof -
  obtain p c where e: "doc w ''password'' = Some p" "doc w i = Some c" using assms by (auto simp: form_of_def)
  have ne: "doc w i \<noteq> None" by (simp add: e)
  let ?ok = "trim (el_value c) = trim (el_value p)"
  have "run (validateConfirmPassword i) w
      = (w\<lparr>doc := checked i ?ok (lit ''Passwords do not match.'') (doc w)\<rparr>, Return ?ok)"
    unfolding validateConfirmPassword_def run_bind_return[OF run_get_el[OF e(1)]] run_bind_return[OF run_get_el[OF e(2)]] Let_def
    by (simp add: checked_def run_bind_return[OF run_setErrorAttached[OF ne]] run_bind_return[OF run_clearError[OF ne]])
  then show ?thesis unfolding reports_def
    by (auto simp: value_of_def form_of_def e fun_eq_iff checked_value)
qed

text \<open>A form is complete when every field passes its check.\<close>

definition form_valid :: "(string \<Rightarrow> jstr option) \<Rightarrow> bool" where
  "form_valid f \<longleftrightarrow> 3 \<le> length (value_of f ''username'') \<and> 7 \<le> length (value_of f ''password'') \<and>
     value_of f ''confirm-password'' = value_of f ''password''"

lemma signup_forms: "signup_ok w \<Longrightarrow> i \<in> set signup_ids \<Longrightarrow> form_of w i \<noteq> None"
  by (simp add: signup_ok_def list_all_iff)

lemma reports_signup:
  assumes "signup_ok w"
  shows "reports (validate_all [(''username'', validateUsername), (''password'', validatePassword),
    (''confirm-password'', validateConfirmPassword)]) form_valid w"
proof -
  let ?P = "\<lambda>i f. if i = ''username'' then 3 \<le> length (value_of f i) else if i = ''password'' then 7 \<le> length (value_of f i)
    else value_of f i = value_of f ''password''"
  have f: "form_of u j \<noteq> None" if "form_of u = form_of w" "j \<in> set signup_ids" for u :: "'a signup_scheme" and j
    using that signup_forms[OF assms] by simp
  define vs :: "(string \<times> (string \<Rightarrow> ('a signup_scheme, bool) prog)) list" where
    "vs = [(''username'', validateUsername), (''password'', validatePassword), (''confirm-password'', validateConfirmPassword)]"
  have "reports (validate_all vs) (\<lambda>f. \<forall>(i, v) \<in> set vs. value_of f i \<noteq> [] \<and> ?P i f) w"
  proof (rule reports_validate_all[where P = ?P])
    fix i v and u :: "'a signup_scheme" assume iv: "(i, v) \<in> set vs" and u: "form_of u = form_of w"
    note n = f[OF u]
    show "form_of u i \<noteq> None \<and> reports (v i) (?P i) u"
      using iv n[of "''username''"] n[of "''password''"] n[of "''confirm-password''"]
      by (auto simp: vs_def reports_validateUsername reports_validatePassword reports_confirm)
  qed
  moreover have "(\<forall>(i, v) \<in> set vs. value_of f i \<noteq> [] \<and> ?P i f) \<longleftrightarrow> form_valid f" for f
    by (auto simp: form_valid_def vs_def)
  ultimately show ?thesis unfolding vs_def by simp
qed

lemma trim_value_of: "trim (value_of f i) = value_of f i"
proof -
  have "trim [] = []" by (simp add: trim_def)
  then show ?thesis by (simp add: value_of_def split: option.split)
qed

text \<open>The submit listener up to its decision.\<close>

lemma run_hide_error:
  assumes "signup_ok w"
  shows "\<exists>w0. run (elementMakeInvisible ''auth-error'') w = (w0, Return ()) \<and> signup_ok w0 \<and> form_of w0 = form_of w"
proof -
  obtain a where a: "doc w ''auth-error'' = Some a" using signup_present[OF assms, of "''auth-error''"] by (auto simp: signup_ids_def)
  let ?w0 = "w\<lparr>doc := on_doc ''auth-error'' (\<lambda>e. e\<lparr>el_opacity := ''0''\<rparr>) (doc w)\<rparr>"
  have r0: "run (elementMakeInvisible ''auth-error'') w = (?w0, Return ())"
    by (simp add: elementMakeInvisible_def run_set_el a)
  have vals: "map_option el_value (on_doc ''auth-error'' (\<lambda>e. e\<lparr>el_opacity := ''0''\<rparr>) (doc w) j) = form_of w j" for j
    by (simp add: on_doc_form form_of_def)
  have "form_of ?w0 = form_of w" using vals by (simp add: fun_eq_iff form_of_def)
  moreover have "signup_ok ?w0" by (rule form_onlyD[OF signup_form_only assms vals])
  ultimately show ?thesis using r0 by blast
qed

lemma run_submit:
  assumes "signup_ok w"
  shows "\<exists>w1. signup_ok w1 \<and> form_of w1 = form_of w \<and> run (onSignupSubmit na) w =
    (if form_valid (form_of w)
     then run (register na (value_of (form_of w) ''username'') (value_of (form_of w) ''password'')) w1 else (w1, Return ()))"
proof -
  obtain w0 where r0: "run (elementMakeInvisible ''auth-error'') w = (w0, Return ())" and ok0: "signup_ok w0"
    and f0: "form_of w0 = form_of w" using run_hide_error[OF assms] by blast
  let ?v = "validate_all [(''username'', validateUsername), (''password'', validatePassword),
    (''confirm-password'', validateConfirmPassword)]"
  obtain d where d: "run ?v w0 = (w0\<lparr>doc := d\<rparr>, Return (form_valid (form_of w)))" "form_of (w0\<lparr>doc := d\<rparr>) = form_of w"
    using reports_signup[OF ok0] unfolding reports_def f0 by blast
  let ?w1 = "w0\<lparr>doc := d\<rparr>"
  have ok1: "signup_ok ?w1" using assms d(2) by (simp add: signup_ok_def)
  obtain u p where e: "doc ?w1 ''username'' = Some u" "doc ?w1 ''password'' = Some p"
    using signup_present[OF ok1, of "''username''"] signup_present[OF ok1, of "''password''"] by (auto simp: signup_ids_def)
  have "value_of (form_of w) ''username'' = trim (el_value u)" "value_of (form_of w) ''password'' = trim (el_value p)"
    using e unfolding d(2) [symmetric] by (simp_all add: value_of_def form_of_def)
  then have "run (bindP (get_el ''username'') (\<lambda>u. bindP (get_el ''password'') (\<lambda>p. register na (trim (el_value u)) (trim (el_value p))))) ?w1
      = run (register na (value_of (form_of w) ''username'') (value_of (form_of w) ''password'')) ?w1"
    by (simp only: run_bind_return[OF run_get_el[OF e(1)]] run_bind_return[OF run_get_el[OF e(2)]])
  then have "run (onSignupSubmit na) w = (if form_valid (form_of w)
     then run (register na (value_of (form_of w) ''username'') (value_of (form_of w) ''password'')) ?w1 else (?w1, Return ()))"
    unfolding onSignupSubmit_def run_bind_return[OF r0] run_bind_return[OF d(1)]
    by (cases "form_valid (form_of w)") (simp_all only: not_True_eq_False not_False_eq_True if_True if_False run.simps)
  then show ?thesis using ok1 d(2) by blast
qed

text \<open>The passkey listener up to the name it depends on.\<close>

lemma run_passkey:
  assumes "signup_ok w"
  shows "\<exists>w1. signup_ok w1 \<and> form_of w1 = form_of w \<and> run (onSignupPasskey na names) w =
    (if 3 \<le> length (value_of (form_of w) ''username'')
     then run (with_name names ''sodiumReady'' (bindP (await SodiumReady) (\<lambda>_. signupPasskeyRest na))) w1 else (w1, Return ()))"
proof -
  obtain w0 where r0: "run (elementMakeInvisible ''auth-error'') w = (w0, Return ())" and ok0: "signup_ok w0"
    and f0: "form_of w0 = form_of w" using run_hide_error[OF assms] by blast
  have "form_of w0 ''username'' \<noteq> None" using signup_forms[OF ok0, of "''username''"] by simp
  from reports_validateUsername[OF this] obtain d where
    d: "run (validateUsername ''username'') w0 = (w0\<lparr>doc := d\<rparr>, Return (3 \<le> length (value_of (form_of w) ''username'')))"
      "form_of (w0\<lparr>doc := d\<rparr>) = form_of w"
    unfolding reports_def f0 by blast
  let ?w1 = "w0\<lparr>doc := d\<rparr>"
  have ok1: "signup_ok ?w1" using assms d(2) by (simp add: signup_ok_def)
  obtain u where u: "doc ?w1 ''username'' = Some u" using signup_present[OF ok1, of "''username''"] by auto
  have "run (onSignupPasskey na names) w = (if 3 \<le> length (value_of (form_of w) ''username'')
     then run (with_name names ''sodiumReady'' (bindP (await SodiumReady) (\<lambda>_. signupPasskeyRest na))) ?w1 else (?w1, Return ()))"
    unfolding onSignupPasskey_def run_bind_return[OF r0] run_bind_return[OF d(1)]
    by (cases "3 \<le> length (value_of (form_of w) ''username'')")
      (simp_all only: not_True_eq_False not_False_eq_True if_True if_False run.simps run_bind_return[OF run_get_el[OF u]])
  then show ?thesis using ok1 d(2) by blast
qed

text \<open>
  What an event may send, by the form of the page at that moment: the submission of a valid form its
  registration, the passkey button, if the name it needs were declared, only questions to the browser.
\<close>

definition signup_op :: "sodium \<Rightarrow> string list \<Rightarrow> signup_event \<Rightarrow> 'x signup_scheme \<Rightarrow> operation \<Rightarrow> bool" where
  "signup_op na names e w c \<longleftrightarrow>
     (e = SignupSubmit \<and> form_valid (form_of w) \<and>
        (c = SodiumReady \<or> c = Fetch (register_request na (value_of (form_of w) ''username'') (value_of (form_of w) ''password'')))) \<or>
     (e = SignupPasskey \<and> ''sodiumReady'' \<in> set names \<and> 3 \<le> length (value_of (form_of w) ''username'') \<and>
        c \<in> {SodiumReady, CreateCredential (lit ''hello'') (lit ''lee@webauthn.guide''), GetCredential (lit ''hello'') (lit ''UZSL85T9AFC'')})"

text \<open>A name that is not declared, or else libsodium, is all that can go wrong outside the \<^verbatim>\<open>try\<close> blocks.\<close>

definition signup_error :: "string list \<Rightarrow> js_error \<Rightarrow> bool" where
  "signup_error names x \<longleftrightarrow> x = ReferenceError \<or> ''sodiumReady'' \<in> set names"

lemma safe_submit:
  assumes "signup_ok w"
  shows "safe_from signup_ok (signup_op na names SignupSubmit w) E (onSignupSubmit na) w"
proof -
  obtain w1 where w1: "signup_ok w1" "form_of w1 = form_of w" "run (onSignupSubmit na) w =
    (if form_valid (form_of w)
     then run (register na (value_of (form_of w) ''username'') (value_of (form_of w) ''password'')) w1 else (w1, Return ()))"
    using run_submit[OF assms] by blast
  have "form_valid (form_of w) \<Longrightarrow> safe_from signup_ok (signup_op na names SignupSubmit w) E
      (register na (value_of (form_of w) ''username'') (value_of (form_of w) ''password'')) w1"
    by (intro keeps_safe_from[OF keeps_signup_register w1(1)]) (simp_all add: signup_op_def trim_value_of)
  then show ?thesis using w1(1) by (simp add: safe_from_def w1(3))
qed

lemma safe_passkey:
  assumes "signup_ok w"
  shows "safe_from signup_ok (signup_op na names SignupPasskey w) (signup_error names) (onSignupPasskey na names) w"
proof -
  let ?p = "with_name names ''sodiumReady'' (bindP (await SodiumReady) (\<lambda>_. signupPasskeyRest na))"
  let ?Q = "signup_op na names SignupPasskey w"
  obtain w1 where w1: "signup_ok w1" "form_of w1 = form_of w" "run (onSignupPasskey na names) w =
    (if 3 \<le> length (value_of (form_of w) ''username'') then run ?p w1 else (w1, Return ()))"
    using run_passkey[OF assms] by blast
  have "safe_from signup_ok ?Q (signup_error names) ?p w1" if "3 \<le> length (value_of (form_of w) ''username'')"
  proof (cases "''sodiumReady'' \<in> set names")
    case True
    then have q: "?Q SodiumReady" "?Q (CreateCredential (lit ''hello'') (lit ''lee@webauthn.guide''))"
      "?Q (GetCredential (lit ''hello'') (lit ''UZSL85T9AFC''))" using that by (simp_all add: signup_op_def)
    have "keeps signup_ok ?Q (signup_error names) ?p"
      unfolding with_name_def signupPasskeyRest_def if_P[OF True]
      by (intro keeps_bind keeps_try keeps_of_js keeps_await_op keeps_await keeps_form keeps_return signup_form_only q)
        (simp_all add: signup_error_def True)
    then show ?thesis using w1(1) by (rule keeps_safe_from)
  next
    case False
    then show ?thesis using w1(1) by (simp add: with_name_def safe_from_def signup_error_def keeps_throw)
  qed
  then show ?thesis using w1(1) by (simp add: safe_from_def w1(3))
qed

lemma keeps_qrPopup: "keeps signup_ok Q E onQrPopup"
  unfolding onQrPopup_def go_to_def
  by (intro keeps_bind keeps_form keeps_signup_modify signup_form_only) simp_all

lemma keeps_signup_load: "keeps signup_ok Q E (bindP redirectDashBoardLoggedIn (\<lambda>_. whenP c disableSignupPasskey))"
  by (simp add: redirectDashBoardLoggedIn_def disableSignupPasskey_def keeps_when keeps_set_el signup_form_only)

lemma signup_handler_safe:
  assumes "signup_ok w"
  shows "safe_from signup_ok (signup_op na names e w) (signup_error names) (signup_handler na passkeys names e) w"
proof (cases e)
  case SignupLoad
  then show ?thesis using keeps_safe_from[OF keeps_signup_load assms] by simp
next
  case (SignupType i v)
  show ?thesis unfolding SignupType signup_handler.simps
    by (rule keeps_safe_from[where I = signup_ok, OF _ assms]) (intro keeps_if keeps_signup_input keeps_return)
next
  case SignupSubmit
  then show ?thesis using safe_submit[OF assms] by simp
next
  case SignupPasskey
  then show ?thesis by (simp add: whenP_def safe_passkey[OF assms] safe_from_return[where I = signup_ok, OF assms])
next
  case ClosePopup
  then show ?thesis using keeps_safe_from[OF keeps_qrPopup assms] by simp
qed

interpretation signup: page_trace "signup_handler na passkeys names" signup_ok "signup_op na names" "signup_error names"
  for na passkeys names
  by unfold_locales (rule signup_handler_safe)

section \<open>Properties\<close>

definition signup_page :: signup where
  "signup_page = \<lparr>doc = (\<lambda>i. if i \<in> set signup_ids then Some blank_element else None), location = ''/signup'',
     downloads = [], qrCanvas = \<lparr>cv_width = 0, cv_height = 0, cv_fills = []\<rparr>\<rparr>"

lemma signup_page_ok: "signup_ok signup_page"
  by (simp add: signup_ok_def signup_page_def signup_ids_def form_of_def)

text \<open>A visit: the form is filled in, the passkey button pressed, the form sent, and the password hashed.\<close>

definition example_signup :: "signup_event action list" where
  "example_signup = [Event (SignupType ''username'' (lit ''alice'')), Event (SignupType ''password'' (lit ''long enough'')),
     Event (SignupType ''confirm-password'' (lit ''long enough'')), Event SignupPasskey, Event SignupSubmit,
     Settle 0 (Settled \<lparr>resp_ok = True, resp_text = [], resp_json = None, resp_disposition = None\<rparr>)]"

lemma example_signup_sends:
  "list_ex (\<lambda>op. case op of Fetch rq \<Rightarrow> True | _ \<Rightarrow> False)
     (sent (fold (perform (signup_handler example_sodium True signup_names)) example_signup (idle signup_page)))"
  by code_simp

text \<open>
  C10: Whatever the user does on the signup page, and in whatever order its requests settle, a request
  goes to the server only because the form was submitted when it was valid: user name and password
  long enough, and the confirmation equal to the password. It is the registration of exactly that
  user name and the hash of exactly that password, trimmed. Nothing else causes a request, the
  passkey button in particular not, even if the name it needs were declared. As long as that name is
  not, no exception is left uncaught but \<^verbatim>\<open>ReferenceError\<close>s.
\<close>
theorem signup_page_safe:
  assumes "signup_ok w"
  shows "let m = fold (perform (signup_handler na passkeys names)) as (idle w)
    in signup_ok (world m) \<and>
       (\<forall>rq. Fetch rq \<in> set (sent m) \<longrightarrow> (\<exists>v. occurred (signup_handler na passkeys names) (idle w) as SignupSubmit v \<and>
          form_valid (form_of v) \<and>
          rq = register_request na (value_of (form_of v) ''username'') (value_of (form_of v) ''password''))) \<and>
       (\<forall>x \<in> set (uncaught m). x = ReferenceError \<or> ''sodiumReady'' \<in> set names)"
proof -
  let ?m = "fold (perform (signup_handler na passkeys names)) as (idle w)"
  have "\<exists>v. occurred (signup_handler na passkeys names) (idle w) as SignupSubmit v \<and> form_valid (form_of v) \<and>
      rq = register_request na (value_of (form_of v) ''username'') (value_of (form_of v) ''password'')"
    if "Fetch rq \<in> set (sent ?m)" for rq
    using signup.sent_caused[OF assms that] by (auto simp: signup_op_def)
  moreover have "signup_ok (world ?m)" by (rule signup.world_inv[OF assms])
  moreover have "x = ReferenceError \<or> ''sodiumReady'' \<in> set names" if "x \<in> set (uncaught ?m)" for x
    using signup.uncaught_ok[OF assms that] by (simp add: signup_error_def)
  ultimately show ?thesis unfolding Let_def by blast
qed

text \<open>On the page as it is, \<^verbatim>\<open>sodiumReady\<close> not declared: a visit that fills in the form and sends it.\<close>

theorem signup_page_safe_witness:
  "let h = signup_handler example_sodium True signup_names; m = fold (perform h) example_signup (idle signup_page)
   in \<exists>rq v. Fetch rq \<in> set (sent m) \<and> occurred h (idle signup_page) example_signup SignupSubmit v \<and> form_valid (form_of v) \<and>
        rq = register_request example_sodium (value_of (form_of v) ''username'') (value_of (form_of v) ''password'') \<and>
        set (uncaught m) \<subseteq> {ReferenceError}"
proof -
  let ?h = "signup_handler example_sodium True signup_names"
  obtain rq where rq: "Fetch rq \<in> set (sent (fold (perform ?h) example_signup (idle signup_page)))"
    using example_signup_sends unfolding list_ex_iff by (metis operation.case operation.exhaust)
  note t = signup_page_safe[OF signup_page_ok, of example_sodium True signup_names example_signup, unfolded Let_def]
  have "''sodiumReady'' \<notin> set signup_names" by (simp add: signup_names_def)
  with t have u: "set (uncaught (fold (perform ?h) example_signup (idle signup_page))) \<subseteq> {ReferenceError}" by blast
  from t rq obtain v where "occurred ?h (idle signup_page) example_signup SignupSubmit v \<and> form_valid (form_of v) \<and>
      rq = register_request example_sodium (value_of (form_of v) ''username'') (value_of (form_of v) ''password'')"
    by blast
  with rq u show ?thesis unfolding Let_def by blast
qed

text \<open>The passkey button of the page as it is: after the validation, the listener dies.\<close>

lemma passkey_undeclared:
  assumes "signup_ok w" "3 \<le> length (value_of (form_of w) ''username'')"
  shows "\<exists>w1. run (onSignupPasskey na signup_names) w = (w1, Throw ReferenceError)"
proof -
  have "''sodiumReady'' \<notin> set signup_names" by (simp add: signup_names_def)
  then show ?thesis using run_passkey[OF assms(1), of na signup_names] assms(2) by (auto simp: with_name_def)
qed

definition signup_failed :: jstr where
  "signup_failed = lit ''The sign-up has failed. Please check your details and try again.''"

definition shows_failure :: "'x signup_scheme \<Rightarrow> bool" where
  "shows_failure w \<longleftrightarrow> (\<exists>e. doc w ''auth-error'' = Some e \<and> el_visibility e = ''visible'' \<and> el_opacity e = ''1'' \<and>
     el_text e = signup_failed)"

text \<open>The part of \<^verbatim>\<open>register\<close> after the server has answered.\<close>

lemma run_registered:
  assumes "signup_ok w"
  defines "p \<equiv> \<lambda>r. tryP (bindP (bindP (of_js (answer r)) (\<lambda>x. Return (resp_text x))) (\<lambda>response.
      bindP (set_display ''qrPopup'' ''block'') (\<lambda>_. drawQR response))) (\<lambda>_. elementSetText ''auth-error'' signup_failed)"
  shows "\<exists>w'. run (p r) w = (w', Return ()) \<and>
    (case answer r of Inl _ \<Rightarrow> shows_failure w' \<and> qrCanvas w' = qrCanvas w
     | Inr resp \<Rightarrow> (\<exists>e. doc w' ''qrPopup'' = Some e \<and> el_display e = ''block'') \<and>
         (if encodable (resp_text resp) then canvas_text (qrCanvas w') = Some (resp_text resp)
          else shows_failure w' \<and> qrCanvas w' = qrCanvas w))"
proof -
  obtain a where a: "doc w ''auth-error'' = Some a" using signup_present[OF assms(1), of "''auth-error''"] by (auto simp: signup_ids_def)
  obtain q where q: "doc w ''qrPopup'' = Some q" using signup_present[OF assms(1), of "''qrPopup''"] by (auto simp: signup_ids_def)
  show ?thesis
  proof (cases "answer r")
    case (Inl e)
    then show ?thesis
      by (simp add: p_def of_js_def run_tryP elementSetText_def run_set_el a shows_failure_def on_doc_apply)
  next
    case (Inr resp)
    let ?w1 = "w\<lparr>doc := on_doc ''qrPopup'' (\<lambda>e. e\<lparr>el_display := ''block''\<rparr>) (doc w)\<rparr>"
    have d: "run (set_display ''qrPopup'' ''block'') w = (?w1, Return ())" by (simp add: set_display_def run_set_el q)
    have p: "run (p r) w = run (tryP (drawQR (resp_text resp)) (\<lambda>_. elementSetText ''auth-error'' signup_failed)) ?w1"
      by (simp add: p_def Inr of_js_def run_tryP run_bind_return[OF d])
    show ?thesis
    proof (cases "showQRCode (resp_text resp) (qrCanvas w)")
      case (Inl e)
      then have "\<not> encodable (resp_text resp)" using showQRCode_spec[of "resp_text resp" "qrCanvas w"] by simp
      then show ?thesis unfolding p
        by (simp add: Inr Inl drawQR_def of_js_def run_tryP elementSetText_def run_set_el a q shows_failure_def on_doc_apply)
    next
      case (Inr cv)
      then have "encodable (resp_text resp) \<and> canvas_text cv = Some (resp_text resp)"
        using showQRCode_spec[of "resp_text resp" "qrCanvas w"] by simp
      then show ?thesis unfolding p
        by (simp add: \<open>answer r = Inr resp\<close> Inr drawQR_def of_js_def run_tryP q on_doc_apply)
    qed
  qed
qed

text \<open>
  C9: An invalid form is only marked, nothing is sent. A valid one is emptied at once and, once
  libsodium is ready, the trimmed user name and the hash of the trimmed password are sent. If the
  server accepts, the popup opens and the canvas shows a QR code that scans to the server's answer;
  if that text cannot be encoded, the popup stays open without a code and the page reports a failed
  sign-up although the account exists. A refusal or a network error is reported.
\<close>
theorem signup_submit_outcome:
  assumes "signup_ok w" "signup_ok v1" "signup_ok v2"
  shows "if \<not> form_valid (form_of w) then \<exists>w1. run (onSignupSubmit na) w = (w1, Return ()) \<and> form_of w1 = form_of w
    else \<exists>w1 k1 k2 v3. run (onSignupSubmit na) w = (w1, Await SodiumReady k1) \<and>
      (\<forall>i. form_of w1 i = (if i \<in> {''username'', ''password'', ''confirm-password''} then Some [] else form_of w i)) \<and>
      run (k1 (Settled ready)) v1 = (v1, Await (Fetch (register_request na (value_of (form_of w) ''username'')
        (value_of (form_of w) ''password''))) k2) \<and>
      run (k2 r) v2 = (v3, Return ()) \<and>
      (case answer r of Inl _ \<Rightarrow> shows_failure v3 \<and> qrCanvas v3 = qrCanvas v2
       | Inr resp \<Rightarrow> (\<exists>e. doc v3 ''qrPopup'' = Some e \<and> el_display e = ''block'') \<and>
           (if encodable (resp_text resp) then canvas_text (qrCanvas v3) = Some (resp_text resp)
            else shows_failure v3 \<and> qrCanvas v3 = qrCanvas v2))"
proof -
  obtain w0 where w0: "signup_ok w0" "form_of w0 = form_of w" "run (onSignupSubmit na) w =
    (if form_valid (form_of w)
     then run (register na (value_of (form_of w) ''username'') (value_of (form_of w) ''password'')) w0 else (w0, Return ()))"
    using run_submit[OF assms(1)] by blast
  show ?thesis
  proof (cases "form_valid (form_of w)")
    case False
    then show ?thesis using w0 by simp
  next
    case True
    let ?u = "value_of (form_of w) ''username''" and ?p = "value_of (form_of w) ''password''"
    let ?f = "\<lambda>e. e\<lparr>el_value := []\<rparr>"
    define wa where "wa = w0\<lparr>doc := on_doc ''username'' ?f (doc w0)\<rparr>"
    define wb where "wb = wa\<lparr>doc := on_doc ''password'' ?f (doc wa)\<rparr>"
    define wc where "wc = wb\<lparr>doc := on_doc ''confirm-password'' ?f (doc wb)\<rparr>"
    have oka: "signup_ok wa" unfolding wa_def by (rule signup_ok_value[OF w0(1)])
    have okb: "signup_ok wb" unfolding wb_def by (rule signup_ok_value[OF oka])
    have ne: "doc w0 ''username'' \<noteq> None" "doc wa ''password'' \<noteq> None" "doc wb ''confirm-password'' \<noteq> None"
      using signup_present[OF w0(1), of "''username''"] signup_present[OF oka, of "''password''"]
        signup_present[OF okb, of "''confirm-password''"] by auto
    have ra: "run (set_value ''username'' []) w0 = (wa, Return ())" using form_set_value[OF ne(1)] by (simp add: wa_def)
    have rb: "run (set_value ''password'' []) wa = (wb, Return ())" using form_set_value[OF ne(2)] by (simp add: wb_def)
    have rc: "run (set_value ''confirm-password'' []) wb = (wc, Return ())" using form_set_value[OF ne(3)] by (simp add: wc_def)
    have forms: "\<forall>i. form_of wc i = (if i \<in> {''username'', ''password'', ''confirm-password''} then Some [] else form_of w i)"
      using signup_forms[OF w0(1), of "''username''"] signup_forms[OF w0(1), of "''password''"]
        signup_forms[OF w0(1), of "''confirm-password''"]
      unfolding wc_def form_of_set_value unfolding wb_def form_of_set_value unfolding wa_def form_of_set_value w0(2) by auto
    let ?show = "\<lambda>response. bindP (set_display ''qrPopup'' ''block'') (\<lambda>_. drawQR response)"
    let ?fail = "\<lambda>_. elementSetText ''auth-error'' signup_failed"
    let ?k2 = "\<lambda>r. tryP (bindP (bindP (of_js (answer r)) (\<lambda>x. Return (resp_text x))) ?show) ?fail"
    let ?k1 = "\<lambda>r. tryP (bindP (bindP (of_outcome r) (\<lambda>_. bindP (fetchWithErrorHandling (register_request na ?u ?p))
        (\<lambda>x. Return (resp_text x)))) ?show) ?fail"
    have send: "BackendRegisterUserPassword na ?u ?p = Await SodiumReady (\<lambda>r. bindP (of_outcome r) (\<lambda>_.
        bindP (fetchWithErrorHandling (register_request na ?u ?p)) (\<lambda>x. Return (resp_text x))))"
      by (simp add: BackendRegisterUserPassword_def bind_hashPassword register_request_def trim_value_of)
    have r1: "run (onSignupSubmit na) w = (wc, Await SodiumReady ?k1)"
      using True unfolding w0(3) register_def run_tryP run_bind_return[OF ra] run_bind_return[OF rb] run_bind_return[OF rc] send
      by (simp add: signup_failed_def)
    have r2: "run (?k1 (Settled ready)) v1 = (v1, Await (Fetch (register_request na ?u ?p)) ?k2)"
      by (simp add: fetch_await)
    obtain v3 where r3: "run (?k2 r) v2 = (v3, Return ())" and c: "case answer r of Inl _ \<Rightarrow> shows_failure v3 \<and> qrCanvas v3 = qrCanvas v2
       | Inr resp \<Rightarrow> (\<exists>e. doc v3 ''qrPopup'' = Some e \<and> el_display e = ''block'') \<and>
           (if encodable (resp_text resp) then canvas_text (qrCanvas v3) = Some (resp_text resp)
            else shows_failure v3 \<and> qrCanvas v3 = qrCanvas v2)"
      using run_registered[OF assms(3)] by blast
    have "\<exists>w1 k1 k2 v3. run (onSignupSubmit na) w = (w1, Await SodiumReady k1) \<and>
      (\<forall>i. form_of w1 i = (if i \<in> {''username'', ''password'', ''confirm-password''} then Some [] else form_of w i)) \<and>
      run (k1 (Settled ready)) v1 = (v1, Await (Fetch (register_request na ?u ?p)) k2) \<and>
      run (k2 r) v2 = (v3, Return ()) \<and>
      (case answer r of Inl _ \<Rightarrow> shows_failure v3 \<and> qrCanvas v3 = qrCanvas v2
       | Inr resp \<Rightarrow> (\<exists>e. doc v3 ''qrPopup'' = Some e \<and> el_display e = ''block'') \<and>
           (if encodable (resp_text resp) then canvas_text (qrCanvas v3) = Some (resp_text resp)
            else shows_failure v3 \<and> qrCanvas v3 = qrCanvas v2))"
      by (rule exI[of _ wc], rule exI[of _ ?k1], rule exI[of _ ?k2], rule exI[of _ v3]) (use r1 forms r2 r3 c in blast)
    then show ?thesis using True by (simp only: not_True_eq_False if_False)
  qed
qed

theorem signup_submit_outcome_witness:
  "\<exists>w1 k1. run (onSignupSubmit example_sodium) (signup_page\<lparr>doc := (\<lambda>_. Some (blank_element\<lparr>el_value := lit ''secret7''\<rparr>))\<rparr>)
     = (w1, Await SodiumReady k1)"
proof -
  let ?w = "signup_page\<lparr>doc := (\<lambda>_. Some (blank_element\<lparr>el_value := lit ''secret7''\<rparr>))\<rparr>"
  have w: "signup_ok ?w" by (simp add: signup_ok_def form_of_def list_all_iff)
  have "length (trim (lit ''secret7'')) = 7" by code_simp
  then have "form_valid (form_of ?w)" by (simp add: form_valid_def value_of_def form_of_def)
  then show ?thesis using signup_submit_outcome[OF w w w, of example_sodium] by (simp only: not_True_eq_False if_False) blast
qed

end
