(* ===== verification/Dashboard.thy ===== *)
theory Dashboard
  imports Backend
begin

text \<open>
  The dashboard: \<^verbatim>\<open>frontend/js/dashboard.js\<close>.

  \<^item> The state is the module's \<^verbatim>\<open>navigationStack\<close> and what is on the screen: the side menu with its
    active item, the breadcrumb with its \<^verbatim>\<open>Up\<close> button, the listing, the modal (an element of the page)
    and the alerts. Rendering replaces a part of the screen; the listeners it attaches close over
    the entry they were made for, so an event names an item of the current screen by its position.
  \<^item> The functions are asynchronous, and nothing keeps the user from acting while a request is
    pending. \<^verbatim>\<open>dashboard_turn_refines\<close> and what follows it is about a user who waits; the
    theorems at the end are about one who does not.

  Not modelled: styling, the icons (constant pictures), \<^verbatim>\<open>stopPropagation\<close> and the test for
  \<^verbatim>\<open>.file-action\<close> (a click on a button of an item is an event of its own here), console output. A call
  that the source does not await is the last thing its handler does, so it is a plain call.
\<close>

declare lit_simps [simp del]

section \<open>The state\<close>

record dashboard = page +
  navigationStack :: "entry list"
  side_roots :: "entry list"
  side_active :: "nat option"
  crumbs :: "entry list"
  up_button :: bool
  listing :: "entry list"
  alerts :: "jstr list"

section \<open>The code\<close>

text \<open>What the server sends, used as an array: \<^verbatim>\<open>forEach\<close> of anything else is a \<^verbatim>\<open>TypeError\<close>.\<close>

definition as_entries :: "server_json \<Rightarrow> ('w, entry list) prog" where
  "as_entries j = (case j of JEntries es \<Rightarrow> Return es | _ \<Rightarrow> Throw TypeError)"

text \<open>\<^verbatim>\<open>navigationStack[navigationStack.length - 1].fid\<close>\<close>

definition top_fid :: "('x dashboard_scheme, jstr) prog" where
  "top_fid = Get (\<lambda>w. if navigationStack w = [] then Throw TypeError else Return (fid (last (navigationStack w))))"

definition set_stack :: "(entry list \<Rightarrow> entry list) \<Rightarrow> ('x dashboard_scheme, unit) prog" where
  "set_stack f = modify (\<lambda>w. w\<lparr>navigationStack := f (navigationStack w)\<rparr>)"

definition renderSideMenu :: "server_json \<Rightarrow> ('x dashboard_scheme, entry list) prog" where
  "renderSideMenu roots =
     bindP (as_entries roots) (\<lambda>es.
     bindP (modify (\<lambda>w. w\<lparr>side_roots := es, side_active := (if es = [] then None else Some 0)\<rparr>)) (\<lambda>_. Return es))"

definition renderBreadcrumb :: "('x dashboard_scheme, unit) prog" where
  "renderBreadcrumb =
     modify (\<lambda>w. w\<lparr>up_button := length (navigationStack w) > 1, crumbs := navigationStack w\<rparr>)"

definition renderDirectoryContents :: "server_json \<Rightarrow> ('x dashboard_scheme, unit) prog" where
  "renderDirectoryContents entries = bindP (as_entries entries) (\<lambda>es. modify (\<lambda>w. w\<lparr>listing := es\<rparr>))"

definition visitDirectory :: "jstr \<Rightarrow> ('x dashboard_scheme, unit) prog" where
  "visitDirectory dirID =
     tryP (bindP (BackendDirLookup dirID) (\<lambda>directoryData.
           bindP renderBreadcrumb (\<lambda>_. renderDirectoryContents directoryData)))
       (\<lambda>_. Return ())"

definition onRoot :: "nat \<Rightarrow> entry \<Rightarrow> ('x dashboard_scheme, unit) prog" where
  "onRoot index root =
     bindP (modify (\<lambda>w. w\<lparr>side_active := Some index\<rparr>)) (\<lambda>_.
     bindP (set_stack (\<lambda>_. [root])) (\<lambda>_. visitDirectory (fid root)))"

definition onUp :: "('x dashboard_scheme, unit) prog" where
  "onUp = bindP (set_stack butlast) (\<lambda>_. bindP top_fid visitDirectory)"

definition onCrumb :: "nat \<Rightarrow> entry \<Rightarrow> ('x dashboard_scheme, unit) prog" where
  "onCrumb index en = bindP (set_stack (take (index + 1))) (\<lambda>_. visitDirectory (fid en))"

definition onEntry :: "entry \<Rightarrow> ('x dashboard_scheme, unit) prog" where
  "onEntry en =
     (if \<not> isFile en then bindP (set_stack (\<lambda>st. st @ [en])) (\<lambda>_. visitDirectory (fid en))
      else modify (\<lambda>w. w\<lparr>alerts := alerts w @ [lit ''You selected file: '' @ name en]\<rparr>))"

definition onDelete :: "entry \<Rightarrow> ('x dashboard_scheme, unit) prog" where
  "onDelete en =
     bindP top_fid (\<lambda>currentDir.
     bindP (if isFile en then BackendFileDelete (fid en) else BackendDirDelete (fid en)) (\<lambda>_.
     visitDirectory currentDir))"

definition initializeFileSystemUI :: "('x dashboard_scheme, unit) prog" where
  "initializeFileSystemUI =
     tryP (bindP BackendFetchUserRoots (\<lambda>j.
           bindP (renderSideMenu j) (\<lambda>roots.
           case roots of [] \<Rightarrow> Return ()
           | r # _ \<Rightarrow> bindP (set_stack (\<lambda>_. [r])) (\<lambda>_. visitDirectory (fid r)))))
       (\<lambda>_. Return ())"

definition showAddFileModal :: "('x page_scheme, unit) prog" where
  "showAddFileModal = set_display ''addFileModal'' ''block''"

definition hideAddFileModal :: "('x page_scheme, unit) prog" where
  "hideAddFileModal = set_display ''addFileModal'' ''none''"

definition handleAddFileFormSubmit :: "('x dashboard_scheme, unit) prog" where
  "handleAddFileFormSubmit =
     bindP (get_el ''fileName'') (\<lambda>n.
     bindP (get_el ''fileType'') (\<lambda>t.
     bindP (gets navigationStack) (\<lambda>st.
     tryP (bindP (if st = [] then Throw TypeError else Return (fid (last st))) (\<lambda>dir.
           bindP (if el_value t = lit ''folder'' then BackendDirCreate dir (el_value n)
                  else BackendFileCreate dir (el_value n)) (\<lambda>_.
           bindP hideAddFileModal (\<lambda>_.
           bindP (gets navigationStack) (\<lambda>st.
           whenP (st \<noteq> []) (visitDirectory (fid (last st))))))))
       (\<lambda>_. Return ()))))"

definition onFileUpload :: "upload option \<Rightarrow> ('x dashboard_scheme, unit) prog" where
  "onFileUpload f =
     (case f of None \<Rightarrow> Return ()
      | Some f \<Rightarrow> bindP top_fid (\<lambda>currentDir. bindP (BackendFileUpload f currentDir) (\<lambda>_. visitDirectory currentDir)))"

text \<open>The buttons of an item of the listing, by their titles.\<close>

definition buttons_of :: "entry \<Rightarrow> string list" where
  "buttons_of en = (if isFile en then [''Download''] else []) @ [''Delete'']"

text \<open>
  The events. A click on an item or a button that is not on the screen is nothing. \<^verbatim>\<open>Pick\<close>: the user has chosen a file, or none, in the file picker.
\<close>

datatype dash_event = DashLoad | ClickRoot nat | ClickUp | ClickCrumb nat | ClickEntry nat | ClickDelete nat
  | ClickDownload nat | ClickProfile | OpenModal | CloseModal | DashType string jstr | SubmitAdd | Pick "upload option"

definition on_item :: "'a list \<Rightarrow> nat \<Rightarrow> ('a \<Rightarrow> ('w, unit) prog) \<Rightarrow> ('w, unit) prog" where
  "on_item xs i f = (if i < length xs then f (xs ! i) else Return ())"

fun dash_handler :: "dash_event \<Rightarrow> ('x dashboard_scheme, unit) prog" where
  "dash_handler DashLoad = initializeFileSystemUI"
| "dash_handler (ClickRoot i) = bindP (gets side_roots) (\<lambda>rs. on_item rs i (onRoot i))"
| "dash_handler ClickUp = bindP (gets up_button) (\<lambda>b. whenP b onUp)"
| "dash_handler (ClickCrumb i) = bindP (gets crumbs) (\<lambda>cs. on_item cs i (onCrumb i))"
| "dash_handler (ClickEntry i) = bindP (gets listing) (\<lambda>es. on_item es i onEntry)"
| "dash_handler (ClickDelete i) = bindP (gets listing) (\<lambda>es. on_item es i (\<lambda>en. whenP (''Delete'' \<in> set (buttons_of en)) (onDelete en)))"
| "dash_handler (ClickDownload i) =
     bindP (gets listing) (\<lambda>es. on_item es i (\<lambda>en. whenP (''Download'' \<in> set (buttons_of en)) (BackendFileDownload (fid en))))"
| "dash_handler ClickProfile = modify (\<lambda>w. w\<lparr>alerts := alerts w @ [lit ''Profile settings would appear here.'']\<rparr>)"
| "dash_handler OpenModal = showAddFileModal"
| "dash_handler CloseModal = hideAddFileModal"
| "dash_handler (DashType i v) = (if i \<in> {''fileName'', ''fileType''} then set_value i v else Return ())"
| "dash_handler SubmitAdd = handleAddFileFormSubmit"
| "dash_handler (Pick f) = onFileUpload f"

lemma buttons_simps [simp]: "''Delete'' \<in> set (buttons_of en)" "''Download'' \<in> set (buttons_of en) \<longleftrightarrow> isFile en"
  by (simp_all add: buttons_of_def)

lemma when_True [simp]: "whenP True p = p"
  by (simp add: whenP_def)

section \<open>What a lookup shows\<close>

definition lookup_request :: "jstr \<Rightarrow> request" where
  "lookup_request d = json_request ''/api/filesystem/dirLookup'' ''POST'' [] [(''directory'', d)]"

text \<open>The screen after the answer: unchanged if the request failed or is no JSON.\<close>

definition shown :: "outcome \<Rightarrow> 'x dashboard_scheme \<Rightarrow> 'x dashboard_scheme" where
  "shown o' w = (case Option.bind (case answer o' of Inl _ \<Rightarrow> None | Inr r \<Rightarrow> Some r) resp_json of
      None \<Rightarrow> w
    | Some j \<Rightarrow> let w1 = w\<lparr>up_button := length (navigationStack w) > 1, crumbs := navigationStack w\<rparr>
        in case j of JEntries es \<Rightarrow> w1\<lparr>listing := es\<rparr> | _ \<Rightarrow> w1)"

definition visited :: "outcome \<Rightarrow> ('x dashboard_scheme, unit) prog" where
  "visited o' = tryP (bindP (bindP (of_js (answer o')) response_json) (\<lambda>directoryData.
     bindP renderBreadcrumb (\<lambda>_. renderDirectoryContents directoryData))) (\<lambda>_. Return ())"

lemma visit_eq: "visitDirectory d = Await (Fetch (lookup_request d)) visited"
  by (simp add: visitDirectory_def BackendDirLookup_def fetch_eq lookup_request_def visited_def fun_eq_iff)

lemma run_visited: "run (visited o') w = (shown o' w, Return ())"
  by (auto simp: visited_def shown_def of_js_def response_json_def run_tryP renderBreadcrumb_def as_entries_def
      renderDirectoryContents_def Let_def split: sum.split option.split server_json.split)

lemma run_visit: "run (visitDirectory d) w = (w, Await (Fetch (lookup_request d)) visited)"
  by (simp add: visit_eq)

lemma alone_visited [simp]: "alone srv (visited o') s w = (s, shown o' w, Inr ())"
  by (rule alone_return[OF run_visited])

lemma alone_visit: "alone srv (visitDirectory d) s w
    = (case srv s (Fetch (lookup_request d)) of (s', o') \<Rightarrow> (s', shown o' w, Inr ()))"
  by (simp add: visit_eq split: prod.split)

section \<open>A user who waits\<close>

text \<open>
  The other side is a server with a state of its own that answers the request of every await.
  \<^verbatim>\<open>dir s\<close> are the directories of the server in state \<^verbatim>\<open>s\<close>. What the page relies on: a lookup
  returns the entries of the directory and changes nothing, and neither a refused creation or
  deletion nor a download changes a directory. What an accepted request does to them is left open, and
  so is what any upload does: the server may refuse one after it has created the file. That lookups
  succeed is a real restriction, since the server may refuse them too;
  \<^verbatim>\<open>failed_lookup_leaves_directory\<close> says what happens then.
\<close>

definition serves_files :: "('s \<Rightarrow> operation \<Rightarrow> 's \<times> outcome) \<Rightarrow> ('s \<Rightarrow> jstr \<Rightarrow> entry list) \<Rightarrow> bool" where
  "serves_files srv dir \<longleftrightarrow>
     (\<forall>s d. \<exists>r. srv s (Fetch (lookup_request d)) = (s, Settled r) \<and> resp_ok r \<and> resp_json r = Some (JEntries (dir s d))) \<and>
     (\<forall>s rq. req_url rq \<noteq> ''/api/filesystem/upload'' \<longrightarrow> (\<exists>e. answer (snd (srv s (Fetch rq))) = Inl e) \<longrightarrow>
        dir (fst (srv s (Fetch rq))) = dir s) \<and>
     (\<forall>s rq. req_url rq = ''/api/filesystem/download'' \<longrightarrow> dir (fst (srv s (Fetch rq))) = dir s)"

definition dash_ids :: "string list" where
  "dash_ids = [''addFileModal'', ''fileName'', ''fileType'']"

definition dash_elements :: "'x dashboard_scheme \<Rightarrow> bool" where
  "dash_elements w \<longleftrightarrow> list_all (\<lambda>i. form_of w i \<noteq> None) dash_ids"

text \<open>The screen shows the directory the navigation stack ends in.\<close>

definition in_step :: "('s \<Rightarrow> jstr \<Rightarrow> entry list) \<Rightarrow> 's \<Rightarrow> 'x dashboard_scheme \<Rightarrow> bool" where
  "in_step dir s w \<longleftrightarrow> dash_elements w \<and> navigationStack w \<noteq> [] \<and> crumbs w = navigationStack w \<and>
     up_button w = (1 < length (navigationStack w)) \<and> listing w = dir s (fid (last (navigationStack w)))"

text \<open>The abstract dashboard: a path of directories, moved by the navigation events only.\<close>

fun path_step :: "(jstr \<Rightarrow> entry list) \<Rightarrow> entry list \<Rightarrow> dash_event \<Rightarrow> entry list \<Rightarrow> entry list" where
  "path_step d roots (ClickRoot i) p = (if i < length roots then [roots ! i] else p)"
| "path_step d roots ClickUp p = (if 1 < length p then butlast p else p)"
| "path_step d roots (ClickCrumb i) p = (if i < length p then take (Suc i) p else p)"
| "path_step d roots (ClickEntry i) p =
     (let es = d (fid (last p)) in if i < length es \<and> \<not> isFile (es ! i) then p @ [es ! i] else p)"
| "path_step d roots e p = p"

definition rendered :: "entry list \<Rightarrow> 'x dashboard_scheme \<Rightarrow> 'x dashboard_scheme" where
  "rendered es w = w\<lparr>up_button := 1 < length (navigationStack w), crumbs := navigationStack w, listing := es\<rparr>"

lemma shown_entries: "resp_ok r \<Longrightarrow> resp_json r = Some (JEntries es) \<Longrightarrow> shown (Settled r) w = rendered es w"
  by (simp add: shown_def rendered_def Let_def)

lemma shown_failed: "answer o' = Inl e \<Longrightarrow> shown o' w = w"
  by (simp add: shown_def)

lemma alone_lookup:
  assumes "serves_files srv dir"
  shows "alone srv (visitDirectory d) s w = (s, rendered (dir s d) w, Inr ())"
proof -
  obtain r where "srv s (Fetch (lookup_request d)) = (s, Settled r)" "resp_ok r" "resp_json r = Some (JEntries (dir s d))"
    using assms unfolding serves_files_def by blast
  then show ?thesis by (simp add: alone_visit shown_entries)
qed

lemma rendered_simps [simp]:
  "navigationStack (rendered es w) = navigationStack w" "side_roots (rendered es w) = side_roots w"
  "crumbs (rendered es w) = navigationStack w" "up_button (rendered es w) = (1 < length (navigationStack w))"
  "listing (rendered es w) = es" "side_active (rendered es w) = side_active w" "doc (rendered es w) = doc w"
  by (simp_all add: rendered_def)

lemma in_step_rendered:
  "dash_elements w \<Longrightarrow> navigationStack w \<noteq> [] \<Longrightarrow> d = fid (last (navigationStack w)) \<Longrightarrow> in_step dir s (rendered (dir s d) w)"
  by (simp add: in_step_def dash_elements_def form_of_def)

lemma in_step_same:
  "in_step dir s w \<Longrightarrow> dash_elements w' \<Longrightarrow> navigationStack w' = navigationStack w \<Longrightarrow> crumbs w' = crumbs w \<Longrightarrow>
     up_button w' = up_button w \<Longrightarrow> listing w' = listing w \<Longrightarrow> dir s' = dir s \<Longrightarrow> in_step dir s' w'"
  by (simp add: in_step_def)

lemma dash_elements_doc: "dash_elements w \<Longrightarrow> dash_elements (w\<lparr>doc := on_doc i f (doc w)\<rparr>)"
  by (auto simp: dash_elements_def form_of_def on_doc_apply list_all_iff)

lemma dash_elements_eq: "doc w' = doc w \<Longrightarrow> dash_elements w' = dash_elements w"
  by (simp add: dash_elements_def form_of_def)

lemma dash_present: "dash_elements w \<Longrightarrow> i \<in> set dash_ids \<Longrightarrow> \<exists>e. doc w i = Some e"
  by (auto simp: dash_elements_def form_of_def list_all_iff)

lemma alone_set_el: "doc w i = Some e \<Longrightarrow> alone srv (set_el i f) s w = (s, w\<lparr>doc := on_doc i f (doc w)\<rparr>, Inr ())"
  by (rule alone_return[OF run_set_el]) simp

lemma alone_get_el: "doc w i = Some e \<Longrightarrow> alone srv (get_el i) s w = (s, w, Inr e)"
  by (rule alone_return[OF run_get_el])

lemma alone_top: "alone srv top_fid s w
    = (s, w, if navigationStack w = [] then Inl TypeError else Inr (fid (last (navigationStack w))))"
  by (simp add: top_fid_def)

lemma alone_stack [simp]: "alone srv (set_stack f) s w = (s, w\<lparr>navigationStack := f (navigationStack w)\<rparr>, Inr ())"
  by (simp add: set_stack_def)

lemma alone_upload: "alone srv (BackendFileUpload f d) s w =
    (case (header_text (file_name f), header_text d) of
       (Some a, Some b) \<Rightarrow> (fst (srv s (Fetch \<lparr>req_url = ''/api/filesystem/upload'', req_method = ''POST'',
          req_headers = [(''file-name'', a), (''directory'', b)], req_body = File (file_data f)\<rparr>)), w, Inr ())
     | _ \<Rightarrow> (s, w, Inl TypeError))"
  by (simp add: BackendFileUpload_eq alone_return[OF upload_settled] split: option.split prod.split)

text \<open>A request whose answer does not matter beyond its success.\<close>

lemma alone_request: "alone srv (bindP (fetchWithErrorHandling rq) (\<lambda>_. Return ())) s w =
    (fst (srv s (Fetch rq)), w, case answer (snd (srv s (Fetch rq))) of Inl e \<Rightarrow> Inl e | Inr _ \<Rightarrow> Inr ())"
  by (simp add: alone_bind alone_fetch split: prod.split sum.split)

lemma change_cases:
  assumes "serves_files srv dir" "req_url rq \<noteq> ''/api/filesystem/upload''"
  shows "\<exists>t. alone srv (bindP (fetchWithErrorHandling rq) (\<lambda>_. Return ())) s w = (t, w, Inr ()) \<or>
    (\<exists>e. alone srv (bindP (fetchWithErrorHandling rq) (\<lambda>_. Return ())) s w = (t, w, Inl e) \<and> dir t = dir s)"
proof (cases "answer (snd (srv s (Fetch rq)))")
  case (Inl e)
  then have "dir (fst (srv s (Fetch rq))) = dir s" using assms unfolding serves_files_def by blast
  then show ?thesis unfolding alone_request Inl by auto
next
  case (Inr r)
  then show ?thesis unfolding alone_request by auto
qed

lemma delete_cases:
  assumes "serves_files srv dir"
  shows "\<exists>t. alone srv (if b then BackendFileDelete d else BackendDirDelete d) s w = (t, w, Inr ()) \<or>
    (\<exists>e. alone srv (if b then BackendFileDelete d else BackendDirDelete d) s w = (t, w, Inl e) \<and> dir t = dir s)"
  unfolding BackendFileDelete_def BackendDirDelete_def
  by (cases b; simp only: if_True if_False; rule change_cases[OF assms]; simp add: json_request_def)

lemma create_cases:
  assumes "serves_files srv dir"
  shows "\<exists>t. alone srv (if b then BackendDirCreate d m else BackendFileCreate d m) s w = (t, w, Inr ()) \<or>
    (\<exists>e. alone srv (if b then BackendDirCreate d m else BackendFileCreate d m) s w = (t, w, Inl e) \<and> dir t = dir s)"
  unfolding BackendDirCreate_def BackendFileCreate_def
  by (cases b; simp only: if_True if_False; rule change_cases[OF assms]; simp add: json_request_def)

lemmas alone_steps = alone_bind alone_try alone_lookup alone_top

text \<open>The three kinds of events: going somewhere, changing something, and the rest.\<close>

lemma turn_go:
  assumes "serves_files srv dir" "in_step dir s w" "alone srv (bindP (set_stack f) (\<lambda>_. visitDirectory d)) s w0 = (s', w', r)"
    "w0 = w \<or> w0 = w\<lparr>side_active := a\<rparr>" "f (navigationStack w) \<noteq> []" "d = fid (last (f (navigationStack w)))"
  shows "in_step dir s' w' \<and> navigationStack w' = f (navigationStack w) \<and> side_roots w' = side_roots w \<and> r = Inr ()"
proof -
  let ?w1 = "w0\<lparr>navigationStack := f (navigationStack w0)\<rparr>"
  have n: "navigationStack w0 = navigationStack w" "side_roots w0 = side_roots w" "doc w0 = doc w" using assms(4) by auto
  have e: "(s, rendered (dir s d) ?w1, Inr ()) = (s', w', r)" using assms(3) by (auto simp: alone_steps alone_lookup[OF assms(1)])
  have "dash_elements ?w1" using assms(2) n(3) by (simp add: in_step_def dash_elements_def form_of_def)
  then have "in_step dir s (rendered (dir s d) ?w1)" using assms(5,6) n(1) by (intro in_step_rendered) simp_all
  then show ?thesis using e n by auto
qed

lemma turn_refresh:
  assumes "serves_files srv dir" "in_step dir s w"
  shows "in_step dir s' (rendered (dir s' (fid (last (navigationStack w)))) w)"
  using assms(2) by (intro in_step_rendered) (simp_all add: in_step_def)

lemma turn_delete:
  assumes "serves_files srv dir" "in_step dir s w" "alone srv (onDelete en) s w = (s', w', r)"
  shows "in_step dir s' w' \<and> navigationStack w' = navigationStack w \<and> side_roots w' = side_roots w"
proof -
  let ?p = "if isFile en then BackendFileDelete (fid en) else BackendDirDelete (fid en)"
  have ne: "navigationStack w \<noteq> []" using assms(2) by (simp add: in_step_def)
  from delete_cases[OF assms(1), of "isFile en" "fid en" s w] obtain t where "alone srv ?p s w = (t, w, Inr ()) \<or> (\<exists>e. alone srv ?p s w = (t, w, Inl e) \<and> dir t = dir s)"
    by (elim exE)
  then show ?thesis
  proof
    assume "alone srv ?p s w = (t, w, Inr ())"
    then have "(t, rendered (dir t (fid (last (navigationStack w)))) w, Inr ()) = (s', w', r)"
      using assms(3) ne by (auto simp: onDelete_def alone_steps alone_lookup[OF assms(1)])
    then show ?thesis using turn_refresh[OF assms(1,2)] by auto
  next
    assume "\<exists>e. alone srv ?p s w = (t, w, Inl e) \<and> dir t = dir s"
    then have "s' = t \<and> w' = w \<and> dir t = dir s" using assms(3) ne by (auto simp: onDelete_def alone_steps)
    then show ?thesis using assms(2) by (simp add: in_step_def)
  qed
qed

lemma turn_upload:
  assumes "serves_files srv dir" "in_step dir s w" "alone srv (onFileUpload (Some f)) s w = (s', w', r)"
  shows "in_step dir s' w' \<and> navigationStack w' = navigationStack w \<and> side_roots w' = side_roots w"
proof -
  have ne: "navigationStack w \<noteq> []" using assms(2) by (simp add: in_step_def)
  show ?thesis using assms(2,3) ne turn_refresh[OF assms(1,2)]
    by (auto simp: onFileUpload_def alone_steps alone_upload alone_lookup[OF assms(1)] split: option.splits)
qed

lemma turn_add:
  assumes "serves_files srv dir" "in_step dir s w" "alone srv handleAddFileFormSubmit s w = (s', w', r)"
  shows "in_step dir s' w' \<and> navigationStack w' = navigationStack w \<and> side_roots w' = side_roots w \<and> r = Inr ()"
proof -
  have ne: "navigationStack w \<noteq> []" and el: "dash_elements w" using assms(2) by (simp_all add: in_step_def)
  obtain n t m where e: "doc w ''fileName'' = Some n" "doc w ''fileType'' = Some t" "doc w ''addFileModal'' = Some m"
    using dash_present[OF el, of "''fileName''"] dash_present[OF el, of "''fileType''"] dash_present[OF el, of "''addFileModal''"]
    by (auto simp: dash_ids_def)
  let ?d = "fid (last (navigationStack w))"
  let ?p = "if el_value t = lit ''folder'' then BackendDirCreate ?d (el_value n) else BackendFileCreate ?d (el_value n)"
  let ?w1 = "w\<lparr>doc := on_doc ''addFileModal'' (\<lambda>e. e\<lparr>el_display := ''none''\<rparr>) (doc w)\<rparr>"
  have hide: "alone srv hideAddFileModal t w = (t, ?w1, Inr ())" for t
    by (simp add: hideAddFileModal_def set_display_def alone_set_el[OF e(3)])
  have top: "(if navigationStack w = [] then Throw TypeError else Return (fid (last (navigationStack w)))) = Return ?d"
    using ne by simp
  let ?after = "bindP hideAddFileModal (\<lambda>_. bindP (gets navigationStack) (\<lambda>st. whenP (st \<noteq> []) (visitDirectory (fid (last st)))))"
  have eq: "alone srv handleAddFileFormSubmit s w = (case alone srv (bindP ?p (\<lambda>_. ?after)) s w of
      (s', w', Inl e) \<Rightarrow> (s', w', Inr ()) | (s', w', Inr x) \<Rightarrow> (s', w', Inr x))"
    unfolding handleAddFileFormSubmit_def
    apply (subst alone_bind, subst alone_get_el[OF e(1)])
    apply (simp only: prod.case sum.case)
    apply (subst alone_bind, subst alone_get_el[OF e(2)])
    apply (simp only: prod.case sum.case)
    apply (subst alone_bind, subst alone_basic(1))
    apply (simp only: prod.case sum.case)
    apply (subst alone_try)
    apply (simp only: top bindP.simps(1) alone.simps(1))
    done
  from create_cases[OF assms(1), of "el_value t = lit ''folder''" ?d "el_value n" s w] obtain t' where "alone srv ?p s w = (t', w, Inr ()) \<or> (\<exists>e. alone srv ?p s w = (t', w, Inl e) \<and> dir t' = dir s)"
    by (elim exE)
  then show ?thesis
  proof
    assume a: "alone srv ?p s w = (t', w, Inr ())"
    have "(t', rendered (dir t' ?d) ?w1, Inr ()) = (s', w', r)"
      using assms(3) ne unfolding eq alone_bind a by (auto simp: hide alone_lookup[OF assms(1)])
    moreover have "in_step dir t' (rendered (dir t' ?d) ?w1)"
      using dash_elements_doc[OF el] ne by (intro in_step_rendered) simp_all
    ultimately show ?thesis by auto
  next
    assume "\<exists>e. alone srv ?p s w = (t', w, Inl e) \<and> dir t' = dir s"
    then have "s' = t' \<and> w' = w \<and> dir t' = dir s \<and> r = Inr ()" using assms(3) unfolding eq alone_bind by auto
    then show ?thesis using assms(2) by (simp add: in_step_def)
  qed
qed

lemma turn_download:
  assumes "serves_files srv dir" "in_step dir s w" "alone srv (BackendFileDownload d) s w = (s', w', r)"
  shows "in_step dir s' w' \<and> navigationStack w' = navigationStack w \<and> side_roots w' = side_roots w"
proof -
  have d: "dir (fst (srv s (Fetch rq))) = dir s" if "req_url rq = ''/api/filesystem/download''" for rq
    using assms(1) that unfolding serves_files_def by blast
  have "dir s' = dir s \<and> w' = w\<lparr>downloads := downloads w'\<rparr>"
  proof (cases "header_append ''file'' d []")
    case (Inl e)
    then have "(s, w, Inl e) = (s', w', r)" using assms(3) by (simp add: BackendFileDownload_def alone_bind)
    then show ?thesis by auto
  next
    case (Inr hs)
    let ?rq = "\<lparr>req_url = ''/api/filesystem/download'', req_method = ''POST'', req_headers = hs, req_body = NoBody\<rparr>"
    obtain t o' where o: "srv s (Fetch ?rq) = (t, o')" by (cases "srv s (Fetch ?rq)")
    have "dir t = dir s" using d[of ?rq] o by simp
    then show ?thesis using assms(3) Inr o
      by (cases "answer o'") (auto simp: BackendFileDownload_def alone_bind alone_fetch)
  qed
  moreover from this have "navigationStack w' = navigationStack w \<and> side_roots w' = side_roots w \<and> crumbs w' = crumbs w \<and>
      up_button w' = up_button w \<and> listing w' = listing w \<and> doc w' = doc w"
    by (metis dashboard.surjective dashboard.select_convs page.select_convs(1) page.update_convs(3))
  ultimately show ?thesis using assms(2) dash_elements_eq[of w' w] by (simp add: in_step_def)
qed

lemma turn_other:
  assumes "in_step dir s w" "dash_elements w'" "navigationStack w' = navigationStack w" "side_roots w' = side_roots w"
    "crumbs w' = crumbs w" "up_button w' = up_button w" "listing w' = listing w"
  shows "in_step dir s w' \<and> navigationStack w' = navigationStack w \<and> side_roots w' = side_roots w"
  using assms by (simp add: in_step_def)

lemma turn_set_el:
  assumes "in_step dir s w" "i \<in> set dash_ids" "alone srv (set_el i f) s w = (s', w', r)"
  shows "in_step dir s' w' \<and> navigationStack w' = navigationStack w \<and> side_roots w' = side_roots w \<and> r = Inr ()"
proof -
  have el: "dash_elements w" using assms(1) by (simp add: in_step_def)
  obtain e where e: "doc w i = Some e" using dash_present[OF el assms(2)] by blast
  have "(s, w\<lparr>doc := on_doc i f (doc w)\<rparr>, Inr ()) = (s', w', r)" using assms(3) by (simp add: alone_set_el[OF e])
  then show ?thesis using turn_other[OF assms(1) dash_elements_doc[OF el, of i f]] by auto
qed

definition may_fail :: "dash_event \<Rightarrow> bool" where
  "may_fail e \<longleftrightarrow> (case e of ClickDelete _ \<Rightarrow> True | ClickDownload _ \<Rightarrow> True | Pick _ \<Rightarrow> True | _ \<Rightarrow> False)"

lemma turn_navigate:
  assumes "serves_files srv dir" "in_step dir s w" "e \<in> {ClickRoot i, ClickUp, ClickCrumb i, ClickEntry i}"
    "alone srv (dash_handler e) s w = (s', w', r)"
  shows "in_step dir s' w' \<and> navigationStack w' = path_step (dir s) (side_roots w) e (navigationStack w) \<and>
    side_roots w' = side_roots w \<and> r = Inr ()"
proof -
  let ?p = "navigationStack w"
  have st: "?p \<noteq> []" "crumbs w = ?p" "up_button w = (1 < length ?p)" "listing w = dir s (fid (last ?p))" "dash_elements w"
    using assms(2) by (simp_all add: in_step_def)
  note go = turn_go[OF assms(1,2)]
  consider (root) "e = ClickRoot i" | (up) "e = ClickUp" | (crumb) "e = ClickCrumb i" | (entry) "e = ClickEntry i"
    using assms(3) by blast
  then show ?thesis
  proof cases
    case root
    show ?thesis
    proof (cases "i < length (side_roots w)")
      case True
      have "alone srv (bindP (set_stack (\<lambda>_. [side_roots w ! i])) (\<lambda>_. visitDirectory (fid (side_roots w ! i)))) s
          (w\<lparr>side_active := Some i\<rparr>) = (s', w', r)"
        using assms(4) True root by (simp add: on_item_def onRoot_def)
      from go[OF this, where a = "Some i"] show ?thesis using root True by simp
    qed (use assms(2,4) root in \<open>auto simp: on_item_def\<close>)
  next
    case up
    show ?thesis
    proof (cases "1 < length ?p")
      case True
      then have ne: "butlast ?p \<noteq> []" by (cases ?p rule: rev_cases) auto
      have "alone srv (bindP (set_stack butlast) (\<lambda>_. visitDirectory (fid (last (butlast ?p))))) s w = (s', w', r)"
        using assms(4) True ne up st(3) by (simp add: onUp_def alone_bind alone_top)
      from go[OF this] show ?thesis using ne up True by simp
    qed (use assms(2,4) up st(3) in auto)
  next
    case crumb
    show ?thesis
    proof (cases "i < length ?p")
      case True
      then have l: "last (take (i + 1) ?p) = ?p ! i" by (simp add: take_Suc_conv_app_nth)
      have "alone srv (bindP (set_stack (take (i + 1))) (\<lambda>_. visitDirectory (fid (?p ! i)))) s w = (s', w', r)"
        using assms(4) True crumb st(2) by (simp add: on_item_def onCrumb_def)
      from go[OF this] show ?thesis using l crumb True st(1) by simp
    qed (use assms(2,4) crumb st(2) in \<open>auto simp: on_item_def\<close>)
  next
    case entry
    let ?es = "dir s (fid (last ?p))"
    show ?thesis
    proof (cases "i < length ?es \<and> \<not> isFile (?es ! i)")
      case True
      have "alone srv (bindP (set_stack (\<lambda>st. st @ [?es ! i])) (\<lambda>_. visitDirectory (fid (?es ! i)))) s w = (s', w', r)"
        using assms(4) True entry st(4) by (simp add: on_item_def onEntry_def)
      from go[OF this] show ?thesis using entry True by (simp add: Let_def)
    next
      case False
      let ?w1 = "w\<lparr>alerts := alerts w @ [lit ''You selected file: '' @ name (?es ! i)]\<rparr>"
      have "(s, if i < length ?es then ?w1 else w, Inr ()) = (s', w', r)"
        using assms(4) False entry st(4) by (auto simp: on_item_def onEntry_def split: if_splits)
      moreover have "in_step dir s ?w1" using turn_other[OF assms(2), of ?w1] st(5) by (simp add: dash_elements_def form_of_def)
      ultimately show ?thesis using assms(2) entry False by (auto simp: Let_def split: if_splits)
    qed
  qed
qed

lemma turn_dash:
  assumes "serves_files srv dir" "in_step dir s w" "e \<noteq> DashLoad" "alone srv (dash_handler e) s w = (s', w', r)"
  shows "in_step dir s' w' \<and> navigationStack w' = path_step (dir s) (side_roots w) e (navigationStack w) \<and>
    side_roots w' = side_roots w \<and> (r = Inr () \<or> may_fail e)"
proof (cases e)
  case (ClickRoot i)
  then show ?thesis using turn_navigate[OF assms(1,2), of e i] assms(4) by simp
next
  case ClickUp
  then show ?thesis using turn_navigate[OF assms(1,2), of e] assms(4) by simp
next
  case (ClickCrumb i)
  then show ?thesis using turn_navigate[OF assms(1,2), of e i] assms(4) by simp
next
  case (ClickEntry i)
  then show ?thesis using turn_navigate[OF assms(1,2), of e i] assms(4) by simp
next
  case (ClickDelete i)
  then show ?thesis using assms(2,4) turn_delete[OF assms(1,2)] by (auto simp: on_item_def may_fail_def split: if_splits)
next
  case (ClickDownload i)
  then show ?thesis using assms(2,4) turn_download[OF assms(1,2)] by (auto simp: on_item_def may_fail_def split: if_splits)
next
  case ClickProfile
  let ?w1 = "w\<lparr>alerts := alerts w @ [lit ''Profile settings would appear here.'']\<rparr>"
  have "alone srv (dash_handler e) s w = (s, ?w1, Inr ())" by (simp add: ClickProfile)
  then have "s' = s \<and> w' = ?w1 \<and> r = Inr ()" using assms(4) by simp
  moreover have "in_step dir s ?w1" using turn_other[OF assms(2), of ?w1] assms(2) by (simp add: in_step_def dash_elements_def form_of_def)
  ultimately show ?thesis by (simp add: ClickProfile)
next
  case OpenModal
  then show ?thesis using assms(4) turn_set_el[OF assms(2), of "''addFileModal''" srv _ s' w' r]
    by (simp add: showAddFileModal_def set_display_def dash_ids_def)
next
  case CloseModal
  then show ?thesis using assms(4) turn_set_el[OF assms(2), of "''addFileModal''" srv _ s' w' r]
    by (simp add: hideAddFileModal_def set_display_def dash_ids_def)
next
  case (DashType i v)
  show ?thesis
  proof (cases "i \<in> {''fileName'', ''fileType''}")
    case True
    then have "i \<in> set dash_ids" by (auto simp: dash_ids_def)
    from turn_set_el[OF assms(2) this, of srv "\<lambda>e. e\<lparr>el_value := v\<rparr>" s' w' r] show ?thesis
      using assms(4) True DashType by (simp add: set_value_def)
  next
    case False
    then have "alone srv (dash_handler e) s w = (s, w, Inr ())" by (simp add: DashType)
    then show ?thesis using assms(2,4) by (simp add: DashType)
  qed
next
  case SubmitAdd
  then show ?thesis using assms(4) turn_add[OF assms(1,2)] by simp
next
  case (Pick f)
  then show ?thesis using assms(2,4) turn_upload[OF assms(1,2)] by (cases f) (auto simp: onFileUpload_def may_fail_def)
qed (use assms(3) in simp)

definition roots_request :: request where
  "roots_request = \<lparr>req_url = ''/api/filesystem/roots'', req_method = ''GET'', req_headers = [], req_body = NoBody\<rparr>"

lemma turn_load:
  assumes "serves_files srv dir" "dash_elements w" "srv s (Fetch roots_request) = (s1, Settled a)" "resp_ok a"
    "resp_json a = Some (JEntries (x # xs))" "alone srv (dash_handler DashLoad) s w = (s', w', r)"
  shows "in_step dir s' w' \<and> navigationStack w' = [x] \<and> side_roots w' = x # xs \<and> r = Inr ()"
proof -
  let ?w1 = "w\<lparr>side_roots := x # xs, side_active := Some 0\<rparr>"
  let ?w2 = "?w1\<lparr>navigationStack := [x]\<rparr>"
  have e: "alone srv (dash_handler DashLoad) s w = (s1, rendered (dir s1 (fid x)) ?w2, Inr ())"
    using assms(3-5)
    by (simp add: initializeFileSystemUI_def BackendFetchUserRoots_def roots_request_def alone_bind alone_try alone_fetch
        response_json_def renderSideMenu_def as_entries_def alone_lookup[OF assms(1)])
  have "in_step dir s1 (rendered (dir s1 (fid x)) ?w2)"
    by (rule in_step_rendered) (use assms(2) in \<open>simp_all add: dash_elements_def form_of_def\<close>)
  then show ?thesis using assms(6) unfolding e by auto
qed

primrec session :: "('s \<Rightarrow> operation \<Rightarrow> 's \<times> outcome) \<Rightarrow> dash_event list \<Rightarrow> 's \<Rightarrow> 'x dashboard_scheme \<Rightarrow> 's \<times> 'x dashboard_scheme" where
  "session srv [] s w = (s, w)"
| "session srv (e # es) s w = (case alone srv (dash_handler e) s w of (s', w', _) \<Rightarrow> session srv es s' w')"

text \<open>A session is one of the ways the event loop can go.\<close>

lemma session_reachable:
  assumes "reachable dash_handler m0 m" "world m = w" "pending m = []" "session srv es s w = (s', w')"
  shows "\<exists>m'. reachable dash_handler m0 m' \<and> world m' = w' \<and> pending m' = []"
  using assms
proof (induction es arbitrary: m s w)
  case Nil
  then show ?case by auto
next
  case (Cons e es)
  obtain t v r where t: "alone srv (dash_handler e) s w = (t, v, r)" by (cases "alone srv (dash_handler e) s w")
  have m: "m = \<lparr>world = w, pending = [], sent = sent m, uncaught = uncaught m\<rparr>" using Cons.prems(2,3) by simp
  from alone_runs[OF t, of "sent m" "uncaught m"] obtain rs cs where
    r: "fold (\<lambda>o'. settle 0 o') rs (start (dash_handler e) m) =
      \<lparr>world = v, pending = [], sent = sent m @ cs, uncaught = uncaught m @ (case r of Inl e \<Rightarrow> [e] | Inr _ \<Rightarrow> [])\<rparr>"
    unfolding m [symmetric] by blast
  have "reachable dash_handler m0 (start (dash_handler e) m)"
    using reachable.step[OF Cons.prems(1), of "Event e"] by simp
  note reach = reachable_settled[OF this, of rs, unfolded r]
  have "session srv es t v = (s', w')" using Cons.prems(4) by (simp add: t)
  then show ?case using Cons.IH[OF reach, of v t] by simp
qed

definition path_ok :: "entry list \<Rightarrow> entry list \<Rightarrow> bool" where
  "path_ok roots p \<longleftrightarrow> p \<noteq> [] \<and> hd p \<in> set roots \<and> (\<forall>d \<in> set (tl p). \<not> isFile d)"

lemma path_ok_step: "path_ok roots p \<Longrightarrow> path_ok roots (path_step d roots e p)"
proof (cases e)
  case ClickUp
  assume p: "path_ok roots p"
  show ?thesis
  proof (cases "1 < length p")
    case True
    then obtain a b q where "p = a # b # q" by (cases p; cases "tl p") auto
    then show ?thesis using p ClickUp by (auto simp: path_ok_def dest: in_set_butlastD split: if_splits)
  qed (use p ClickUp in simp)
next
  case (ClickCrumb i)
  assume "path_ok roots p"
  then show ?thesis using ClickCrumb by (cases p) (auto simp: path_ok_def dest: in_set_takeD)
next
  case (ClickEntry i)
  assume "path_ok roots p"
  then show ?thesis using ClickEntry by (cases p) (auto simp: path_ok_def Let_def)
qed (auto simp: path_ok_def)

lemma session_in_step:
  assumes "serves_files srv dir" "in_step dir s w" "path_ok (side_roots w) (navigationStack w)" "DashLoad \<notin> set es"
    "session srv es s w = (s', w')"
  shows "in_step dir s' w' \<and> side_roots w' = side_roots w \<and> path_ok (side_roots w) (navigationStack w')"
  using assms(2-)
proof (induction es arbitrary: s w)
  case (Cons e es)
  obtain t v r where t: "alone srv (dash_handler e) s w = (t, v, r)" by (cases "alone srv (dash_handler e) s w")
  have "e \<noteq> DashLoad" using Cons.prems(3) by auto
  note d = turn_dash[OF assms(1) Cons.prems(1) this t]
  have "path_ok (side_roots v) (navigationStack v)" using d path_ok_step[OF Cons.prems(2)] by simp
  then show ?case using Cons.IH[of t v] Cons.prems(3,4) d t by simp
qed simp

section \<open>What holds in every interleaving\<close>

definition dash_ok :: "'x dashboard_scheme \<Rightarrow> bool" where
  "dash_ok w \<longleftrightarrow> dash_elements w \<and> up_button w = (1 < length (crumbs w)) \<and>
     (case side_active w of None \<Rightarrow> side_roots w = [] | Some i \<Rightarrow> i < length (side_roots w))"

text \<open>The requests of the dashboard, by address and method.\<close>

definition dash_requests :: "(string \<times> string) list" where
  "dash_requests = [(''/api/filesystem/roots'', ''GET''), (''/api/filesystem/dirLookup'', ''POST''),
     (''/api/filesystem/dir'', ''POST''), (''/api/filesystem/dir'', ''DELETE''), (''/api/filesystem/file'', ''POST''),
     (''/api/filesystem/file'', ''DELETE''), (''/api/filesystem/upload'', ''POST''), (''/api/filesystem/download'', ''POST'')]"

definition dash_op :: "operation \<Rightarrow> bool" where
  "dash_op c \<longleftrightarrow> (\<exists>rq. c = Fetch rq \<and> (req_url rq, req_method rq) \<in> set dash_requests)"

lemma dash_op_simps [simp]:
  "dash_op (Fetch (lookup_request d))"
  "dash_op (Fetch (json_request ''/api/filesystem/dir'' ''POST'' hs b))"
  "dash_op (Fetch (json_request ''/api/filesystem/dir'' ''DELETE'' hs b))"
  "dash_op (Fetch (json_request ''/api/filesystem/file'' ''POST'' hs b))"
  "dash_op (Fetch (json_request ''/api/filesystem/file'' ''DELETE'' hs b))"
  "dash_op (Fetch \<lparr>req_url = ''/api/filesystem/roots'', req_method = ''GET'', req_headers = hs, req_body = bd\<rparr>)"
  "dash_op (Fetch \<lparr>req_url = ''/api/filesystem/upload'', req_method = ''POST'', req_headers = hs, req_body = bd\<rparr>)"
  "dash_op (Fetch \<lparr>req_url = ''/api/filesystem/download'', req_method = ''POST'', req_headers = hs, req_body = bd\<rparr>)"
  by (simp_all add: dash_op_def dash_requests_def lookup_request_def json_request_def)

lemma dash_form_only: "form_only dash_ok"
  by (auto simp: form_only_def dash_ok_def dash_elements_def form_of_def split: option.splits)

lemma dash_has: "i \<in> set dash_ids \<Longrightarrow> has_element dash_ok i"
  by (auto simp: has_element_def dash_ok_def dash_elements_def list_all_iff form_of_def)

lemma dash_has_ids [simp]: "has_element dash_ok ''addFileModal''" "has_element dash_ok ''fileName''" "has_element dash_ok ''fileType''"
  by (rule dash_has, simp add: dash_ids_def)+

lemma dash_ok_shown: "dash_ok w \<Longrightarrow> dash_ok (shown o' w)"
  by (auto simp: shown_def dash_ok_def dash_elements_def form_of_def Let_def split: option.splits server_json.splits)

lemma keeps_visited: "keeps dash_ok Q E (visited o')"
  by (rule keeps_run) (simp add: run_visited dash_ok_shown)

lemma keeps_visit: "Q (Fetch (lookup_request d)) \<Longrightarrow> keeps dash_ok Q E (visitDirectory d)"
  unfolding visit_eq by (rule keeps_await) (simp_all add: keeps_visited)

lemma keeps_stack: "keeps dash_ok Q E (set_stack f)"
  unfolding set_stack_def by (rule keeps_modify) (simp add: dash_ok_def dash_elements_def form_of_def split: option.splits)

lemma keeps_top: "keeps dash_ok Q (\<lambda>_. True) top_fid"
  unfolding top_fid_def by (rule keeps_get) (auto intro: keeps_throw)

lemma keeps_dash_change: "keeps dash_ok Q (\<lambda>_. True) (bindP (of_js x) f)" if "\<And>y. keeps dash_ok Q (\<lambda>_. True) (f y)"
  using that by (intro keeps_bind keeps_of_js) simp_all

lemma keeps_dash_backend:
  "keeps dash_ok dash_op (\<lambda>_. True) BackendFetchUserRoots" "keeps dash_ok dash_op (\<lambda>_. True) (BackendDirCreate d n)"
  "keeps dash_ok dash_op (\<lambda>_. True) (BackendDirDelete d)" "keeps dash_ok dash_op (\<lambda>_. True) (BackendFileCreate d n)"
  "keeps dash_ok dash_op (\<lambda>_. True) (BackendFileDelete d)" "keeps dash_ok dash_op (\<lambda>_. True) (BackendFileUpload f d)"
  unfolding BackendFetchUserRoots_def BackendDirCreate_def BackendDirDelete_def BackendFileCreate_def
    BackendFileDelete_def BackendFileUpload_def
  by (intro keeps_bind keeps_fetch keeps_response_json keeps_return keeps_try keeps_of_js; simp)+

lemma keeps_dash_download: "keeps dash_ok dash_op (\<lambda>_. True) (BackendFileDownload d)"
  unfolding BackendFileDownload_def
  by (intro keeps_bind keeps_fetch keeps_of_js keeps_modify)
    (auto simp: dash_ok_def dash_elements_def form_of_def split: option.splits)

lemma run_root: "run (dash_handler (ClickRoot i)) w = (if i < length (side_roots w)
    then (w\<lparr>side_active := Some i, navigationStack := [side_roots w ! i]\<rparr>,
      Await (Fetch (lookup_request (fid (side_roots w ! i)))) visited)
    else (w, Return ()))"
  by (simp add: on_item_def onRoot_def set_stack_def visit_eq)

lemma keeps_root: "keeps dash_ok dash_op E (dash_handler (ClickRoot i))"
proof (rule keeps_run)
  fix w :: "'a dashboard_scheme" assume "dash_ok w"
  then show "case run (dash_handler (ClickRoot i)) w of (w', p') \<Rightarrow> dash_ok w' \<and> keeps dash_ok dash_op E p'"
    unfolding run_root by (auto simp: dash_ok_def dash_elements_def form_of_def intro: keeps_await keeps_visited split: option.splits)
qed

lemma keeps_load: "keeps dash_ok dash_op (\<lambda>_. True) initializeFileSystemUI"
proof -
  have "keeps dash_ok dash_op (\<lambda>_. True) (renderSideMenu j)" for j
    unfolding renderSideMenu_def as_entries_def
    by (intro keeps_bind keeps_modify keeps_return)
      (auto simp: dash_ok_def dash_elements_def form_of_def intro: keeps_throw split: server_json.split)
  then show ?thesis unfolding initializeFileSystemUI_def
    by (intro keeps_try keeps_bind keeps_dash_backend keeps_return)
      (auto intro!: keeps_bind[of _ _ _ "set_stack _"] keeps_stack keeps_visit split: list.split)
qed

lemma keeps_add: "keeps dash_ok dash_op (\<lambda>_. True) handleAddFileFormSubmit"
  unfolding handleAddFileFormSubmit_def hideAddFileModal_def
  by (intro keeps_get_el keeps_bind keeps_gets keeps_try keeps_if keeps_dash_backend keeps_form keeps_when keeps_visit
      keeps_return keeps_throw dash_form_only) simp_all

lemma keeps_alert: "keeps dash_ok Q E (modify (\<lambda>w. w\<lparr>alerts := f w\<rparr>))"
  by (rule keeps_modify) (simp add: dash_ok_def dash_elements_def form_of_def split: option.splits)

lemma keeps_item: "(\<And>x. keeps I Q E (f x)) \<Longrightarrow> keeps I Q E (on_item xs i f)"
  by (simp add: on_item_def)

lemma keeps_typed: "i \<in> set dash_ids \<Longrightarrow> keeps dash_ok Q E (set_value i v)"
proof (rule keeps_run)
  fix w :: "'a dashboard_scheme" assume w: "dash_ok w" and i: "i \<in> set dash_ids"
  have el: "dash_elements w" using w by (simp add: dash_ok_def)
  obtain e where e: "doc w i = Some e" using dash_present[OF el i] by blast
  show "case run (set_value i v) w of (w', p') \<Rightarrow> dash_ok w' \<and> keeps dash_ok Q E p'"
    using w dash_elements_doc[OF el] by (simp add: form_set_value e dash_ok_def split: option.splits)
qed

lemma dash_handler_keeps: "keeps dash_ok dash_op (\<lambda>_. True) (dash_handler e)"
proof (cases e)
  case (ClickRoot i)
  then show ?thesis by (simp only: keeps_root)
next
  case (DashType i v)
  then show ?thesis by (auto simp: dash_ids_def intro!: keeps_typed)
next
  case (Pick f)
  then show ?thesis by (auto simp: onFileUpload_def intro!: keeps_bind keeps_top keeps_dash_backend keeps_visit split: option.split)
qed (auto simp: onUp_def onCrumb_def onEntry_def onDelete_def showAddFileModal_def hideAddFileModal_def simp del: bind_basic
    intro!: keeps_load keeps_add keeps_alert keeps_bind keeps_gets keeps_item keeps_when keeps_top keeps_stack keeps_visit
      keeps_dash_backend keeps_dash_download keeps_form dash_form_only)

interpretation dashboard: page_safety dash_handler dash_ok dash_op "\<lambda>_. True"
  by unfold_locales (rule dash_handler_keeps)

section \<open>Properties\<close>

definition dashboard_page :: dashboard where
  "dashboard_page = \<lparr>doc = (\<lambda>i. if i \<in> set dash_ids then Some blank_element else None), location = ''/dashboard'',
     downloads = [], navigationStack = [], side_roots = [], side_active = None, crumbs = [], up_button = False,
     listing = [], alerts = []\<rparr>"

lemma dashboard_page_ok: "dash_ok dashboard_page" "dash_elements dashboard_page"
  by (simp_all add: dash_ok_def dash_elements_def dashboard_page_def dash_ids_def form_of_def)

text \<open>
  C5: One event at a time, every listener of the dashboard does what the abstract dashboard does: the
  navigation stack moves along the directories of the server as \<^verbatim>\<open>path_step\<close> says and only then, the
  screen shows exactly the directory the stack ends in, also after creating, deleting and uploading
  and whether or not the server accepts these, and only deletions, downloads and uploads can end
  in an uncaught error.
\<close>
theorem dashboard_turn_refines:
  assumes "serves_files srv dir" "in_step dir s w" "e \<noteq> DashLoad" "alone srv (dash_handler e) s w = (s', w', r)"
  shows "in_step dir s' w' \<and> navigationStack w' = path_step (dir s) (side_roots w) e (navigationStack w) \<and>
    side_roots w' = side_roots w \<and> (r = Inr () \<or> may_fail e)"
  by (rule turn_dash[OF assms])

text \<open>A server for the examples: two directories, one in the other, and it refuses every change.\<close>

definition example_dir :: "jstr \<Rightarrow> entry list" where
  "example_dir d = (if d = [1] then [\<lparr>fid = [2], name = lit ''photos'', isFile = False\<rparr>]
     else if d = [2] then [\<lparr>fid = [3], name = lit ''sea.png'', isFile = True\<rparr>] else [])"

definition example_root :: entry where
  "example_root = \<lparr>fid = [1], name = lit ''home'', isFile = False\<rparr>"

definition json_answer :: "entry list \<Rightarrow> outcome" where
  "json_answer es = Settled \<lparr>resp_ok = True, resp_text = [], resp_json = Some (JEntries es), resp_disposition = None\<rparr>"

definition example_server :: "unit \<Rightarrow> operation \<Rightarrow> unit \<times> outcome" where
  "example_server s c = (s, case c of
       Fetch rq \<Rightarrow> if req_url rq = ''/api/filesystem/roots'' then json_answer [example_root]
         else (case req_body rq of Json [(k, d)] \<Rightarrow> if rq = lookup_request d then json_answer (example_dir d) else Rejected TypeError
               | _ \<Rightarrow> Rejected TypeError)
     | _ \<Rightarrow> Rejected TypeError)"

lemma example_server_lookup [simp]: "example_server s (Fetch (lookup_request d)) = (s, json_answer (example_dir d))"
  by (simp add: example_server_def lookup_request_def json_request_def)

lemma example_serves: "serves_files example_server (\<lambda>_. example_dir)"
  by (simp add: serves_files_def json_answer_def)

definition example_state :: dashboard where
  "example_state = dashboard_page\<lparr>navigationStack := [example_root], crumbs := [example_root],
     side_roots := [example_root], side_active := Some 0, listing := example_dir [1]\<rparr>"

lemma example_in_step: "in_step (\<lambda>_. example_dir) () example_state"
  by (simp add: in_step_def example_state_def example_root_def dashboard_page_def dash_elements_def dash_ids_def form_of_def)

theorem dashboard_turn_refines_witness:
  "\<exists>s' w' r. alone example_server (dash_handler (ClickEntry 0)) () example_state = (s', w', r) \<and>
     listing w' = example_dir [2] \<and> length (navigationStack w') = 2 \<and> r = Inr ()"
proof -
  obtain s' w' r where t: "alone example_server (dash_handler (ClickEntry 0)) () example_state = (s', w', r)"
    by (cases "alone example_server (dash_handler (ClickEntry 0)) () example_state")
  have st: "navigationStack example_state = [example_root]" by (simp add: example_state_def)
  show ?thesis using dashboard_turn_refines[OF example_serves example_in_step _ t] t
    by (auto simp: in_step_def st example_root_def example_dir_def may_fail_def Let_def)
qed

text \<open>
  C6: After the page has loaded the user's roots, any sequence of events leaves it consistent if each
  is answered before the next: the breadcrumb is the path, it starts at one of the roots and goes
  through directories only, the \<^verbatim>\<open>Up\<close> button is there exactly below a root, and the listing is
  what the server has in the last directory of the path. Such a session is a run of the event loop.
\<close>
theorem dashboard_session:
  assumes "serves_files srv dir" "dash_elements w" "srv s (Fetch roots_request) = (s1, Settled a)" "resp_ok a"
    "resp_json a = Some (JEntries (x # xs))" "DashLoad \<notin> set es" "session srv (DashLoad # es) s w = (s', w')"
  shows "crumbs w' = navigationStack w' \<and> path_ok (x # xs) (navigationStack w') \<and>
    up_button w' = (1 < length (navigationStack w')) \<and> listing w' = dir s' (fid (last (navigationStack w'))) \<and>
    (\<exists>m. reachable dash_handler (idle w) m \<and> world m = w' \<and> pending m = [])"
proof -
  obtain t v r where t: "alone srv (dash_handler DashLoad) s w = (t, v, r)" by (cases "alone srv (dash_handler DashLoad) s w")
  note l = turn_load[OF assms(1-5) t]
  then have "path_ok (side_roots v) (navigationStack v)" by (simp add: path_ok_def)
  moreover have "session srv es t v = (s', w')" using assms(7) by (simp add: t del: dash_handler.simps)
  moreover have "\<exists>m. reachable dash_handler (idle w) m \<and> world m = w' \<and> pending m = []"
    by (rule session_reachable[OF reachable.here _ _ assms(7)]) (simp_all add: idle_def)
  ultimately show ?thesis using session_in_step[OF assms(1), of t v es s' w'] l assms(6) by (simp add: in_step_def)
qed

theorem dashboard_session_witness:
  "let w' = snd (session example_server [DashLoad, ClickEntry 0, OpenModal, SubmitAdd, ClickUp, ClickDelete 0] () dashboard_page)
   in crumbs w' = navigationStack w' \<and> listing w' = example_dir (fid (last (navigationStack w')))"
proof -
  let ?es = "[ClickEntry 0, OpenModal, SubmitAdd, ClickUp, ClickDelete 0]"
  obtain a where a: "example_server () (Fetch roots_request) = ((), Settled a)" "resp_ok a" "resp_json a = Some (JEntries [example_root])"
    by (simp add: example_server_def roots_request_def json_answer_def)
  obtain s' w' where t: "session example_server (DashLoad # ?es) () dashboard_page = (s', w')"
    by (cases "session example_server (DashLoad # ?es) () dashboard_page")
  have "DashLoad \<notin> set ?es" by simp
  from dashboard_session[OF example_serves dashboard_page_ok(2) a this t] show ?thesis
    unfolding t Let_def snd_conv by blast
qed

text \<open>
  C23: Whatever the order of events and answers, the \<^verbatim>\<open>Up\<close> button is shown exactly next to a
  breadcrumb of at least two entries, the active item is one of the side menu, the modal and the form
  stay on the page, and nothing but the eight requests of the file interface is sent.
\<close>
theorem dashboard_page_safe:
  assumes "dash_ok w" "reachable dash_handler (idle w) m"
  shows "dash_ok (world m) \<and> (\<forall>c \<in> set (sent m). dash_op c)"
  using dashboard.world_inv[OF assms(2,1)] dashboard.sent_ok[OF assms(2,1)] by blast

theorem dashboard_page_safe_witness:
  "dash_ok (world (fold (perform dash_handler) [Event DashLoad, Settle 0 (json_answer [example_root]),
     Event (ClickRoot 0), Event ClickUp, Settle 1 (json_answer [])] (idle dashboard_page)))"
  using dashboard_page_safe[OF dashboard_page_ok(1) reachable_fold] by blast

section \<open>A user who does not wait\<close>

text \<open>Each event up to its first await, on a screen that has what was clicked.\<close>

lemma run_up: "up_button w \<Longrightarrow> run (dash_handler ClickUp) w =
    (let w1 = w\<lparr>navigationStack := butlast (navigationStack w)\<rparr>
     in (w1, if navigationStack w1 = [] then Throw TypeError
             else Await (Fetch (lookup_request (fid (last (navigationStack w1))))) visited))"
  by (simp add: onUp_def set_stack_def top_fid_def visit_eq Let_def)

lemma run_entry: "i < length (listing w) \<Longrightarrow> \<not> isFile (listing w ! i) \<Longrightarrow> run (dash_handler (ClickEntry i)) w =
    (w\<lparr>navigationStack := navigationStack w @ [listing w ! i]\<rparr>, Await (Fetch (lookup_request (fid (listing w ! i)))) visited)"
  by (simp add: on_item_def onEntry_def set_stack_def visit_eq)

lemma run_delete_stuck: "i < length (listing w) \<Longrightarrow> navigationStack w = [] \<Longrightarrow>
    run (dash_handler (ClickDelete i)) w = (w, Throw TypeError)"
  by (simp add: on_item_def onDelete_def top_fid_def)

lemma start_run:
  "run p (world m) = (w, Await c k) \<Longrightarrow> start p m = m\<lparr>world := w, pending := pending m @ [Await c k], sent := sent m @ [c]\<rparr>"
  "run p (world m) = (w, Throw e) \<Longrightarrow> start p m = m\<lparr>world := w, uncaught := uncaught m @ [e]\<rparr>"
  "run p (world m) = (w, Return ()) \<Longrightarrow> start p m = m\<lparr>world := w\<rparr>"
  by (simp_all add: start_def)

lemma start_visited: "start (visited o') m = m\<lparr>world := shown o' (world m)\<rparr>"
  by (rule start_run(3)[OF run_visited])

text \<open>
  C24: Pressing \<^verbatim>\<open>Up\<close> twice before the first lookup has been answered, in a directory just below a
  root, loses the path: the second press pops the root as well and dies with a \<^verbatim>\<open>TypeError\<close>. When the
  answer arrives the page shows the root's entries under an empty breadcrumb, and deleting any of
  them dies with a \<^verbatim>\<open>TypeError\<close> too, without a request.
\<close>
theorem up_twice_loses_path:
  assumes "navigationStack w = [r, d]" "up_button w" "resp_ok a" "resp_json a = Some (JEntries es)" "i < length es"
  shows "let m = fold (perform dash_handler) [Event ClickUp, Event ClickUp, Settle 0 (Settled a)] (idle w);
       m' = perform dash_handler (Event (ClickDelete i)) m
     in uncaught m = [TypeError] \<and> navigationStack (world m) = [] \<and> crumbs (world m) = [] \<and> listing (world m) = es \<and>
        sent m' = [Fetch (lookup_request (fid r))] \<and> uncaught m' = [TypeError, TypeError]"
proof -
  let ?c = "Fetch (lookup_request (fid r))"
  let ?w1 = "w\<lparr>navigationStack := [r]\<rparr>" and ?w2 = "w\<lparr>navigationStack := []\<rparr>"
  have 1: "start (dash_handler ClickUp) (idle w) = \<lparr>world = ?w1, pending = [Await ?c visited], sent = [?c], uncaught = []\<rparr>"
    by (subst start_run(1)[where w = ?w1]) (use assms(1,2) in \<open>simp_all add: idle_def run_up del: dash_handler.simps\<close>)
  have 2: "start (dash_handler ClickUp) \<lparr>world = ?w1, pending = [Await ?c visited], sent = [?c], uncaught = []\<rparr>
      = \<lparr>world = ?w2, pending = [Await ?c visited], sent = [?c], uncaught = [TypeError]\<rparr>"
    by (subst start_run(2)[where w = ?w2]) (use assms(2) in \<open>simp_all add: run_up del: dash_handler.simps\<close>)
  have 3: "start (dash_handler (ClickDelete i)) \<lparr>world = rendered es ?w2, pending = [], sent = [?c], uncaught = [TypeError]\<rparr>
      = \<lparr>world = rendered es ?w2, pending = [], sent = [?c], uncaught = [TypeError, TypeError]\<rparr>"
    by (subst start_run(2)[where w = "rendered es ?w2"]) (use assms(5) in \<open>simp_all add: run_delete_stuck del: dash_handler.simps\<close>)
  show ?thesis
    by (simp add: Let_def 1 2 3 start_visited shown_entries[OF assms(3,4)] del: dash_handler.simps)
qed

theorem up_twice_loses_path_witness:
  "uncaught (fold (perform dash_handler) [Event ClickUp, Event ClickUp, Settle 0 (json_answer (example_dir [1]))]
     (idle (example_state\<lparr>navigationStack := [example_root, hd (example_dir [1])], up_button := True\<rparr>))) = [TypeError]"
  using up_twice_loses_path[of "example_state\<lparr>navigationStack := [example_root, hd (example_dir [1])], up_button := True\<rparr>"
      example_root "hd (example_dir [1])" "\<lparr>resp_ok = True, resp_text = [], resp_json = Some (JEntries (example_dir [1])), resp_disposition = None\<rparr>"
      "example_dir [1]" 0]
  by (simp add: json_answer_def example_dir_def Let_def del: fold.simps fold_simps)

text \<open>
  C27: A double click on a directory enters it twice: both clicks push it, both lookups succeed, and the
  breadcrumb ends in the same directory twice.
\<close>
theorem double_click_enters_twice:
  assumes "i < length (listing w)" "\<not> isFile (listing w ! i)" "resp_ok a" "resp_json a = Some (JEntries es)"
  shows "let m = fold (perform dash_handler) [Event (ClickEntry i), Event (ClickEntry i), Settle 0 (Settled a), Settle 0 (Settled a)] (idle w);
       d = listing w ! i
     in crumbs (world m) = navigationStack w @ [d, d] \<and> navigationStack (world m) = navigationStack w @ [d, d] \<and>
        listing (world m) = es \<and> uncaught m = [] \<and> pending m = []"
proof -
  let ?d = "listing w ! i"
  let ?c = "Fetch (lookup_request (fid ?d))" and ?w1 = "w\<lparr>navigationStack := navigationStack w @ [?d]\<rparr>"
  let ?w2 = "w\<lparr>navigationStack := navigationStack w @ [?d, ?d]\<rparr>"
  have 1: "start (dash_handler (ClickEntry i)) (idle w) = \<lparr>world = ?w1, pending = [Await ?c visited], sent = [?c], uncaught = []\<rparr>"
    by (subst start_run(1)[where w = ?w1]) (use assms(1,2) in \<open>simp_all add: idle_def run_entry del: dash_handler.simps\<close>)
  have 2: "start (dash_handler (ClickEntry i)) \<lparr>world = ?w1, pending = [Await ?c visited], sent = [?c], uncaught = []\<rparr>
      = \<lparr>world = ?w2, pending = [Await ?c visited, Await ?c visited], sent = [?c, ?c], uncaught = []\<rparr>"
    by (subst start_run(1)[where w = ?w2]) (use assms(1,2) in \<open>simp_all add: run_entry del: dash_handler.simps\<close>)
  show ?thesis
    by (simp add: Let_def 1 2 start_visited settle_def shown_entries[OF assms(3,4)] del: dash_handler.simps)
qed

theorem double_click_enters_twice_witness:
  "crumbs (world (fold (perform dash_handler) [Event (ClickEntry 0), Event (ClickEntry 0), Settle 0 (json_answer (example_dir [2])),
     Settle 0 (json_answer (example_dir [2]))] (idle example_state)))
   = [example_root, hd (example_dir [1]), hd (example_dir [1])]"
proof -
  have "0 < length (listing example_state)" "\<not> isFile (listing example_state ! 0)" "navigationStack example_state = [example_root]"
    "listing example_state ! 0 = hd (example_dir [1])"
    by (simp_all add: example_state_def example_dir_def)
  from double_click_enters_twice[OF this(1,2), of "\<lparr>resp_ok = True, resp_text = [], resp_json = Some (JEntries (example_dir [2])),
      resp_disposition = None\<rparr>" "example_dir [2]"] this(3,4)
  show ?thesis by (simp only: Let_def json_answer_def response.select_convs append_Cons append_Nil)
qed

text \<open>
  C25: Lookups that are answered out of order show the wrong directory: after clicking root \<^verbatim>\<open>i\<close> and then
  root \<^verbatim>\<open>j\<close>, with the answer for \<^verbatim>\<open>i\<close> arriving last, the menu and the breadcrumb say \<^verbatim>\<open>j\<close> and the
  listing is that of \<^verbatim>\<open>i\<close>; nothing is pending any more, so it stays that way.
\<close>
theorem late_answer_shows_wrong_directory:
  assumes "i < length (side_roots w)" "j < length (side_roots w)" "resp_ok a" "resp_json a = Some (JEntries es)"
    "resp_ok b" "resp_json b = Some (JEntries fs)"
  shows "let m = fold (perform dash_handler) [Event (ClickRoot i), Event (ClickRoot j), Settle 1 (Settled b), Settle 0 (Settled a)] (idle w)
     in sent m = [Fetch (lookup_request (fid (side_roots w ! i))), Fetch (lookup_request (fid (side_roots w ! j)))] \<and>
        side_active (world m) = Some j \<and> navigationStack (world m) = [side_roots w ! j] \<and> crumbs (world m) = [side_roots w ! j] \<and>
        listing (world m) = es \<and> uncaught m = [] \<and> pending m = []"
proof -
  let ?c = "\<lambda>k. Fetch (lookup_request (fid (side_roots w ! k)))"
  let ?w = "\<lambda>k. w\<lparr>side_active := Some k, navigationStack := [side_roots w ! k]\<rparr>"
  have 1: "start (dash_handler (ClickRoot i)) (idle w) = \<lparr>world = ?w i, pending = [Await (?c i) visited], sent = [?c i], uncaught = []\<rparr>"
    by (subst start_run(1)[where w = "?w i"]) (use assms(1) in \<open>simp_all add: idle_def run_root del: dash_handler.simps\<close>)
  have 2: "start (dash_handler (ClickRoot j)) \<lparr>world = ?w i, pending = [Await (?c i) visited], sent = [?c i], uncaught = []\<rparr>
      = \<lparr>world = ?w j, pending = [Await (?c i) visited, Await (?c j) visited], sent = [?c i, ?c j], uncaught = []\<rparr>"
    by (subst start_run(1)[where w = "?w j"]) (use assms(2) in \<open>simp_all add: run_root del: dash_handler.simps\<close>)
  show ?thesis
    by (simp add: Let_def 1 2 start_visited settle_def shown_entries[OF assms(3,4)] shown_entries[OF assms(5,6)] del: dash_handler.simps)
qed

theorem late_answer_shows_wrong_directory_witness:
  "let w = example_state\<lparr>side_roots := [example_root, hd (example_dir [1])]\<rparr>;
       m = fold (perform dash_handler) [Event (ClickRoot 0), Event (ClickRoot 1), Settle 1 (json_answer (example_dir [2])),
         Settle 0 (json_answer (example_dir [1]))] (idle w)
   in crumbs (world m) = [hd (example_dir [1])] \<and> listing (world m) = example_dir [1]"
proof -
  let ?w = "example_state\<lparr>side_roots := [example_root, hd (example_dir [1])]\<rparr>"
  have "0 < length (side_roots ?w)" "1 < length (side_roots ?w)" "side_roots ?w ! 1 = hd (example_dir [1])" by simp_all
  from late_answer_shows_wrong_directory[OF this(1,2), of
      "\<lparr>resp_ok = True, resp_text = [], resp_json = Some (JEntries (example_dir [1])), resp_disposition = None\<rparr>" "example_dir [1]"
      "\<lparr>resp_ok = True, resp_text = [], resp_json = Some (JEntries (example_dir [2])), resp_disposition = None\<rparr>" "example_dir [2]"] this(3)
  show ?thesis by (simp only: Let_def json_answer_def response.select_convs)
qed

lemma run_submit_file:
  assumes "doc w ''fileName'' = Some a" "doc w ''fileType'' = Some b" "el_value b \<noteq> lit ''folder''" "navigationStack w \<noteq> []"
  shows "\<exists>k. run handleAddFileFormSubmit w = (w, Await (Fetch (json_request ''/api/filesystem/file'' ''POST'' []
    [(''name'', el_value a), (''directory'', fid (last (navigationStack w)))])) k)"
  using assms(3,4)
  by (simp add: handleAddFileFormSubmit_def run_bind_return[OF run_get_el[OF assms(1)]] run_bind_return[OF run_get_el[OF assms(2)]]
      BackendFileCreate_def fetch_eq)

text \<open>
  C26: A failed lookup leaves the screen and the stack apart: the directory that could not be shown stays
  on the stack, the screen does not change, no error is shown, and the form for new files creates
  its next file in the directory that is not on the screen.
\<close>
theorem failed_lookup_leaves_directory:
  assumes "i < length (listing w)" "\<not> isFile (listing w ! i)" "answer o' = Inl e"
    "form_of w ''fileName'' = Some n" "form_of w ''fileType'' = Some t" "t \<noteq> lit ''folder''"
  shows "let m = fold (perform dash_handler) [Event (ClickEntry i), Settle 0 o'] (idle w); d = listing w ! i
     in navigationStack (world m) = navigationStack w @ [d] \<and> crumbs (world m) = crumbs w \<and> up_button (world m) = up_button w \<and>
        listing (world m) = listing w \<and> doc (world m) = doc w \<and> uncaught m = [] \<and>
        sent (perform dash_handler (Event SubmitAdd) m) = sent m @
          [Fetch (json_request ''/api/filesystem/file'' ''POST'' [] [(''name'', n), (''directory'', fid d)])]"
proof -
  let ?d = "listing w ! i"
  let ?c = "Fetch (lookup_request (fid ?d))" and ?w1 = "w\<lparr>navigationStack := navigationStack w @ [?d]\<rparr>"
  obtain a b where ab: "doc w ''fileName'' = Some a" "el_value a = n" "doc w ''fileType'' = Some b" "el_value b = t"
    using assms(4,5) by (auto simp: form_of_def)
  have 1: "start (dash_handler (ClickEntry i)) (idle w) = \<lparr>world = ?w1, pending = [Await ?c visited], sent = [?c], uncaught = []\<rparr>"
    by (subst start_run(1)[where w = ?w1]) (use assms(1,2) in \<open>simp_all add: idle_def run_entry del: dash_handler.simps\<close>)
  let ?m = "\<lparr>world = ?w1, pending = [], sent = [?c], uncaught = []\<rparr>"
  have 2: "fold (perform dash_handler) [Event (ClickEntry i), Settle 0 o'] (idle w) = ?m"
    by (simp add: 1 start_visited shown_failed[OF assms(3)] del: dash_handler.simps)
  obtain k where k: "run handleAddFileFormSubmit ?w1 = (?w1, Await (Fetch (json_request ''/api/filesystem/file'' ''POST'' []
      [(''name'', el_value a), (''directory'', fid (last (navigationStack ?w1)))])) k)"
    using run_submit_file[of ?w1 a b] ab assms(6) by auto
  have "sent (perform dash_handler (Event SubmitAdd) ?m) = sent ?m @
      [Fetch (json_request ''/api/filesystem/file'' ''POST'' [] [(''name'', n), (''directory'', fid ?d)])]"
    using k by (simp add: start_def ab(2))
  then show ?thesis unfolding 2 Let_def by simp
qed

theorem failed_lookup_leaves_directory_witness:
  "navigationStack (world (fold (perform dash_handler) [Event (ClickEntry 0), Settle 0 (Rejected TypeError)] (idle example_state)))
   = [example_root, hd (example_dir [1])]"
proof -
  have e: "0 < length (listing example_state)" "\<not> isFile (listing example_state ! 0)" "answer (Rejected TypeError) = Inl TypeError"
    "form_of example_state ''fileName'' = Some []" "form_of example_state ''fileType'' = Some []"
    by (simp_all add: example_state_def example_dir_def dashboard_page_def dash_ids_def form_of_def blank_element_def)
  have "lit ''folder'' \<noteq> []" by (simp add: lit_def)
  from failed_lookup_leaves_directory[OF e this[symmetric]] show ?thesis
    by (simp add: Let_def example_state_def example_dir_def del: fold_simps perform.simps)
qed

end
