(* ===== verification/Theme.thy ===== *)
theory Theme
  imports JsString
begin

text \<open>
  The theme button of the public pages: \<^verbatim>\<open>frontend/js/theme-switcher.js\<close>.

  The state is what the listeners read and write: whether the body has the class \<^verbatim>\<open>dark-theme\<close>, the
  entry \<^verbatim>\<open>theme\<close> of the local storage, which outlives the page, and the text of the button. The pages
  are delivered with a light body and a sun on the button.
\<close>

record theme =
  dark_theme :: bool
  stored_theme :: "jstr option"
  button_text :: jstr

text \<open>The two emojis as UTF-16.\<close>

definition sun :: jstr where "sun = [0xD83C, 0xDF1E]"

definition moon :: jstr where "moon = [0xD83C, 0xDF19]"

definition onThemeLoad :: "theme \<Rightarrow> theme" where
  "onThemeLoad w =
     (let isDark = (stored_theme w = Some (lit ''dark''))
      in if isDark then w\<lparr>dark_theme := True, button_text := moon\<rparr> else w)"

definition onThemeClick :: "theme \<Rightarrow> theme" where
  "onThemeClick w =
     (let isDarkMode = \<not> dark_theme w
      in w\<lparr>dark_theme := isDarkMode, button_text := (if isDarkMode then sun else moon),
           stored_theme := Some (if isDarkMode then lit ''dark'' else lit ''light'')\<rparr>)"

text \<open>Opening a page: the document as delivered, the storage as it was.\<close>

definition open_page :: "jstr option \<Rightarrow> theme" where
  "open_page s = onThemeLoad \<lparr>dark_theme = False, stored_theme = s, button_text = sun\<rparr>"

definition theme_clicks :: "nat \<Rightarrow> jstr option \<Rightarrow> theme" where
  "theme_clicks n s = (onThemeClick ^^ n) (open_page s)"

lemma lit_light: "lit ''light'' \<noteq> lit ''dark''"
  by (simp add: unit_of_def)

lemma theme_click:
  "dark_theme (onThemeClick w) = (\<not> dark_theme w)"
  "stored_theme (onThemeClick w) = Some (if dark_theme w then lit ''light'' else lit ''dark'')"
  "button_text (onThemeClick w) = (if dark_theme w then moon else sun)"
  by (simp_all add: onThemeClick_def Let_def del: lit_simps)

lemma theme_open:
  "dark_theme (open_page s) = (s = Some (lit ''dark''))"
  "button_text (open_page s) = (if s = Some (lit ''dark'') then moon else sun)"
  "stored_theme (open_page s) = s"
  by (simp_all add: open_page_def onThemeLoad_def del: lit_simps)

lemma theme_clicks_dark: "dark_theme (theme_clicks n s) = ((s = Some (lit ''dark'')) \<noteq> odd n)"
  unfolding theme_clicks_def by (induction n) (auto simp: theme_click theme_open simp del: lit_simps)

lemma theme_clicks_stored:
  "stored_theme (theme_clicks n s) = Some (lit ''dark'') \<longleftrightarrow> dark_theme (theme_clicks n s)"
  unfolding theme_clicks_def using lit_light
  by (induction n) (auto simp: theme_click theme_open simp del: lit_simps)

text \<open>
  C28: The theme survives. After any number of clicks the page is dark exactly if it started dark and
  the number is even, or light and odd, and the next page opened has the same theme. Its button does
  not: after any click, the next page shows the other emoji for the same theme, since loading marks a
  dark page with the moon and clicking marks it with the sun.
\<close>
theorem theme_survives_but_not_button:
  "dark_theme (theme_clicks n s) = ((s = Some (lit ''dark'')) \<noteq> odd n) \<and>
   dark_theme (open_page (stored_theme (theme_clicks n s))) = dark_theme (theme_clicks n s) \<and>
   button_text (open_page (stored_theme (theme_clicks (Suc n) s))) \<noteq> button_text (theme_clicks (Suc n) s)"
proof -
  have b: "button_text (theme_clicks (Suc n) s) = (if dark_theme (theme_clicks (Suc n) s) then sun else moon)"
    by (simp add: theme_clicks_def theme_click)
  have "sun \<noteq> moon" by (simp add: sun_def moon_def)
  then show ?thesis
    using theme_clicks_dark[of n s] unfolding theme_open b theme_clicks_stored by auto
qed

end
