(* ===== verification/Spec2Isabelle.thy ===== *)
theory Spec2Isabelle
  imports QrCode Canvas Login Signup Dashboard Theme
begin

text \<open>
  Verification of the web frontend of teilpunkt, a self-hosted file server: the JavaScript under
  \<^verbatim>\<open>src/frontend/js\<close>.

  \<^bold>\<open>The program.\<close> Three pages talk to the server over \<^verbatim>\<open>fetch\<close>. The login page
  (\<^verbatim>\<open>login.js\<close>) and the signup page (\<^verbatim>\<open>signup.js\<close>) validate a form with the helpers of \<^verbatim>\<open>util.js\<close>,
  hash the password (\<^verbatim>\<open>crypto.js\<close>, over libsodium) and send it (\<^verbatim>\<open>backend.js\<close>); the signup page then
  shows the server's answer, a secret for the second factor, as a QR code, which \<^verbatim>\<open>util.js\<close> draws on a
  canvas with the generator in \<^verbatim>\<open>qrcodegen.js\<close>. The dashboard (\<^verbatim>\<open>dashboard.js\<close>) browses the user's
  directories through the file functions of \<^verbatim>\<open>backend.js\<close>. \<^verbatim>\<open>theme-switcher.js\<close> is the theme button of
  the public pages.

  \<^bold>\<open>The theories and the code.\<close>
  \<^item> \<^verbatim>\<open>Prelude\<close>: results of functions that may throw, loops that stop at a throw, 32-bit arithmetic.
    \<^verbatim>\<open>JsString\<close>: strings as lists of UTF-16 code units, \<^verbatim>\<open>trim\<close>, \<^verbatim>\<open>encodeURI\<close> and others.
  \<^item> The QR code generator (\<^verbatim>\<open>qrcodegen.js\<close>), in the order of its data flow: \<^verbatim>\<open>Segments\<close> (text to
    segments), \<^verbatim>\<open>Bits\<close> and \<^verbatim>\<open>QrTables\<close> (bit buffers, capacities), \<^verbatim>\<open>Encode\<close> (version, level, data
    codewords), \<^verbatim>\<open>GF256\<close> and \<^verbatim>\<open>ReedSolomon\<close> (error correction), \<^verbatim>\<open>Interleave\<close> (blocks), \<^verbatim>\<open>Matrix\<close>,
    \<^verbatim>\<open>FunctionModules\<close> and \<^verbatim>\<open>FormatInfo\<close> (function patterns), \<^verbatim>\<open>DataModules\<close> (codewords and
    masks), \<^verbatim>\<open>Penalty\<close> (the choice of the mask), \<^verbatim>\<open>QrCode\<close> (constructor and factories), and \<^verbatim>\<open>Canvas\<close>
    (\<^verbatim>\<open>showQRCode\<close> of \<^verbatim>\<open>util.js\<close>). A symbol is the record \<^verbatim>\<open>qrcode\<close> with the two module grids of the class;
    every method is a function of the same name from the old symbol to the new one or an error.
  \<^item> The pages: \<^verbatim>\<open>Web\<close> (asynchronous functions and the event loop), \<^verbatim>\<open>Dom\<close> (pages and the form helpers
    of \<^verbatim>\<open>util.js\<close>), \<^verbatim>\<open>Backend\<close> (\<^verbatim>\<open>backend.js\<close>, \<^verbatim>\<open>crypto.js\<close>), \<^verbatim>\<open>Login\<close>, \<^verbatim>\<open>Signup\<close>, \<^verbatim>\<open>Dashboard\<close> and
    \<^verbatim>\<open>Theme\<close>. The state of a page is a record that extends \<^verbatim>\<open>page\<close> (its elements by id, its address, its
    downloads); every listener of the source is a handler, a function body cut at its awaits, and
    the events a page reacts to are a datatype.

  \<^bold>\<open>What the lemmas show.\<close>
  \<^item> The generator is correct end to end: every stage has a reader (\<^verbatim>\<open>byte_decode\<close> and its
    siblings, \<^verbatim>\<open>read_stream\<close>, \<^verbatim>\<open>deinterleave\<close>, \<^verbatim>\<open>read_symbol\<close>, \<^verbatim>\<open>scan_canvas\<close>) that undoes it, up to
    \<^verbatim>\<open>encodeText_scans\<close> and \<^verbatim>\<open>showQRCode_scans\<close>: what is on the canvas reads as the text. The locale
    \<^verbatim>\<open>segment_codec\<close> states what encoder and reader of a mode owe each other. The error correction bytes
    are those of a Reed-Solomon code over the field of 256 elements and correct as many errors as
    such a code can; format and version words survive three wrong modules.
  \<^item> The errors are exact: each function is shown to throw precisely the errors its code
    announces and in precisely which cases.
  \<^item> The pages are safe under every interleaving: the locale \<^verbatim>\<open>page_trace\<close> turns what a handler keeps
    between its awaits, and may send for the event and the state it started in, into a statement on
    all states of the event loop, on the origin of everything ever sent, and on what is thrown and
    never caught. \<^verbatim>\<open>page_safety\<close> is the case where what may be sent does not depend on the event. They are
    interpreted for the three pages; for the signup page they give that every request to the server is
    the registration of a form that was valid when it was submitted.
  \<^item> The dashboard refines an abstract one, a path of directories moved by the user, as long as each
    event is answered before the next (\<^verbatim>\<open>dashboard_turn_refines\<close>, \<^verbatim>\<open>dashboard_session\<close>; \<^verbatim>\<open>alone_runs\<close> and
    \<^verbatim>\<open>session_reachable\<close> embed these runs in the event loop). Without that it does not, and concrete sequences of events and
    answers show how: a second click on \<^verbatim>\<open>Up\<close>, a double click, a late answer, a failed lookup.

  \<^bold>\<open>Bounds and fuel.\<close> No definition of the code uses fuel. Loops are folds over the source's index
  ranges, structural recursions, or functions with a termination proof (\<^verbatim>\<open>version_loop\<close>, \<^verbatim>\<open>pad_loop\<close>,
  \<^verbatim>\<open>scan_loop\<close> and others). The reader \<^verbatim>\<open>read_stream\<close> has a step bound; a segment takes at least four
  bits, so one more than the number of bits is always enough. Numbers are unbounded
  integers, and the bitwise operators truncate to 32 bits as JavaScript's do. The
  statements on the event loop hold for any number of steps.

  \<^bold>\<open>Parameters.\<close> The functions of libsodium are the record \<^verbatim>\<open>sodium\<close>, an argument. The server is the
  arbitrary answers of the event loop; only the sequential statements about the dashboard assume
  something of it (\<^verbatim>\<open>serves_files\<close>), namely that every lookup succeeds and that refused creations and
  deletions and downloads change no directory; an example server satisfies it. Which names the scripts
  of the signup page declare is an argument, and \<^verbatim>\<open>signup_names\<close> are those in scope. Whether the browser has
  passkeys is an argument of the handlers.

  \<^bold>\<open>Not modelled.\<close>
  \<^item> The server, the C++ under \<^verbatim>\<open>src/src\<close>, and its tests.
  \<^item> \<^verbatim>\<open>icons.js\<close> (constant pictures), style sheets, the static HTML beyond the ids of its elements, focus,
    console output, and the minified library \<^verbatim>\<open>libsodium.js\<close>.
  \<^item> \<^verbatim>\<open>isPasskeyAvailable\<close> beyond its result, and the cookies, which \<^verbatim>\<open>redirectDashBoardLoggedIn\<close> reads
    without doing anything with them.
  \<^item> \<^verbatim>\<open>JSON.parse\<close> and \<^verbatim>\<open>JSON.stringify\<close>: a body is the object before and after them. The elements
    of an array the server sends are taken to have the three fields of a directory entry.
  \<^item> The await of an answer and the await of its body are one step. Between them the code touches
    nothing, so the step is the arrival of the body; there are fewer awaits here than in the source.
\<close>

end
